(* ===== verification/Prelude.thy ===== *)
theory Prelude
  imports Main "HOL-Library.Word" "HOL-Library.Char_ord"
begin

section \<open>Shared types, automation and lemmas\<close>

text \<open>
  The machine types of the program (bytes, 16-bit wide characters, 32- and 64-bit integers),
  the two encodings every component uses (little-endian integers and C characters as bytes),
  writes into a byte buffer, and the lemma collections the component theories simplify with.
\<close>

named_theorems codec_simps \<open>rewrite rules for byte encodings and their lengths\<close>

type_synonym byte = "8 word"
type_synonym u16 = "16 word"
type_synonym u32 = "32 word"
type_synonym u64 = "64 word"
type_synonym addr = "64 word"
type_synonym wstring = "16 word list"

subsection \<open>Characters and bytes\<close>

definition byte_of :: "char \<Rightarrow> byte" where
  "byte_of c = of_nat (of_char c)"

definition chr_of :: "byte \<Rightarrow> char" where
  "chr_of b = char_of (unat b)"

abbreviation bytes_of :: "string \<Rightarrow> byte list" where
  "bytes_of s \<equiv> map byte_of s"

abbreviation string_of :: "byte list \<Rightarrow> string" where
  "string_of bs \<equiv> map chr_of bs"

definition wide :: "string \<Rightarrow> wstring" where
  "wide s = map (\<lambda>c. of_nat (of_char c)) s"

lemma unat_byte_less [simp]: "unat (b :: byte) < 256"
  using unsigned_less [of b, where ?'a = nat] by simp

lemma chr_of_byte_of [simp]: "chr_of (byte_of c) = c"
  by (simp add: chr_of_def byte_of_def unat_of_nat)

lemma byte_of_chr_of [simp]: "byte_of (chr_of b) = b"
proof -
  have "unat b mod 256 = unat b" by simp
  then show ?thesis by (simp add: chr_of_def byte_of_def)
qed

lemma chr_of_comp_byte_of [simp]: "chr_of \<circ> byte_of = id"
  by (simp add: fun_eq_iff)

lemma byte_of_comp_chr_of [simp]: "byte_of \<circ> chr_of = id"
  by (simp add: fun_eq_iff)

lemma string_of_bytes_of [simp]: "string_of (bytes_of s) = s"
  by (induction s) simp_all

lemma bytes_of_string_of [simp]: "bytes_of (string_of bs) = bs"
  by (induction bs) simp_all

lemma byte_of_eq_iff [simp]: "byte_of c = byte_of d \<longleftrightarrow> c = d"
  by (metis chr_of_byte_of)

lemma bytes_of_eq_iff [simp]: "bytes_of s = bytes_of t \<longleftrightarrow> s = t"
  by (metis string_of_bytes_of)

lemma chr_of_eq_iff [simp]: "chr_of a = chr_of b \<longleftrightarrow> a = b"
  by (metis byte_of_chr_of)

lemma string_of_eq_iff [simp]: "string_of a = string_of b \<longleftrightarrow> a = b"
  by (metis bytes_of_string_of)

text \<open>Differences of byte values, as the comparison helpers return them.\<close>

lemma uint_eq_iff_word [simp]: "uint (a :: 'a::len word) = uint b \<longleftrightarrow> a = b"
  by (simp add: word_uint_eq_iff)

lemma uint_less_iff_word [simp]: "uint (a :: 'a::len word) < uint b \<longleftrightarrow> a < b"
  by (simp add: word_less_def)

lemma string_of_eq_conv: "string_of bs = s \<longleftrightarrow> bs = bytes_of s"
  by (metis string_of_bytes_of bytes_of_string_of)

lemma unat_of_nat_small: "n < 2 ^ LENGTH('a) \<Longrightarrow> unat (of_nat n :: 'a::len word) = n"
  by (simp add: unat_of_nat)

subsection \<open>Little-endian integers\<close>

fun le_enc :: "nat \<Rightarrow> nat \<Rightarrow> byte list" where
  "le_enc 0 x = []"
| "le_enc (Suc n) x = of_nat (x mod 256) # le_enc n (x div 256)"

fun le_dec :: "byte list \<Rightarrow> nat" where
  "le_dec [] = 0"
| "le_dec (b # bs) = unat b + 256 * le_dec bs"

definition le_bytes :: "'a::len word \<Rightarrow> byte list" where
  "le_bytes w = le_enc (LENGTH('a) div 8) (unat w)"

definition of_le :: "byte list \<Rightarrow> 'a::len word" where
  "of_le bs = of_nat (le_dec bs)"

lemma length_le_enc [simp]: "length (le_enc n x) = n"
  by (induction n arbitrary: x) simp_all

lemma length_le_bytes [simp]: "length (le_bytes (w :: 'a::len word)) = LENGTH('a) div 8"
  by (simp add: le_bytes_def)

lemma le_dec_enc: "x < 256 ^ n \<Longrightarrow> le_dec (le_enc n x) = x"
proof (induction n arbitrary: x)
  case 0
  then show ?case by simp
next
  case (Suc n)
  have "x div 256 < 256 ^ n"
    using Suc.prems by (simp add: less_mult_imp_div_less mult.commute)
  then have "le_dec (le_enc n (x div 256)) = x div 256" by (rule Suc.IH)
  moreover have "unat (of_nat (x mod 256) :: byte) = x mod 256"
    by (simp add: unat_of_nat)
  ultimately show ?case by simp
qed

lemma le_dec_less: "le_dec bs < 256 ^ length bs"
proof (induction bs)
  case Nil
  then show ?case by simp
next
  case (Cons b bs)
  have "unat b + 256 * le_dec bs < 256 + 256 * le_dec bs" by simp
  also have "\<dots> \<le> 256 * 256 ^ length bs" using Cons.IH by simp
  finally show ?case by simp
qed

lemma le_enc_dec: "le_enc (length bs) (le_dec bs) = bs"
proof (induction bs)
  case Nil
  then show ?case by simp
next
  case (Cons b bs)
  then show ?case by simp
qed

lemma le_modulus: "8 dvd n \<Longrightarrow> (256::nat) ^ (n div 8) = 2 ^ n"
proof -
  assume "8 dvd n"
  have "(256::nat) ^ (n div 8) = (2 ^ 8) ^ (n div 8)" by simp
  also have "\<dots> = 2 ^ (8 * (n div 8))" by (simp only: power_mult)
  finally show ?thesis using \<open>8 dvd n\<close> by simp
qed

lemma of_le_le_bytes:
  assumes "8 dvd LENGTH('a)"
  shows "of_le (le_bytes (w :: 'a::len word)) = w"
proof -
  have "unat w < 256 ^ (LENGTH('a) div 8)"
    using unsigned_less [of w] by (simp add: le_modulus assms)
  then show ?thesis by (simp add: of_le_def le_bytes_def le_dec_enc)
qed

lemma le_bytes_of_le:
  assumes "8 dvd LENGTH('a)" "length bs = LENGTH('a) div 8"
  shows "le_bytes (of_le bs :: 'a::len word) = bs"
proof -
  have "le_dec bs < 2 ^ LENGTH('a)"
    using le_dec_less [of bs] assms by (simp add: le_modulus)
  then have "unat (of_nat (le_dec bs) :: 'a word) = le_dec bs"
    by (simp add: unat_of_nat)
  then have "le_bytes (of_le bs :: 'a word) = le_enc (length bs) (le_dec bs)"
    by (simp only: le_bytes_def of_le_def assms(2))
  then show ?thesis by (simp only: le_enc_dec)
qed

subsection \<open>Writing into a buffer\<close>

text \<open>
  \<open>list_write xs i ys\<close> is the buffer \<open>xs\<close> after a copy of \<open>ys\<close> to offset \<open>i\<close>; every
  use proves that the copy stays inside the buffer.
\<close>

definition list_write :: "'a list \<Rightarrow> nat \<Rightarrow> 'a list \<Rightarrow> 'a list" where
  "list_write xs i ys = take i xs @ ys @ drop (i + length ys) xs"

lemma length_list_write [codec_simps]:
  "i + length ys \<le> length xs \<Longrightarrow> length (list_write xs i ys) = length xs"
  by (simp add: list_write_def)

lemma take_list_write_below [codec_simps]:
  "j \<le> i \<Longrightarrow> i \<le> length xs \<Longrightarrow> take j (list_write xs i ys) = take j xs"
  by (simp add: list_write_def min_def)

lemma take_list_write_end [codec_simps]:
  "i \<le> length xs \<Longrightarrow> take (i + length ys) (list_write xs i ys) = take i xs @ ys"
  by (simp add: list_write_def min_def)

lemma list_write_append:
  assumes "i + length ys + length zs \<le> length xs"
  shows "list_write (list_write xs i ys) (i + length ys) zs = list_write xs i (ys @ zs)"
proof -
  have "take (i + length ys) (list_write xs i ys) = take i xs @ ys"
    using assms by (simp add: take_list_write_end)
  moreover have "drop (i + length ys + length zs) (list_write xs i ys)
      = drop (i + length ys + length zs) xs"
    using assms by (simp add: list_write_def ac_simps)
  ultimately show ?thesis
    by (simp add: list_write_def [of _ "i + length ys"] list_write_def [of xs i "ys @ zs"] ac_simps)
qed

lemma list_write_Nil [simp]: "list_write xs i [] = xs"
  by (simp add: list_write_def)

subsection \<open>Byte-addressed memory\<close>

type_synonym memory = "addr \<Rightarrow> byte"

definition mem_bytes :: "memory \<Rightarrow> addr \<Rightarrow> nat \<Rightarrow> byte list" where
  "mem_bytes m a n = map (\<lambda>i. m (a + of_nat i)) [0..<n]"

definition mem_write :: "memory \<Rightarrow> addr \<Rightarrow> byte list \<Rightarrow> memory" where
  "mem_write m a bs =
     (\<lambda>x. if unat (x - a) < length bs then bs ! unat (x - a) else m x)"

lemma length_mem_bytes [simp]: "length (mem_bytes m a n) = n"
  by (simp add: mem_bytes_def)

lemma mem_bytes_0 [simp]: "mem_bytes m a 0 = []"
  by (simp add: mem_bytes_def)

lemma mem_bytes_Suc: "mem_bytes m a (Suc n) = m a # mem_bytes m (a + 1) n"
  by (rule nth_equalityI) (auto simp: mem_bytes_def nth_Cons add.assoc simp del: upt_Suc split: nat.split)

lemma nth_mem_bytes [simp]: "i < n \<Longrightarrow> mem_bytes m a n ! i = m (a + of_nat i)"
  by (simp add: mem_bytes_def)

lemma mem_write_Nil [simp]: "mem_write m a [] = m"
  by (simp add: mem_write_def)

lemma mem_bytes_mem_write:
  assumes "length bs \<le> 2 ^ 64"
  shows "mem_bytes (mem_write m a bs) a (length bs) = bs"
proof (rule nth_equalityI)
  fix i assume "i < length (mem_bytes (mem_write m a bs) a (length bs))"
  then have i: "i < length bs" by simp
  with assms have "unat (of_nat i :: addr) = i"
    by (simp add: unat_of_nat)
  with i show "mem_bytes (mem_write m a bs) a (length bs) ! i = bs ! i"
    by (simp add: mem_write_def)
qed simp

lemma mem_write_other: "length bs \<le> unat (x - a) \<Longrightarrow> mem_write m a bs x = m x"
  by (simp add: mem_write_def)

lemma mem_write_restore:
  "length bs = n \<Longrightarrow> mem_write (mem_write m a bs) a (mem_bytes m a n) = m"
  by (rule ext) (auto simp: mem_write_def)

end
