(* ===== verification/Trace_Protocol.thy ===== *)
theory Trace_Protocol
  imports Prelude
begin

section \<open>The trace event protocol\<close>

text \<open>
  \<open>src/include/trace_protocol.h\<close>: the packed event header, the 1024-byte event, the
  tag-length-value fields of its payload, and the representation relation
  \<open>ev_repr e m a fs\<close> (event \<open>e\<close> carries module \<open>m\<close>, export \<open>a\<close> and the fields \<open>fs\<close>)
  that the builder, the parser and the correlator are all proved against.
\<close>

subsection \<open>Constants\<close>

definition TRACE_EVENT_MAGIC :: u32 where
  "TRACE_EVENT_MAGIC = 0x53495041"

definition TRACE_EVENT_VERSION :: u16 where
  "TRACE_EVENT_VERSION = 6"

definition TRACE_MAX_EVENT_BYTES :: nat where
  [simp]: "TRACE_MAX_EVENT_BYTES = 1024"

definition TRACE_MAX_MODULE_NAME_BYTES :: nat where
  [simp]: "TRACE_MAX_MODULE_NAME_BYTES = 63"

definition TRACE_MAX_API_NAME_BYTES :: nat where
  [simp]: "TRACE_MAX_API_NAME_BYTES = 63"

definition TRACE_MAX_FIELD_NAME_BYTES :: nat where
  [simp]: "TRACE_MAX_FIELD_NAME_BYTES = 63"

definition TRACE_MAX_BUFFER_BYTES :: nat where
  [simp]: "TRACE_MAX_BUFFER_BYTES = 64"

definition TRACE_MAX_STRING_BYTES :: nat where
  [simp]: "TRACE_MAX_STRING_BYTES = 512"

definition TraceEventFlagTruncated :: u16 where
  "TraceEventFlagTruncated = 1"

definition TraceEventFlagFieldError :: u16 where
  "TraceEventFlagFieldError = 2"

datatype TraceFieldType =
    TraceFieldPointer
  | TraceFieldUInt32
  | TraceFieldUInt64
  | TraceFieldStatus
  | TraceFieldBytes
  | TraceFieldInt32
  | TraceFieldInt64
  | TraceFieldBoolean
  | TraceFieldWideString

fun tf_code :: "TraceFieldType \<Rightarrow> byte" where
  "tf_code TraceFieldPointer = 1"
| "tf_code TraceFieldUInt32 = 2"
| "tf_code TraceFieldUInt64 = 3"
| "tf_code TraceFieldStatus = 4"
| "tf_code TraceFieldBytes = 5"
| "tf_code TraceFieldInt32 = 6"
| "tf_code TraceFieldInt64 = 7"
| "tf_code TraceFieldBoolean = 8"
| "tf_code TraceFieldWideString = 9"

lemma tf_code_inj: "tf_code s = tf_code t \<longleftrightarrow> s = t"
  by (cases s; cases t) simp_all

subsection \<open>Headers\<close>

record event_header =
  h_magic :: u32
  h_version :: u16
  h_size :: u16
  h_flags :: u16
  h_fieldCount :: u16
  h_sequence :: u32
  h_timestamp100ns :: u64
  h_threadId :: u32
  h_moduleNameLength :: byte
  h_apiNameLength :: byte
  h_reserved :: u16

record trace_event =
  header :: event_header
  payload :: "byte list"

text \<open>The packed layout of the header; its length is the \<open>sizeof\<close> the code uses.\<close>

definition enc_header :: "event_header \<Rightarrow> byte list" where
  "enc_header h = le_bytes (h_magic h) @ le_bytes (h_version h) @ le_bytes (h_size h) @
     le_bytes (h_flags h) @ le_bytes (h_fieldCount h) @ le_bytes (h_sequence h) @
     le_bytes (h_timestamp100ns h) @ le_bytes (h_threadId h) @
     [h_moduleNameLength h, h_apiNameLength h] @ le_bytes (h_reserved h)"

definition SIZEOF_EVENT_HEADER :: nat where
  [simp]: "SIZEOF_EVENT_HEADER = 32"

lemma length_enc_header: "length (enc_header h) = SIZEOF_EVENT_HEADER"
  by (simp add: enc_header_def)

definition PAYLOAD_BYTES :: nat where
  [simp]: "PAYLOAD_BYTES = TRACE_MAX_EVENT_BYTES - SIZEOF_EVENT_HEADER"

record field_header =
  fh_type :: byte
  fh_nameLength :: byte
  fh_valueSize :: u16

definition enc_field_header :: "field_header \<Rightarrow> byte list" where
  "enc_field_header h = [fh_type h, fh_nameLength h] @ le_bytes (fh_valueSize h)"

definition SIZEOF_FIELD_HEADER :: nat where
  [simp]: "SIZEOF_FIELD_HEADER = 4"

lemma length_enc_field_header [codec_simps]: "length (enc_field_header h) = 4"
  by (simp add: enc_field_header_def)

text \<open>Reading a field header at a cursor: the header and the bytes after it.\<close>

fun read_field_header :: "byte list \<Rightarrow> (field_header \<times> byte list) option" where
  "read_field_header (t # n # lo # hi # rest) =
     Some (\<lparr>fh_type = t, fh_nameLength = n, fh_valueSize = of_le [lo, hi]\<rparr>, rest)"
| "read_field_header _ = None"

lemma read_enc_field_header [codec_simps]:
  "read_field_header (enc_field_header h @ rest) = Some (h, rest)"
proof -
  obtain lo hi where lh: "le_bytes (fh_valueSize h) = [lo, hi]"
    by (cases "le_bytes (fh_valueSize h)" rule: remdups_adj.cases)
       (use length_le_bytes [of "fh_valueSize h"] in \<open>auto simp: length_Suc_conv\<close>)
  moreover have "of_le (le_bytes (fh_valueSize h)) = fh_valueSize h"
    by (rule of_le_le_bytes) simp
  ultimately show ?thesis by (simp add: enc_field_header_def)
qed

lemma read_field_header_None: "read_field_header bs = None \<longleftrightarrow> length bs < 4"
  by (cases bs rule: read_field_header.cases) auto

lemma read_field_header_Some:
  assumes "read_field_header bs = Some (h, rest)"
  shows "bs = enc_field_header h @ rest"
proof -
  from assms obtain t n lo hi where bs: "bs = t # n # lo # hi # rest"
    and h: "h = \<lparr>fh_type = t, fh_nameLength = n, fh_valueSize = of_le [lo, hi]\<rparr>"
    by (cases bs rule: read_field_header.cases) auto
  have "le_bytes (of_le [lo, hi] :: u16) = [lo, hi]"
    by (rule le_bytes_of_le) simp_all
  then show ?thesis by (simp add: bs h enc_field_header_def)
qed

subsection \<open>Byte previews\<close>

record bytes_header =
  bh_requested :: u32
  bh_captured :: u32
  bh_captureStatus :: u32

definition enc_bytes_header :: "bytes_header \<Rightarrow> byte list" where
  "enc_bytes_header h =
     le_bytes (bh_requested h) @ le_bytes (bh_captured h) @ le_bytes (bh_captureStatus h)"

definition SIZEOF_BYTES_HEADER :: nat where
  [simp]: "SIZEOF_BYTES_HEADER = 12"

lemma length_enc_bytes_header [codec_simps]: "length (enc_bytes_header h) = 12"
  by (simp add: enc_bytes_header_def)

definition read_bytes_header :: "byte list \<Rightarrow> bytes_header" where
  "read_bytes_header bs =
     \<lparr>bh_requested = of_le (take 4 bs), bh_captured = of_le (take 4 (drop 4 bs)),
      bh_captureStatus = of_le (take 4 (drop 8 bs))\<rparr>"

lemma read_enc_bytes_header [codec_simps]:
  "read_bytes_header (enc_bytes_header h @ rest) = h"
  by (simp add: read_bytes_header_def enc_bytes_header_def of_le_le_bytes)

record bytes_value =
  bv_header :: bytes_header
  bv_bytes :: "byte list"

subsection \<open>Status codes\<close>

definition NT_SUCCESS :: "u32 \<Rightarrow> bool" where
  "NT_SUCCESS s \<longleftrightarrow> 0 \<le> sint s"

subsection \<open>Names\<close>

definition is_lower :: "char \<Rightarrow> bool" where
  "is_lower c \<longleftrightarrow> CHR ''a'' \<le> c \<and> c \<le> CHR ''z''"

definition is_upper :: "char \<Rightarrow> bool" where
  "is_upper c \<longleftrightarrow> CHR ''A'' \<le> c \<and> c \<le> CHR ''Z''"

definition is_digit :: "char \<Rightarrow> bool" where
  "is_digit c \<longleftrightarrow> CHR ''0'' \<le> c \<and> c \<le> CHR ''9''"

definition field_char :: "char \<Rightarrow> bool" where
  "field_char c \<longleftrightarrow> is_lower c \<or> is_digit c \<or> c = CHR ''_''"

definition ident_char :: "bool \<Rightarrow> char \<Rightarrow> bool" where
  "ident_char moduleName c \<longleftrightarrow> is_lower c \<or> is_upper c \<or> is_digit c \<or> c = CHR ''_'' \<or>
     (moduleName \<and> (c = CHR ''.'' \<or> c = CHR ''-''))"

text \<open>What both the builder and the parser accept, as predicates on the name's characters.\<close>

definition field_name_ok :: "string \<Rightarrow> bool" where
  "field_name_ok s \<longleftrightarrow> s \<noteq> [] \<and> length s \<le> TRACE_MAX_FIELD_NAME_BYTES \<and>
     is_lower (hd s) \<and> list_all field_char (tl s)"

definition ident_ok :: "bool \<Rightarrow> string \<Rightarrow> bool" where
  "ident_ok moduleName s \<longleftrightarrow> s \<noteq> [] \<and> length s \<le> 63 \<and> list_all (ident_char moduleName) s"

lemma nul_not_char [simp]:
  "\<not> is_lower (CHR 0x00)" "\<not> field_char (CHR 0x00)" "\<not> ident_char b (CHR 0x00)"
  by (simp_all add: is_lower_def is_upper_def is_digit_def field_char_def ident_char_def)

lemma field_name_ok_no_nul: "field_name_ok s \<Longrightarrow> CHR 0x00 \<notin> set s"
  by (cases s) (auto simp: field_name_ok_def list_all_iff)

lemma ident_ok_no_nul: "ident_ok b s \<Longrightarrow> CHR 0x00 \<notin> set s"
  by (auto simp: ident_ok_def list_all_iff)

subsection \<open>Values\<close>

text \<open>The sizes and contents a value of a known type may have; unknown types are opaque.\<close>

definition bytes_value_ok :: "byte list \<Rightarrow> bool" where
  "bytes_value_ok v \<longleftrightarrow> SIZEOF_BYTES_HEADER \<le> length v \<and>
     unat (bh_captured (read_bytes_header v)) \<le> TRACE_MAX_BUFFER_BYTES \<and>
     bh_captured (read_bytes_header v) \<le> bh_requested (read_bytes_header v) \<and>
     length v = SIZEOF_BYTES_HEADER + unat (bh_captured (read_bytes_header v))"

definition value_ok :: "byte \<Rightarrow> byte list \<Rightarrow> bool" where
  "value_ok t v \<longleftrightarrow>
     (t \<in> {1, 3, 7} \<longrightarrow> length v = 8) \<and>
     (t \<in> {2, 4, 6} \<longrightarrow> length v = 4) \<and>
     (t = 8 \<longrightarrow> v = [0] \<or> v = [1]) \<and>
     (t = 5 \<longrightarrow> bytes_value_ok v) \<and>
     (t = 9 \<longrightarrow> even (length v) \<and> length v \<le> TRACE_MAX_STRING_BYTES)"

subsection \<open>Fields and the represented event\<close>

datatype tlv = Tlv (tlv_type: byte) (tlv_name: "byte list") (tlv_value: "byte list")

definition tlv_header :: "tlv \<Rightarrow> field_header" where
  "tlv_header f = \<lparr>fh_type = tlv_type f, fh_nameLength = of_nat (length (tlv_name f)),
     fh_valueSize = of_nat (length (tlv_value f))\<rparr>"

definition enc_field :: "tlv \<Rightarrow> byte list" where
  "enc_field f = enc_field_header (tlv_header f) @ tlv_name f @ tlv_value f"

abbreviation enc_fields :: "tlv list \<Rightarrow> byte list" where
  "enc_fields fs \<equiv> concat (map enc_field fs)"

definition tlv_wf :: "tlv \<Rightarrow> bool" where
  "tlv_wf f \<longleftrightarrow> length (tlv_name f) < 256 \<and> length (tlv_value f) < 65536"

lemma length_enc_field [codec_simps]:
  "length (enc_field f) = 4 + length (tlv_name f) + length (tlv_value f)"
  by (simp add: enc_field_def codec_simps)

lemma tlv_header_lengths [codec_simps]:
  assumes "tlv_wf f"
  shows "unat (fh_nameLength (tlv_header f)) = length (tlv_name f)"
    and "unat (fh_valueSize (tlv_header f)) = length (tlv_value f)"
    and "fh_type (tlv_header f) = tlv_type f"
  using assms by (simp_all add: tlv_header_def tlv_wf_def unat_of_nat)

lemma read_enc_field [codec_simps]:
  "read_field_header (enc_field f @ rest) = Some (tlv_header f, tlv_name f @ tlv_value f @ rest)"
  by (simp add: enc_field_def codec_simps)

definition ev_size :: "byte list \<Rightarrow> byte list \<Rightarrow> tlv list \<Rightarrow> nat" where
  "ev_size m a fs = SIZEOF_EVENT_HEADER + length m + length a + length (enc_fields fs)"

definition ev_repr :: "trace_event \<Rightarrow> byte list \<Rightarrow> byte list \<Rightarrow> tlv list \<Rightarrow> bool" where
  "ev_repr e m a fs \<longleftrightarrow>
     length (payload e) = PAYLOAD_BYTES \<and>
     h_magic (header e) = TRACE_EVENT_MAGIC \<and>
     h_version (header e) = TRACE_EVENT_VERSION \<and>
     unat (h_moduleNameLength (header e)) = length m \<and>
     unat (h_apiNameLength (header e)) = length a \<and>
     unat (h_fieldCount (header e)) = length fs \<and>
     unat (h_size (header e)) = ev_size m a fs \<and>
     ev_size m a fs \<le> TRACE_MAX_EVENT_BYTES \<and>
     (\<forall>f \<in> set fs. tlv_wf f) \<and>
     (\<exists>junk. payload e = m @ a @ enc_fields fs @ junk)"

lemma ev_repr_payload:
  assumes "ev_repr e m a fs"
  obtains junk where "payload e = m @ a @ enc_fields fs @ junk"
    and "ev_size m a fs + length junk = TRACE_MAX_EVENT_BYTES"
  using assms by (auto simp: ev_repr_def ev_size_def)

lemma length_enc_fields_ge: "4 * length fs \<le> length (enc_fields fs)"
  by (induction fs) (auto simp: codec_simps)

text \<open>
  Decoding is deterministic: an event represents at most one module, export and field list.
\<close>

lemma enc_fields_inj:
  assumes "length fs = length gs" "\<forall>f \<in> set fs. tlv_wf f" "\<forall>f \<in> set gs. tlv_wf f"
    and "enc_fields fs @ r = enc_fields gs @ s"
  shows "fs = gs"
  using assms
proof (induction fs gs rule: list_induct2)
  case (Cons f fs g gs)
  from Cons.prems(3) have eq: "enc_field f @ enc_fields fs @ r = enc_field g @ enc_fields gs @ s"
    by simp
  then have "Some (tlv_header f, tlv_name f @ tlv_value f @ enc_fields fs @ r)
      = Some (tlv_header g, tlv_name g @ tlv_value g @ enc_fields gs @ s)"
    by (metis read_enc_field)
  then have hd: "tlv_header f = tlv_header g"
    and tl: "tlv_name f @ tlv_value f @ enc_fields fs @ r
       = tlv_name g @ tlv_value g @ enc_fields gs @ s"
    by simp_all
  have "length (tlv_name f) = length (tlv_name g)" "length (tlv_value f) = length (tlv_value g)"
    "tlv_type f = tlv_type g"
    using hd Cons.prems(1,2) tlv_header_lengths by (metis list.set_intros(1))+
  with tl Cons show ?case by (auto simp: tlv.expand)
qed simp

lemma ev_repr_unique:
  assumes "ev_repr e m a fs" "ev_repr e m' a' fs'"
  shows "m = m' \<and> a = a' \<and> fs = fs'"
proof -
  from assms(1) obtain j where "payload e = m @ a @ enc_fields fs @ j"
    by (rule ev_repr_payload)
  moreover from assms(2) obtain j' where "payload e = m' @ a' @ enc_fields fs' @ j'"
    by (rule ev_repr_payload)
  moreover have "length m = length m'" "length a = length a'" "length fs = length fs'"
    using assms by (auto simp: ev_repr_def)
  ultimately have "m = m'" "a = a'" and eq: "enc_fields fs @ j = enc_fields fs' @ j'" by simp_all
  moreover have "fs = fs'"
    using \<open>length fs = length fs'\<close> assms eq enc_fields_inj unfolding ev_repr_def by blast
  ultimately show ?thesis by simp
qed

end
