(* ===== verification/Memory_Utils.thy ===== *)
theory Memory_Utils
  imports Prelude
begin

section \<open>The import-free memory helpers\<close>

text \<open>
  \<open>src/apiscope/memory_utils.cpp\<close>: the byte loops the hook DLL uses in place of the C
  runtime. Memory is a map from 64-bit addresses to bytes; address arithmetic wraps. The
  string comparison has no bound of its own, so it returns an option: \<open>None\<close> is a loop
  that never meets a difference or a terminator.
\<close>

subsection \<open>Copy and fill\<close>

fun memcpy_loop :: "memory \<Rightarrow> addr \<Rightarrow> addr \<Rightarrow> nat \<Rightarrow> memory" where
  "memcpy_loop m d s 0 = m"
| "memcpy_loop m d s (Suc count) = memcpy_loop (m(d := m s)) (d + 1) (s + 1) count"

definition CustomMemCpy :: "memory \<Rightarrow> addr \<Rightarrow> addr \<Rightarrow> nat \<Rightarrow> memory \<times> addr" where
  "CustomMemCpy m dest src count = (memcpy_loop m dest src count, dest)"

fun memset_loop :: "memory \<Rightarrow> addr \<Rightarrow> byte \<Rightarrow> nat \<Rightarrow> memory" where
  "memset_loop m d v 0 = m"
| "memset_loop m d v (Suc count) = memset_loop (m(d := v)) (d + 1) v count"

definition CustomMemSet :: "memory \<Rightarrow> addr \<Rightarrow> int \<Rightarrow> nat \<Rightarrow> memory \<times> addr" where
  "CustomMemSet m dest value count = (memset_loop m dest (of_int value) count, dest)"

lemma addr_offset_cases:
  fixes x a :: addr
  assumes "unat (x - a) \<noteq> 0"
  shows "unat (x - (a + 1)) = unat (x - a) - 1"
proof -
  have "x - (a + 1) = (x - a) - (1 :: addr)" by simp
  moreover have "x - a \<noteq> 0" using assms by (simp add: unat_eq_zero)
  ultimately show ?thesis by (metis unat_minus_one)
qed

lemma addr_offset_zero: "unat (x - a) = 0 \<longleftrightarrow> x = (a :: addr)"
  by (simp add: unat_eq_zero)

lemma mem_write_Cons:
  assumes "Suc (length bs) \<le> 2 ^ 64"
  shows "mem_write (m(a := b)) (a + 1) bs = mem_write m a (b # bs)"
proof
  fix x :: addr
  show "mem_write (m(a := b)) (a + 1) bs x = mem_write m a (b # bs) x"
  proof (cases "x = a")
    case True
    have "a - (a + 1) = - (1 :: addr)" by simp
    then have "unat (a - (a + 1)) = 2 ^ 64 - 1" 
      by (simp add: unsigned_minus_1_eq_mask mask_eq_exp_minus_1)
    with True assms show ?thesis by (simp add: mem_write_def)
  next
    case False
    then have "unat (x - a) \<noteq> 0" by (simp add: addr_offset_zero)
    then obtain k where k: "unat (x - a) = Suc k" by (cases "unat (x - a)") auto
    then have "unat (x - (a + 1)) = k" by (simp add: addr_offset_cases)
    with False k show ?thesis by (simp add: mem_write_def)
  qed
qed

lemma memset_loop_eq: "n \<le> 2 ^ 64 \<Longrightarrow> memset_loop m d v n = mem_write m d (replicate n v)"
proof (induction n arbitrary: m d)
  case 0
  then show ?case by simp
next
  case (Suc n)
  then show ?case by (simp add: mem_write_Cons)
qed

text \<open>
  A forward copy is faithful when the destination does not start inside the source range:
  either the two are the same address or the distance, read modulo the address space, is at
  least the count. A destination below an overlapping source qualifies.
\<close>

definition forward_safe :: "addr \<Rightarrow> addr \<Rightarrow> nat \<Rightarrow> bool" where
  "forward_safe d s n \<longleftrightarrow> d = s \<or> n \<le> unat (d - s)"

lemma mem_bytes_update_other:
  assumes "\<And>i. i < n \<Longrightarrow> s + of_nat i \<noteq> d"
  shows "mem_bytes (m(d := v)) s n = mem_bytes m s n"
  using assms by (simp add: mem_bytes_def)

lemma forward_safe_step:
  assumes "forward_safe d s (Suc n)" "Suc n \<le> 2 ^ 64"
  shows "mem_bytes (m(d := m s)) (s + 1) n = mem_bytes m (s + 1) n"
    and "forward_safe (d + 1) (s + 1) n"
proof -
  show "forward_safe (d + 1) (s + 1) n"
    using assms(1) by (auto simp: forward_safe_def)
  show "mem_bytes (m(d := m s)) (s + 1) n = mem_bytes m (s + 1) n"
  proof (cases "d = s")
    case True
    then show ?thesis by simp
  next
    case False
    then have far: "Suc n \<le> unat (d - s)" using assms(1) by (simp add: forward_safe_def)
    show ?thesis
    proof (rule mem_bytes_update_other)
      fix i assume "i < n"
      then have "unat (of_nat (Suc i) :: addr) = Suc i"
        using assms(2) by (simp only: unat_of_nat) simp
      moreover have "s + 1 + of_nat i = d \<Longrightarrow> d - s = of_nat (Suc i)" by (auto simp: algebra_simps)
      ultimately show "s + 1 + of_nat i \<noteq> d" using far \<open>i < n\<close> by auto
    qed
  qed
qed

lemma memcpy_loop_eq:
  "n \<le> 2 ^ 64 \<Longrightarrow> forward_safe d s n \<Longrightarrow>
   memcpy_loop m d s n = mem_write m d (mem_bytes m s n)"
proof (induction n arbitrary: m d s)
  case 0
  then show ?case by simp
next
  case (Suc n)
  note safe = forward_safe_step [OF Suc.prems(2,1)]
  have "memcpy_loop (m(d := m s)) (d + 1) (s + 1) n
      = mem_write (m(d := m s)) (d + 1) (mem_bytes m (s + 1) n)"
    using Suc.IH [of "d + 1" "s + 1" "m(d := m s)"] Suc.prems(1) safe by (simp del: fun_upd_apply)
  then show ?case
    using Suc.prems(1) by (simp add: mem_write_Cons mem_bytes_Suc)
qed

subsection \<open>Comparison\<close>

fun CustomMemCmp :: "memory \<Rightarrow> addr \<Rightarrow> addr \<Rightarrow> nat \<Rightarrow> int" where
  "CustomMemCmp m left right 0 = 0"
| "CustomMemCmp m left right (Suc count) =
     (if m left \<noteq> m right then int (unat (m left)) - int (unat (m right))
      else CustomMemCmp m (left + 1) (right + 1) count)"

text \<open>The same comparison on the two ranges as lists, the form the event code uses.\<close>

fun memcmp_bytes :: "byte list \<Rightarrow> byte list \<Rightarrow> int" where
  "memcmp_bytes (a # as) (b # bs) =
     (if a \<noteq> b then int (unat a) - int (unat b) else memcmp_bytes as bs)"
| "memcmp_bytes _ _ = 0"

lemma CustomMemCmp_bytes:
  "CustomMemCmp m p q n = memcmp_bytes (mem_bytes m p n) (mem_bytes m q n)"
  by (induction n arbitrary: p q) (simp_all add: mem_bytes_Suc)

lemma memcmp_bytes_eq_0_iff:
  "length as = length bs \<Longrightarrow> memcmp_bytes as bs = 0 \<longleftrightarrow> as = bs"
  by (induction as bs rule: list_induct2) auto

lemma memcmp_bytes_neg_iff:
  "length as = length bs \<Longrightarrow> memcmp_bytes as bs < 0 \<longleftrightarrow> ord_class.lexordp as bs"
  by (induction as bs rule: list_induct2) auto

partial_function (option) CustomStrCmp :: "memory \<Rightarrow> addr \<Rightarrow> addr \<Rightarrow> int option" where
  "CustomStrCmp m left right =
     (if m left \<noteq> 0 \<and> m left = m right then CustomStrCmp m (left + 1) (right + 1)
      else Some (int (unat (m left)) - int (unat (m right))))"

text \<open>A terminated C string at an address.\<close>

definition cstr_at :: "memory \<Rightarrow> addr \<Rightarrow> byte list \<Rightarrow> bool" where
  "cstr_at m a s \<longleftrightarrow> mem_bytes m a (Suc (length s)) = s @ [0] \<and> 0 \<notin> set s"

lemma cstr_at_Nil: "cstr_at m a [] \<longleftrightarrow> m a = 0"
  by (simp add: cstr_at_def mem_bytes_Suc)

lemma cstr_at_Cons: "cstr_at m a (c # s) \<longleftrightarrow> m a = c \<and> c \<noteq> 0 \<and> cstr_at m (a + 1) s"
  by (auto simp: cstr_at_def mem_bytes_Suc)

lemma CustomStrCmp_correct:
  "cstr_at m l s \<Longrightarrow> cstr_at m r t \<Longrightarrow>
   \<exists>d. CustomStrCmp m l r = Some d \<and> (d = 0 \<longleftrightarrow> s = t) \<and> (d < 0 \<longleftrightarrow> ord_class.lexordp s t)"
proof (induction s arbitrary: l r t)
  case Nil
  then show ?case
    by (cases t) (auto simp: cstr_at_Nil cstr_at_Cons CustomStrCmp.simps [of m l r] uint_0_iff word_neq_0_conv word_less_def)
next
  case (Cons c s)
  show ?case
  proof (cases t)
    case Nil
    with Cons.prems show ?thesis
      by (auto simp: cstr_at_Nil cstr_at_Cons CustomStrCmp.simps [of m l r] uint_0_iff)
  next
    case (Cons c' t')
    with Cons.prems Cons.IH [of "l + 1" "r + 1" t'] show ?thesis
      by (auto simp: cstr_at_Cons CustomStrCmp.simps [of m l r])
  qed
qed

subsection \<open>Properties\<close>

text \<open>The import-free copy is a copy. For a count up to the address space and a destination
  that does not start inside the source range (or is the source itself), \<open>CustomMemCpy\<close> returns
  the destination, leaves there the bytes the source held before the call, and changes no byte
  outside the destination range.\<close>

theorem CustomMemCpy_copies:
  assumes "n \<le> 2 ^ 64" "forward_safe d s n"
  shows "snd (CustomMemCpy m d s n) = d
     \<and> mem_bytes (fst (CustomMemCpy m d s n)) d n = mem_bytes m s n
     \<and> (\<forall>x. n \<le> unat (x - d) \<longrightarrow> fst (CustomMemCpy m d s n) x = m x)"
  using mem_bytes_mem_write [of "mem_bytes m s n" m d] assms
  by (simp add: CustomMemCpy_def memcpy_loop_eq mem_write_other)

lemma CustomMemCpy_copies_witness:
  "mem_bytes (fst (CustomMemCpy (\<lambda>a. ucast a) 16 32 8)) 16 8 = mem_bytes (\<lambda>a. ucast a) 32 8"
  using CustomMemCpy_copies [of 8 16 32 "\<lambda>a. ucast a"] by (simp add: forward_safe_def)

text \<open>The import-free string comparison is total and right on C strings: for two terminated
  strings it returns, its result is zero exactly when the strings are equal and negative
  exactly when the left one is lexicographically smaller as unsigned bytes.\<close>

theorem CustomStrCmp_compares:
  assumes "cstr_at m l s" "cstr_at m r t"
  shows "\<exists>d. CustomStrCmp m l r = Some d \<and> (d = 0 \<longleftrightarrow> s = t) \<and> (d < 0 \<longleftrightarrow> ord_class.lexordp s t)"
  using assms by (rule CustomStrCmp_correct)

lemma CustomStrCmp_compares_witness:
  "\<exists>d. CustomStrCmp (\<lambda>a. if a = 10 then 65 else 0) 10 20 = Some d \<and> d \<noteq> 0"
  using CustomStrCmp_compares [of "\<lambda>a. if a = 10 then 65 else 0" 10 "[65]" 20 "[]"]
  by (auto simp: cstr_at_Cons cstr_at_Nil)

end
