(* ===== verification/Trace_Transport.thy ===== *)
theory Trace_Transport
  imports Trace_Protocol Memory_Utils "HOL-Library.Monad_Syntax"
begin

section \<open>Building events in the target process\<close>

text \<open>
  \<open>src/apiscope-hooks/trace_transport.cpp\<close> up to \<open>AddTraceObjectPath\<close>. An event pointer is
  an optional event (\<open>None\<close> is the null pointer), a C string an optional list of characters
  that ends at its first NUL. An operation returns its boolean and the event; the outer
  option is \<open>None\<close> where the code would read outside the event or the value.
\<close>

subsection \<open>Names\<close>

definition c_at :: "string \<Rightarrow> nat \<Rightarrow> char" where
  "c_at s i = (if i < length s then s ! i else CHR 0x00)"

function bounded_length_loop :: "string \<Rightarrow> nat \<Rightarrow> nat \<Rightarrow> nat" where
  "bounded_length_loop value maximum index =
     (if index \<le> maximum \<and> c_at value index \<noteq> CHR 0x00
      then bounded_length_loop value maximum (Suc index) else index)"
  by pat_completeness auto
termination
  by (relation "measure (\<lambda>(v, m, i). Suc m - i)") auto

declare bounded_length_loop.simps [simp del]

definition GetBoundedStringLength :: "string option \<Rightarrow> nat \<Rightarrow> byte option" where
  "GetBoundedStringLength value maximum =
     (case value of None \<Rightarrow> None
      | Some v \<Rightarrow>
          let index = bounded_length_loop v maximum 0
          in if index = 0 \<or> index > maximum then None else Some (of_nat index))"

definition IsValidFieldName :: "string option \<Rightarrow> byte option" where
  "IsValidFieldName name =
     (case GetBoundedStringLength name TRACE_MAX_FIELD_NAME_BYTES of None \<Rightarrow> None
      | Some len \<Rightarrow>
          if \<not> is_lower (c_at (the name) 0) then None
          else if list_all (\<lambda>index. field_char (c_at (the name) index)) [1..<unat len]
          then Some len else None)"

definition IsValidIdentifier :: "string option \<Rightarrow> nat \<Rightarrow> bool \<Rightarrow> byte option" where
  "IsValidIdentifier name maximum moduleName =
     (case GetBoundedStringLength name maximum of None \<Rightarrow> None
      | Some len \<Rightarrow>
          if list_all (\<lambda>index. ident_char moduleName (c_at (the name) index)) [0..<unat len]
          then Some len else None)"

text \<open>The characters of a C string: everything before its first NUL.\<close>

definition c_str :: "string \<Rightarrow> string" where
  "c_str s = takeWhile (\<lambda>c. c \<noteq> CHR 0x00) s"

lemma c_str_no_nul: "CHR 0x00 \<notin> set (c_str s)"
  by (auto simp: c_str_def dest: set_takeWhileD)

lemma c_at_c_str: "i \<le> length (c_str s) \<Longrightarrow>
  c_at s i = (if i < length (c_str s) then c_str s ! i else CHR 0x00)"
proof (cases "i < length (c_str s)")
  case True
  then show ?thesis
    using length_takeWhile_le [of "\<lambda>c. c \<noteq> CHR 0x00" s]
    by (simp add: c_at_def c_str_def takeWhile_nth)
next
  case False
  moreover assume "i \<le> length (c_str s)"
  ultimately have i: "i = length (c_str s)" by simp
  then show ?thesis
    using nth_length_takeWhile [of "\<lambda>c. c \<noteq> CHR 0x00" s] by (auto simp: c_at_def c_str_def)
qed

lemma bounded_length_loop_eq:
  "i \<le> length (c_str v) \<Longrightarrow> i \<le> Suc m \<Longrightarrow>
   bounded_length_loop v m i = min (length (c_str v)) (Suc m)"
proof (induction v m i rule: bounded_length_loop.induct)
  case (1 v m i)
  have "c_at v i \<noteq> CHR 0x00 \<longleftrightarrow> i < length (c_str v)"
    using "1.prems"(1) c_str_no_nul [of v] nth_mem [of i "c_str v"]
    by (metis c_at_c_str le_neq_implies_less)
  then show ?case
    using "1.IH" "1.prems" by (subst bounded_length_loop.simps) auto
qed

lemma GetBoundedStringLength_eq:
  "m < 256 \<Longrightarrow> GetBoundedStringLength (Some v) m =
     (if c_str v \<noteq> [] \<and> length (c_str v) \<le> m then Some (of_nat (length (c_str v))) else None)"
  by (auto simp: GetBoundedStringLength_def bounded_length_loop_eq Let_def)

lemma list_all_c_at:
  "n \<le> length (c_str s) \<Longrightarrow>
   list_all (\<lambda>i. P (c_at s i)) [k..<n] \<longleftrightarrow> list_all P (drop k (take n (c_str s)))"
proof -
  assume n: "n \<le> length (c_str s)"
  have "map (c_at s) [k..<n] = drop k (take n (c_str s))"
    using n by (intro nth_equalityI) (auto simp: c_at_c_str)
  then have "list_all P (map (c_at s) [k..<n]) = list_all P (drop k (take n (c_str s)))" by simp
  then show ?thesis by (simp add: list.pred_map comp_def)
qed

lemma IsValidFieldName_eq:
  "IsValidFieldName (Some s) =
     (if field_name_ok (c_str s) then Some (of_nat (length (c_str s))) else None)"
proof (cases "c_str s \<noteq> [] \<and> length (c_str s) \<le> 63")
  case True
  then have "unat (of_nat (length (c_str s)) :: byte) = length (c_str s)"
    by (simp add: unat_of_nat)
  moreover have "c_at s 0 = hd (c_str s)"
    using True by (simp add: c_at_c_str hd_conv_nth)
  moreover have "list_all (\<lambda>i. field_char (c_at s i)) [1..<length (c_str s)]
      = list_all field_char (tl (c_str s))"
    by (simp add: list_all_c_at drop_Suc)
  ultimately show ?thesis
    using True by (simp add: IsValidFieldName_def GetBoundedStringLength_eq field_name_ok_def)
next
  case False
  then show ?thesis
    by (auto simp: IsValidFieldName_def GetBoundedStringLength_eq field_name_ok_def)
qed

lemma IsValidIdentifier_eq:
  "IsValidIdentifier (Some s) 63 b =
     (if ident_ok b (c_str s) then Some (of_nat (length (c_str s))) else None)"
proof (cases "c_str s \<noteq> [] \<and> length (c_str s) \<le> 63")
  case True
  then have "unat (of_nat (length (c_str s)) :: byte) = length (c_str s)"
    by (simp add: unat_of_nat)
  moreover have "list_all (\<lambda>i. ident_char b (c_at s i)) [0..<length (c_str s)]
      = list_all (ident_char b) (c_str s)"
    by (simp add: list_all_c_at)
  ultimately show ?thesis
    using True by (simp add: IsValidIdentifier_def GetBoundedStringLength_eq ident_ok_def)
next
  case False
  then show ?thesis
    by (auto simp: IsValidIdentifier_def GetBoundedStringLength_eq ident_ok_def)
qed

lemma c_str_id: "CHR 0x00 \<notin> set s \<Longrightarrow> c_str s = s"
  by (auto simp: c_str_def takeWhile_eq_all_conv)

subsection \<open>Appending a field\<close>

definition TraceNameBytes :: "trace_event \<Rightarrow> nat" where
  "TraceNameBytes e = unat (h_moduleNameLength (header e)) + unat (h_apiNameLength (header e))"

definition or_flag :: "u16 \<Rightarrow> trace_event \<Rightarrow> trace_event" where
  "or_flag f e = e\<lparr>header := (header e)\<lparr>h_flags := or (h_flags (header e)) f\<rparr>\<rparr>"

text \<open>
  The scan has no end pointer: a field header or a name that runs past the payload is a read
  outside the event, the value \<open>None\<close>.
\<close>

fun HasTraceField_loop :: "nat \<Rightarrow> byte list \<Rightarrow> byte list \<Rightarrow> byte \<Rightarrow> bool option" where
  "HasTraceField_loop 0 cursor name nameLength = Some False"
| "HasTraceField_loop (Suc remaining) cursor name nameLength =
     (case read_field_header cursor of None \<Rightarrow> None
      | Some (field, cursor) \<Rightarrow>
          if fh_nameLength field = nameLength \<and> length cursor < unat nameLength then None
          else if fh_nameLength field = nameLength \<and>
             memcmp_bytes (take (unat nameLength) cursor) name = 0 then Some True
          else HasTraceField_loop remaining
             (drop (unat (fh_nameLength field) + unat (fh_valueSize field)) cursor)
             name nameLength)"

definition HasTraceField :: "trace_event \<Rightarrow> byte list \<Rightarrow> byte \<Rightarrow> bool option" where
  "HasTraceField e name nameLength =
     HasTraceField_loop (unat (h_fieldCount (header e)))
       (drop (TraceNameBytes e) (payload e)) name nameLength"

definition AppendTraceField ::
  "trace_event option \<Rightarrow> TraceFieldType \<Rightarrow> string option \<Rightarrow> byte list option \<Rightarrow> u16 \<Rightarrow>
   (bool \<times> trace_event option) option" where
  "AppendTraceField event ty name value valueSize =
     (case event of None \<Rightarrow> Some (False, None)
      | Some e \<Rightarrow>
     (case value of None \<Rightarrow> Some (False, Some (or_flag TraceEventFlagFieldError e))
      | Some v \<Rightarrow>
        if h_magic (header e) \<noteq> TRACE_EVENT_MAGIC \<or>
           h_version (header e) \<noteq> TRACE_EVENT_VERSION \<or>
           unat (h_size (header e)) < SIZEOF_EVENT_HEADER + TraceNameBytes e \<or>
           unat (h_size (header e)) > TRACE_MAX_EVENT_BYTES
        then Some (False, Some (or_flag TraceEventFlagFieldError e))
        else case IsValidFieldName name of
          None \<Rightarrow> Some (False, Some (or_flag TraceEventFlagFieldError e))
        | Some nameLength \<Rightarrow>
        (let nm = bytes_of (take (unat nameLength) (the name)) in
         case HasTraceField e nm nameLength of
          None \<Rightarrow> None
        | Some True \<Rightarrow> Some (False, Some (or_flag TraceEventFlagFieldError e))
        | Some False \<Rightarrow>
          (let required = SIZEOF_FIELD_HEADER + unat nameLength + unat valueSize in
           if unat (h_size (header e)) + required > TRACE_MAX_EVENT_BYTES
           then Some (False, Some (or_flag TraceEventFlagTruncated e))
           else if length v < unat valueSize then None
           else
            (let field = \<lparr>fh_type = tf_code ty, fh_nameLength = nameLength, fh_valueSize = valueSize\<rparr>;
                 cursor = unat (h_size (header e)) - SIZEOF_EVENT_HEADER;
                 p = list_write (payload e) cursor (enc_field_header field);
                 cursor = cursor + SIZEOF_FIELD_HEADER;
                 p = list_write p cursor nm;
                 cursor = cursor + unat nameLength;
                 p = list_write p cursor (take (unat valueSize) v)
             in Some (True, Some (e\<lparr>payload := p,
                  header := (header e)\<lparr>h_size := of_nat (unat (h_size (header e)) + required),
                    h_fieldCount := h_fieldCount (header e) + 1\<rparr>\<rparr>)))))))"

subsection \<open>The builder against the represented event\<close>

lemma HasTraceField_loop_eq:
  assumes "\<forall>f \<in> set fs. tlv_wf f" "length nm < 256"
  shows "HasTraceField_loop (length fs) (enc_fields fs @ rest) nm (of_nat (length nm))
       = Some (nm \<in> tlv_name ` set fs)"
  using assms(1)
proof (induction fs)
  case (Cons f fs)
  have len: "unat (of_nat (length nm) :: byte) = length nm"
    using assms(2) by (simp add: unat_of_nat)
  have wf: "tlv_wf f" and IH: "HasTraceField_loop (length fs) (enc_fields fs @ rest) nm
      (of_nat (length nm)) = Some (nm \<in> tlv_name ` set fs)"
    using Cons by simp_all
  have same: "fh_nameLength (tlv_header f) = of_nat (length nm) \<longleftrightarrow>
      length (tlv_name f) = length nm"
    using tlv_header_lengths(1) [OF wf] len by (metis unsigned_word_eqI)
  have "memcmp_bytes (tlv_name f) nm = 0 \<longleftrightarrow> tlv_name f = nm" if "length (tlv_name f) = length nm"
    using that by (rule memcmp_bytes_eq_0_iff)
  then show ?case
    using IH len same by (auto simp: codec_simps tlv_header_lengths [OF wf])
qed simp

lemma ev_repr_names:
  assumes "ev_repr e m a fs"
  shows "TraceNameBytes e = length m + length a"
    and "\<exists>junk. drop (TraceNameBytes e) (payload e) = enc_fields fs @ junk"
  using assms by (auto simp: ev_repr_def TraceNameBytes_def)

lemma HasTraceField_eq:
  assumes "ev_repr e m a fs" "length nm < 256"
  shows "HasTraceField e nm (of_nat (length nm)) = Some (nm \<in> tlv_name ` set fs)"
proof -
  obtain junk where "drop (TraceNameBytes e) (payload e) = enc_fields fs @ junk"
    using ev_repr_names [OF assms(1)] by blast
  moreover have "unat (h_fieldCount (header e)) = length fs" "\<forall>f \<in> set fs. tlv_wf f"
    using assms(1) by (simp_all add: ev_repr_def)
  ultimately show ?thesis
    using assms(2) by (simp add: HasTraceField_def HasTraceField_loop_eq)
qed

lemma ev_repr_or_flag [simp]: "ev_repr (or_flag x e) m a fs \<longleftrightarrow> ev_repr e m a fs"
  by (simp add: ev_repr_def or_flag_def)

lemma or_flag_flags [simp]: "h_flags (header (or_flag x e)) = or (h_flags (header e)) x"
  by (simp add: or_flag_def)

text \<open>The abstract append: a field list and the flags, and nothing about bytes.\<close>

definition add_field ::
  "byte list \<Rightarrow> byte list \<Rightarrow> string \<Rightarrow> TraceFieldType \<Rightarrow> byte list \<Rightarrow>
   tlv list \<times> u16 \<Rightarrow> bool \<times> tlv list \<times> u16" where
  "add_field m a name ty v = (\<lambda>(fs, flags).
     let f = Tlv (tf_code ty) (bytes_of (c_str name)) v in
     if \<not> field_name_ok (c_str name) \<or> tlv_name f \<in> tlv_name ` set fs
     then (False, fs, or flags TraceEventFlagFieldError)
     else if ev_size m a fs + length (enc_field f) > TRACE_MAX_EVENT_BYTES
     then (False, fs, or flags TraceEventFlagTruncated)
     else (True, fs @ [f], flags))"

lemma take_c_str: "take (length (c_str s)) s = c_str s"
  by (simp add: c_str_def takeWhile_eq_take flip: takeWhile_eq_take)

lemma list_write_three:
  assumes "length p = n" "k + length x + length y + length z \<le> n"
  shows "list_write (list_write (list_write p k x) (k + length x) y) (k + length x + length y) z
       = list_write p k (x @ y @ z)"
  using assms list_write_append [of k x y p]
    list_write_append [of k "x @ y" z p] by (simp add: add.assoc)

text \<open>
  \<open>ev_state\<close> ties an event to the abstract state; \<open>same_stamp\<close> is the frame of the builder:
  it never touches the sequence number, the timestamp or the thread.
\<close>

definition ev_state :: "trace_event \<Rightarrow> byte list \<Rightarrow> byte list \<Rightarrow> tlv list \<times> u16 \<Rightarrow> bool" where
  "ev_state e m a st \<longleftrightarrow> ev_repr e m a (fst st) \<and> h_flags (header e) = snd st"

definition same_stamp :: "trace_event \<Rightarrow> trace_event \<Rightarrow> bool" where
  "same_stamp e e' \<longleftrightarrow> h_sequence (header e') = h_sequence (header e) \<and>
     h_timestamp100ns (header e') = h_timestamp100ns (header e) \<and>
     h_threadId (header e') = h_threadId (header e)"

lemma same_stamp_refl [simp]: "same_stamp e e"
  by (simp add: same_stamp_def)

lemma same_stamp_trans: "same_stamp e e' \<Longrightarrow> same_stamp e' e'' \<Longrightarrow> same_stamp e e''"
  by (simp add: same_stamp_def)

lemma same_stamp_or_flag [simp]: "same_stamp e (or_flag x e)"
  by (simp add: same_stamp_def or_flag_def)

text \<open>The event after the field \<open>f\<close> has been written behind its last byte.\<close>

definition write_field :: "trace_event \<Rightarrow> tlv \<Rightarrow> trace_event" where
  "write_field e f = e\<lparr>
     payload := list_write (payload e) (unat (h_size (header e)) - SIZEOF_EVENT_HEADER) (enc_field f),
     header := (header e)\<lparr>h_size := of_nat (unat (h_size (header e)) + length (enc_field f)),
       h_fieldCount := h_fieldCount (header e) + 1\<rparr>\<rparr>"

lemma same_stamp_write_field [simp]: "same_stamp e (write_field e f)"
  by (simp add: same_stamp_def write_field_def)

lemma write_field_flags [simp]: "h_flags (header (write_field e f)) = h_flags (header e)"
  by (simp add: write_field_def)

lemma write_field_repr:
  assumes repr: "ev_repr e m a fs" and wf: "tlv_wf f"
    and room: "ev_size m a fs + length (enc_field f) \<le> TRACE_MAX_EVENT_BYTES"
  shows "ev_repr (write_field e f) m a (fs @ [f])"
proof -
  obtain junk where pl: "payload e = m @ a @ enc_fields fs @ junk"
    and junk: "ev_size m a fs + length junk = TRACE_MAX_EVENT_BYTES"
    using repr by (rule ev_repr_payload)
  have size: "unat (h_size (header e)) = ev_size m a fs" using repr by (simp add: ev_repr_def)
  then have cursor: "unat (h_size (header e)) - SIZEOF_EVENT_HEADER = length (m @ a @ enc_fields fs)"
    by (simp add: ev_size_def)
  have fits: "length (enc_field f) \<le> length junk" using room junk by simp
  have "payload (write_field e f)
      = m @ a @ enc_fields fs @ enc_field f @ drop (length (enc_field f)) junk"
    unfolding write_field_def cursor by (simp add: pl list_write_def)
  moreover have "unat (of_nat (ev_size m a fs + length (enc_field f)) :: u16)
      = ev_size m a fs + length (enc_field f)"
    by (rule unat_of_nat_small) (use room in simp)
  moreover have "unat (h_fieldCount (header e) + 1) = length (fs @ [f])"
  proof -
    have "length fs < 1024" using length_enc_fields_ge [of fs] room by (simp add: ev_size_def)
    moreover have "unat (h_fieldCount (header e)) = length fs" using repr by (simp add: ev_repr_def)
    ultimately show ?thesis by (simp add: unat_word_ariths)
  qed
  moreover have "ev_size m a (fs @ [f]) = ev_size m a fs + length (enc_field f)"
    by (simp add: ev_size_def)
  ultimately show ?thesis
    using repr wf room fits pl junk size by (auto simp: ev_repr_def ev_size_def write_field_def)
qed

text \<open>
  On a represented event the append never reads outside the event or the value, and its
  outcome is the abstract one.
\<close>

lemma AppendTraceField_eq:
  assumes repr: "ev_repr e m a fs" and v: "unat vs \<le> length v"
    and f: "f = Tlv (tf_code ty) (bytes_of (c_str name)) (take (unat vs) v)"
  shows "AppendTraceField (Some e) ty (Some name) (Some v) vs =
     (if \<not> field_name_ok (c_str name) \<or> tlv_name f \<in> tlv_name ` set fs
      then Some (False, Some (or_flag TraceEventFlagFieldError e))
      else if ev_size m a fs + length (enc_field f) > TRACE_MAX_EVENT_BYTES
      then Some (False, Some (or_flag TraceEventFlagTruncated e))
      else Some (True, Some (write_field e f)))"
proof (cases "field_name_ok (c_str name)")
  case False
  then show ?thesis
    using repr ev_repr_names(1) [OF repr]
    by (simp add: AppendTraceField_def IsValidFieldName_eq ev_repr_def ev_size_def)
next
  case name: True
  then have len: "length (c_str name) \<le> 63" by (simp add: field_name_ok_def)
  then have nl: "unat (of_nat (length (c_str name)) :: byte) = length (c_str name)"
    by (simp add: unat_of_nat)
  have has: "HasTraceField e (bytes_of (c_str name)) (of_nat (length (c_str name)))
      = Some (tlv_name f \<in> tlv_name ` set fs)"
    using HasTraceField_eq [OF repr, of "bytes_of (c_str name)"] len by (simp add: f)
  have size: "unat (h_size (header e)) = ev_size m a fs" using repr by (simp add: ev_repr_def)
  have enc: "length (enc_field f) = 4 + length (c_str name) + unat vs"
    using v by (simp add: codec_simps f)
  have hdr: "\<lparr>fh_type = tf_code ty, fh_nameLength = of_nat (length (c_str name)), fh_valueSize = vs\<rparr>
      = tlv_header f"
    using v by (simp add: tlv_header_def f)
  have three: "list_write (list_write (list_write (payload e) k (enc_field_header (tlv_header f)))
        (k + 4) (bytes_of (c_str name))) (k + 4 + length (c_str name)) (take (unat vs) v)
      = list_write (payload e) k (enc_field f)"
    if "k + length (enc_field f) \<le> length (payload e)" for k
    using list_write_three [of "payload e" _ k "enc_field_header (tlv_header f)"
        "bytes_of (c_str name)" "take (unat vs) v"] that enc v
    by (simp add: enc_field_def codec_simps f)
  show ?thesis
    using repr ev_repr_names(1) [OF repr] name len nl has enc size v hdr
      three [of "ev_size m a fs - 32"]
    by (simp add: AppendTraceField_def IsValidFieldName_eq Let_def take_c_str write_field_def
        ev_repr_def ev_size_def)
qed

lemma AppendTraceField_repr:
  assumes repr: "ev_repr e m a fs" and v: "unat vs \<le> length v"
    and add: "add_field m a name ty (take (unat vs) v) (fs, h_flags (header e)) = (ok, st)"
  shows "\<exists>e'. AppendTraceField (Some e) ty (Some name) (Some v) vs = Some (ok, Some e') \<and>
     ev_state e' m a st \<and> same_stamp e e'"
proof -
  define f where "f = Tlv (tf_code ty) (bytes_of (c_str name)) (take (unat vs) v)"
  have "tlv_wf f" if "field_name_ok (c_str name)"
    using that v unsigned_less [of vs, where ?'a = nat]
    by (simp add: tlv_wf_def f_def field_name_ok_def)
  then show ?thesis
    using AppendTraceField_eq [OF repr v f_def] add repr write_field_repr [OF repr]
    by (auto simp: add_field_def f_def [symmetric] Let_def ev_state_def split: if_splits)
qed

subsection \<open>Starting an event\<close>

definition GetCurrentThreadIdFast :: "u64 \<Rightarrow> u32" where
  "GetCurrentThreadIdFast gs48 = ucast gs48"

text \<open>
  The shared system time is read as high, low, high again until the two high parts agree;
  the list is what successive rounds of the loop read.
\<close>

fun GetSystemTime100nsFast :: "(u32 \<times> u32 \<times> u32) list \<Rightarrow> u64 option" where
  "GetSystemTime100nsFast [] = None"
| "GetSystemTime100nsFast ((high1Time, lowPart, high2Time) # samples) =
     (if high1Time \<noteq> high2Time then GetSystemTime100nsFast samples
      else Some (or (push_bit 32 (ucast high1Time)) (ucast lowPart)))"

definition zero_header :: event_header where
  "zero_header = \<lparr>h_magic = 0, h_version = 0, h_size = 0, h_flags = 0, h_fieldCount = 0,
     h_sequence = 0, h_timestamp100ns = 0, h_threadId = 0, h_moduleNameLength = 0,
     h_apiNameLength = 0, h_reserved = 0\<rparr>"

definition zero_event :: trace_event where
  "zero_event = \<lparr>header = zero_header, payload = replicate PAYLOAD_BYTES 0\<rparr>"

definition InitializeTraceEvent ::
  "trace_event option \<Rightarrow> string option \<Rightarrow> string option \<Rightarrow> u32 \<Rightarrow> u64 \<Rightarrow>
   bool \<times> trace_event option" where
  "InitializeTraceEvent event moduleName apiName threadId time =
     (case event of None \<Rightarrow> (False, None)
      | Some _ \<Rightarrow>
        (case IsValidIdentifier moduleName TRACE_MAX_MODULE_NAME_BYTES True of
          None \<Rightarrow> (False, Some (or_flag TraceEventFlagFieldError zero_event))
        | Some moduleNameLength \<Rightarrow>
        (case IsValidIdentifier apiName TRACE_MAX_API_NAME_BYTES False of
          None \<Rightarrow> (False, Some (or_flag TraceEventFlagFieldError zero_event))
        | Some apiNameLength \<Rightarrow>
          (let ml = unat moduleNameLength; al = unat apiNameLength;
               p = list_write (payload zero_event) 0 (bytes_of (take ml (the moduleName)));
               p = list_write p ml (bytes_of (take al (the apiName)))
           in (True, Some \<lparr>header = zero_header\<lparr>h_magic := TRACE_EVENT_MAGIC,
                 h_version := TRACE_EVENT_VERSION,
                 h_size := of_nat (SIZEOF_EVENT_HEADER + ml + al),
                 h_moduleNameLength := moduleNameLength, h_apiNameLength := apiNameLength,
                 h_threadId := threadId, h_timestamp100ns := time\<rparr>,
               payload = p\<rparr>)))))"

subsection \<open>Scalar fields\<close>

definition AddTracePointer :: "trace_event option \<Rightarrow> string option \<Rightarrow> u64 \<Rightarrow>
    (bool \<times> trace_event option) option" where
  "AddTracePointer event name value =
     AppendTraceField event TraceFieldPointer name (Some (le_bytes value)) 8"

definition AddTraceUInt32 :: "trace_event option \<Rightarrow> string option \<Rightarrow> u32 \<Rightarrow>
    (bool \<times> trace_event option) option" where
  "AddTraceUInt32 event name value =
     AppendTraceField event TraceFieldUInt32 name (Some (le_bytes value)) 4"

definition AddTraceUInt64 :: "trace_event option \<Rightarrow> string option \<Rightarrow> u64 \<Rightarrow>
    (bool \<times> trace_event option) option" where
  "AddTraceUInt64 event name value =
     AppendTraceField event TraceFieldUInt64 name (Some (le_bytes value)) 8"

definition AddTraceInt32 :: "trace_event option \<Rightarrow> string option \<Rightarrow> u32 \<Rightarrow>
    (bool \<times> trace_event option) option" where
  "AddTraceInt32 event name value =
     AppendTraceField event TraceFieldInt32 name (Some (le_bytes value)) 4"

definition AddTraceInt64 :: "trace_event option \<Rightarrow> string option \<Rightarrow> u64 \<Rightarrow>
    (bool \<times> trace_event option) option" where
  "AddTraceInt64 event name value =
     AppendTraceField event TraceFieldInt64 name (Some (le_bytes value)) 8"

definition AddTraceBoolean :: "trace_event option \<Rightarrow> string option \<Rightarrow> bool \<Rightarrow>
    (bool \<times> trace_event option) option" where
  "AddTraceBoolean event name value =
     AppendTraceField event TraceFieldBoolean name (Some [if value then 1 else 0]) 1"

definition AddTraceStatus :: "trace_event option \<Rightarrow> string option \<Rightarrow> u32 \<Rightarrow>
    (bool \<times> trace_event option) option" where
  "AddTraceStatus event name value =
     AppendTraceField event TraceFieldStatus name (Some (le_bytes value)) 4"

subsection \<open>Guarded reads of the target's own memory\<close>

text \<open>
  The unpatched \<open>NtReadVirtualMemory\<close> is a parameter: for a source and a length it gives the
  status, the bytes it stored at the destination and the count it reported. \<open>None\<close> is the
  null pointer of a transport that is not configured.
\<close>

type_synonym nt_read = "addr \<Rightarrow> u32 \<Rightarrow> u32 \<times> byte list \<times> u32"

definition TRACE_STATUS_NOT_CONFIGURED :: u32 where
  "TRACE_STATUS_NOT_CONFIGURED = 0xC0000184"

definition TRACE_STATUS_READ_FAILED :: u32 where
  "TRACE_STATUS_READ_FAILED = 0xC0000001"

definition InvokeSelfRead :: "nt_read option \<Rightarrow> addr \<Rightarrow> u32 \<Rightarrow> u32 \<times> byte list \<times> u32" where
  "InvokeSelfRead rd source len =
     (case rd of None \<Rightarrow> (TRACE_STATUS_NOT_CONFIGURED, [], 0)
      | Some readMemory \<Rightarrow>
          if source = 0 \<or> len = 0 then (TRACE_STATUS_NOT_CONFIGURED, [], 0)
          else readMemory source len)"

definition SafeReadSelf :: "nt_read option \<Rightarrow> addr \<Rightarrow> u32 \<Rightarrow> u32 \<times> byte list" where
  "SafeReadSelf rd source len =
     (case InvokeSelfRead rd source len of (status, data, captured) \<Rightarrow>
        if NT_SUCCESS status \<and> captured \<noteq> len then (TRACE_STATUS_READ_FAILED, data)
        else (status, data))"

text \<open>A destination object after the bytes \<open>data\<close> were stored at its start.\<close>

definition store :: "byte list \<Rightarrow> byte list \<Rightarrow> byte list" where
  "store dest data = take (length dest) data @ drop (length data) dest"

lemma length_store [simp]: "length (store dest data) = length dest"
  by (simp add: store_def)

definition CaptureTraceBuffer :: "nt_read option \<Rightarrow> addr \<Rightarrow> u32 \<Rightarrow> bytes_value" where
  "CaptureTraceBuffer rd buffer len =
     (let preview = \<lparr>bv_header = \<lparr>bh_requested = len, bh_captured = 0, bh_captureStatus = 0\<rparr>,
            bv_bytes = replicate TRACE_MAX_BUFFER_BYTES 0\<rparr>
      in if buffer = 0 \<or> len = 0 then preview
         else
          (let captureLength = (if unat len < TRACE_MAX_BUFFER_BYTES then len
                 else of_nat TRACE_MAX_BUFFER_BYTES)
           in case InvokeSelfRead rd buffer captureLength of (status, data, captured) \<Rightarrow>
             \<lparr>bv_header = \<lparr>bh_requested = len,
                bh_captured = (if captured < captureLength then captured else captureLength),
                bh_captureStatus = status\<rparr>,
              bv_bytes = store (bv_bytes preview) data\<rparr>))"

definition AddTraceBufferPreview :: "nt_read option \<Rightarrow> trace_event option \<Rightarrow> string option \<Rightarrow>
    addr \<Rightarrow> u32 \<Rightarrow> (bool \<times> trace_event option) option" where
  "AddTraceBufferPreview rd event name buffer len =
     (let preview = CaptureTraceBuffer rd buffer len;
          valueSize = of_nat (SIZEOF_BYTES_HEADER + unat (bh_captured (bv_header preview)))
      in AppendTraceField event TraceFieldBytes name
           (Some (enc_bytes_header (bv_header preview) @ bv_bytes preview)) valueSize)"

subsection \<open>Strings and object paths\<close>

definition wbytes :: "wstring \<Rightarrow> byte list" where
  "wbytes ws = concat (map le_bytes ws)"

definition AddTraceWideString :: "trace_event option \<Rightarrow> string option \<Rightarrow> wstring option \<Rightarrow>
    nat \<Rightarrow> (bool \<times> trace_event option) option" where
  "AddTraceWideString event name value charCount =
     (let (value, charCount) = (case value of None \<Rightarrow> ([0], 0) | Some v \<Rightarrow> (v, charCount));
          maxChars = TRACE_MAX_STRING_BYTES div 2;
          (charCount, event) =
            (if charCount > maxChars
             then (maxChars, map_option (or_flag TraceEventFlagTruncated) event)
             else (charCount, event))
      in AppendTraceField event TraceFieldWideString name (Some (wbytes value))
           (of_nat (charCount * 2)))"

text \<open>
  The members of \<open>UNICODE_STRING\<close> (16 bytes) and \<open>OBJECT_ATTRIBUTES\<close> (48 bytes) the code
  reads, at their x64 offsets.
\<close>

definition us_Length :: "byte list \<Rightarrow> u16" where
  "us_Length h = of_le (take 2 h)"

definition us_Buffer :: "byte list \<Rightarrow> addr" where
  "us_Buffer h = of_le (take 8 (drop 8 h))"

definition oa_RootDirectory :: "byte list \<Rightarrow> u64" where
  "oa_RootDirectory h = of_le (take 8 (drop 8 h))"

definition oa_ObjectName :: "byte list \<Rightarrow> addr" where
  "oa_ObjectName h = of_le (take 8 (drop 16 h))"

text \<open>Little-endian 16-bit characters of a byte buffer.\<close>

fun wchars :: "byte list \<Rightarrow> wstring" where
  "wchars (lo # hi # bs) = of_le [lo, hi] # wchars bs"
| "wchars _ = []"

definition AddTraceUnicodeString :: "nt_read option \<Rightarrow> trace_event option \<Rightarrow> string option \<Rightarrow>
    addr \<Rightarrow> (bool \<times> trace_event option) option" where
  "AddTraceUnicodeString rd event name unicodeString =
     (case SafeReadSelf rd unicodeString 16 of (status, data) \<Rightarrow>
      if unicodeString = 0 \<or> \<not> NT_SUCCESS status then AddTraceWideString event name None 0
      else
       (let header = store (replicate 16 0) data;
            Buffer = us_Buffer header;
            byteLength = and (us_Length header) (not 1);
            (byteLength, event) =
              (if unat byteLength > TRACE_MAX_STRING_BYTES
               then (of_nat TRACE_MAX_STRING_BYTES, map_option (or_flag TraceEventFlagTruncated) event)
               else (byteLength, event));
            (status, data) = SafeReadSelf rd Buffer (ucast byteLength);
            buffer = store (replicate TRACE_MAX_STRING_BYTES 0) data
        in if Buffer = 0 \<or> byteLength = 0 \<or> \<not> NT_SUCCESS status
           then AddTraceWideString event name None 0
           else AddTraceWideString event name (Some (wchars buffer)) (unat byteLength div 2)))"

definition AddTraceObjectPath :: "nt_read option \<Rightarrow> trace_event option \<Rightarrow> string option \<Rightarrow>
    addr \<Rightarrow> (bool \<times> trace_event option) option" where
  "AddTraceObjectPath rd event name objectAttributes =
     (case SafeReadSelf rd objectAttributes 48 of (status, data) \<Rightarrow>
      if objectAttributes = 0 \<or> \<not> NT_SUCCESS status then AddTraceWideString event name None 0
      else
       (let header = store (replicate 48 0) data;
            RootDirectory = oa_RootDirectory header;
            ObjectName = oa_ObjectName header
        in do {
          event \<leftarrow> (if RootDirectory \<noteq> 0
            then map_option snd (AddTracePointer event (Some ''root_directory'') RootDirectory)
            else Some event);
          AddTraceUnicodeString rd event name ObjectName
        }))"

subsection \<open>Properties\<close>



text \<open>C19: The system time is never torn. Let the kernel publish the values \<open>clock 0, clock 1, ...\<close>
  of a clock that never runs backwards, each by three writes in its documented order (second
  high part, low part, first high part), and let each round of the loop read the first high
  part, the low part and the second high part after \<open>w1\<close>, \<open>w2\<close> and \<open>w3\<close> of those writes. Then
  whatever the loop returns is one of the published values, one that was being published or
  current while the returning round ran.\<close>

definition time_sample :: "(nat \<Rightarrow> u64) \<Rightarrow> nat \<times> nat \<times> nat \<Rightarrow> u32 \<times> u32 \<times> u32" where
  "time_sample clock = (\<lambda>(w1, w2, w3).
     (ucast (drop_bit 32 (clock (w1 div 3))), ucast (clock ((w2 + 1) div 3)),
      ucast (drop_bit 32 (clock ((w3 + 2) div 3)))))"

lemma join_halves: "or (push_bit 32 (ucast (ucast (drop_bit 32 x) :: u32))) (ucast (ucast x :: u32)) = (x :: u64)"
  by (rule bit_word_eqI) (auto simp: bit_simps)

lemma high_part_between:
  assumes "(x :: u64) \<le> y" "y \<le> z"
    and eq: "(ucast (drop_bit 32 x) :: u32) = ucast (drop_bit 32 z)"
  shows "(ucast (drop_bit 32 y) :: u32) = ucast (drop_bit 32 x)"
proof -
  have high: "unat (ucast (drop_bit 32 w) :: u32) = unat w div 2 ^ 32" for w :: u64
  proof -
    have "unat w div 2 ^ 32 < 2 ^ 32"
      using unsigned_less [of w, where ?'a = nat] by (simp add: less_mult_imp_div_less)
    then show ?thesis
      by (simp add: unsigned_ucast_eq unsigned_take_bit_eq unsigned_drop_bit_eq take_bit_eq_mod
          drop_bit_eq_div unat_div_distrib)
  qed
  have "unat x div 2 ^ 32 = unat z div 2 ^ 32" using high eq by metis
  moreover have "unat x div 2 ^ 32 \<le> unat y div 2 ^ 32" "unat y div 2 ^ 32 \<le> unat z div 2 ^ 32"
    using assms(1,2) by (simp_all add: div_le_mono word_le_nat_alt)
  ultimately have "unat (ucast (drop_bit 32 y) :: u32) = unat (ucast (drop_bit 32 x) :: u32)"
    by (simp only: high)
  then show ?thesis by (rule unsigned_word_eqI)
qed

theorem GetSystemTime_untorn:
  assumes "mono clock" "\<forall>(w1, w2, w3) \<in> set rounds. w1 \<le> w2 \<and> w2 \<le> w3"
    and "GetSystemTime100nsFast (map (time_sample clock) rounds) = Some t"
  shows "\<exists>(w1, w2, w3) \<in> set rounds. \<exists>j. w1 div 3 \<le> j \<and> j \<le> (w3 + 2) div 3 \<and> t = clock j"
  using assms(2,3)
proof (induction rounds)
  case (Cons r rounds)
  obtain w1 w2 w3 where r: "r = (w1, w2, w3)" by (cases r)
  define j where "j = (w2 + 1) div 3"
  have j: "w1 div 3 \<le> j" "j \<le> (w3 + 2) div 3"
    using Cons.prems(1) r by (auto simp: j_def intro: div_le_mono)
  show ?case
  proof (cases "(ucast (drop_bit 32 (clock (w1 div 3))) :: u32) = ucast (drop_bit 32 (clock ((w3 + 2) div 3)))")
    case True
    have "(ucast (drop_bit 32 (clock j)) :: u32) = ucast (drop_bit 32 (clock (w1 div 3)))"
      by (rule high_part_between [OF monoD [OF assms(1) j(1)] monoD [OF assms(1) j(2)] True])
    then have "t = clock j"
      using Cons.prems(2) True join_halves [of "clock j"]
      by (simp add: r time_sample_def) (simp add: j_def)
    with j r show ?thesis by auto
  next
    case False
    with Cons show ?thesis by (simp add: r time_sample_def)
  qed
qed simp

lemma GetSystemTime_untorn_witness:
  "\<exists>t. GetSystemTime100nsFast (map (time_sample (\<lambda>n. 5)) [(0, 1, 2)]) = Some t \<and> t = 5"
  using GetSystemTime_untorn [of "\<lambda>n. 5" "[(0, 1, 2)]"]
  by (auto simp: time_sample_def mono_def)

end
