(* ===== verification/Trace_Builder.thy ===== *)
theory Trace_Builder
  imports Trace_Transport
begin

section \<open>What a sequence of builder calls produces\<close>

text \<open>
  A hook builds its event by one \<open>InitializeTraceEvent\<close> and a sequence of \<open>AddTrace*\<close> calls
  whose results it ignores. Every call is reduced to abstract actions on a field list and the
  flags (set a flag, put a field), and a run of calls is proved to refine the run of their
  actions. The invariant \<open>fields_ok\<close> (valid distinct names, values of the size their type
  requires) holds of every field list the actions build.
\<close>

datatype add_op =
    OpPointer string u64
  | OpUInt32 string u32
  | OpUInt64 string u64
  | OpInt32 string u32
  | OpInt64 string u64
  | OpBoolean string bool
  | OpStatus string u32
  | OpBufferPreview string addr u32
  | OpWideString string "wstring option" nat
  | OpUnicodeString string addr
  | OpObjectPath string addr

fun run_add :: "nt_read option \<Rightarrow> add_op \<Rightarrow> trace_event option \<Rightarrow>
    (bool \<times> trace_event option) option" where
  "run_add rd (OpPointer n v) e = AddTracePointer e (Some n) v"
| "run_add rd (OpUInt32 n v) e = AddTraceUInt32 e (Some n) v"
| "run_add rd (OpUInt64 n v) e = AddTraceUInt64 e (Some n) v"
| "run_add rd (OpInt32 n v) e = AddTraceInt32 e (Some n) v"
| "run_add rd (OpInt64 n v) e = AddTraceInt64 e (Some n) v"
| "run_add rd (OpBoolean n v) e = AddTraceBoolean e (Some n) v"
| "run_add rd (OpStatus n v) e = AddTraceStatus e (Some n) v"
| "run_add rd (OpBufferPreview n b l) e = AddTraceBufferPreview rd e (Some n) b l"
| "run_add rd (OpWideString n v c) e = AddTraceWideString e (Some n) v c"
| "run_add rd (OpUnicodeString n u) e = AddTraceUnicodeString rd e (Some n) u"
| "run_add rd (OpObjectPath n p) e = AddTraceObjectPath rd e (Some n) p"

fun run_adds :: "nt_read option \<Rightarrow> add_op list \<Rightarrow> trace_event option \<Rightarrow> trace_event option option" where
  "run_adds rd [] e = Some e"
| "run_adds rd (x # xs) e = do { (ok, e') \<leftarrow> run_add rd x e; run_adds rd xs e' }"

subsection \<open>Actions\<close>

datatype action = SetFlag u16 | Put string TraceFieldType "byte list"

fun do_action :: "byte list \<Rightarrow> byte list \<Rightarrow> action \<Rightarrow> tlv list \<times> u16 \<Rightarrow> tlv list \<times> u16" where
  "do_action m a (SetFlag x) (fs, fl) = (fs, or fl x)"
| "do_action m a (Put n ty v) st = snd (add_field m a n ty v st)"

fun do_actions :: "byte list \<Rightarrow> byte list \<Rightarrow> action list \<Rightarrow> tlv list \<times> u16 \<Rightarrow> tlv list \<times> u16" where
  "do_actions m a [] st = st"
| "do_actions m a (x # xs) st = do_actions m a xs (do_action m a x st)"

lemma do_actions_append [simp]:
  "do_actions m a (xs @ ys) st = do_actions m a ys (do_actions m a xs st)"
  by (induction xs arbitrary: st) simp_all

definition wide_actions :: "string \<Rightarrow> byte list \<Rightarrow> nat \<Rightarrow> action list" where
  "wide_actions n bs charCount =
     (if charCount > 256
      then [SetFlag TraceEventFlagTruncated, Put n TraceFieldWideString (take 512 bs)]
      else [Put n TraceFieldWideString (take (2 * charCount) bs)])"

definition unicode_actions :: "nt_read option \<Rightarrow> string \<Rightarrow> addr \<Rightarrow> action list" where
  "unicode_actions rd n u =
     (case SafeReadSelf rd u 16 of (status, data) \<Rightarrow>
      if u = 0 \<or> \<not> NT_SUCCESS status then wide_actions n [] 0
      else
       (let hdr = store (replicate 16 0) data;
            len = and (us_Length hdr) (not 1);
            cut = unat len > 512;
            len = (if cut then 512 else len);
            buf = us_Buffer hdr;
            (status, data) = SafeReadSelf rd buf (ucast len)
        in (if cut then [SetFlag TraceEventFlagTruncated] else []) @
           (if buf = 0 \<or> len = 0 \<or> \<not> NT_SUCCESS status then wide_actions n [] 0
            else wide_actions n (store (replicate 512 0) data) (unat len div 2))))"

definition object_path_actions :: "nt_read option \<Rightarrow> string \<Rightarrow> addr \<Rightarrow> action list" where
  "object_path_actions rd n oa =
     (case SafeReadSelf rd oa 48 of (status, data) \<Rightarrow>
      if oa = 0 \<or> \<not> NT_SUCCESS status then wide_actions n [] 0
      else
       (let hdr = store (replicate 48 0) data;
            root = oa_RootDirectory hdr
        in (if root \<noteq> 0 then [Put ''root_directory'' TraceFieldPointer (le_bytes root)] else []) @
           unicode_actions rd n (oa_ObjectName hdr)))"

definition preview_value :: "bytes_value \<Rightarrow> byte list" where
  "preview_value p = enc_bytes_header (bv_header p) @
     take (unat (bh_captured (bv_header p))) (bv_bytes p)"

fun op_actions :: "nt_read option \<Rightarrow> add_op \<Rightarrow> action list" where
  "op_actions rd (OpPointer n v) = [Put n TraceFieldPointer (le_bytes v)]"
| "op_actions rd (OpUInt32 n v) = [Put n TraceFieldUInt32 (le_bytes v)]"
| "op_actions rd (OpUInt64 n v) = [Put n TraceFieldUInt64 (le_bytes v)]"
| "op_actions rd (OpInt32 n v) = [Put n TraceFieldInt32 (le_bytes v)]"
| "op_actions rd (OpInt64 n v) = [Put n TraceFieldInt64 (le_bytes v)]"
| "op_actions rd (OpBoolean n v) = [Put n TraceFieldBoolean [if v then 1 else 0]]"
| "op_actions rd (OpStatus n v) = [Put n TraceFieldStatus (le_bytes v)]"
| "op_actions rd (OpBufferPreview n b l) =
     [Put n TraceFieldBytes (preview_value (CaptureTraceBuffer rd b l))]"
| "op_actions rd (OpWideString n v c) =
     (case v of None \<Rightarrow> wide_actions n [] 0 | Some w \<Rightarrow> wide_actions n (wbytes w) c)"
| "op_actions rd (OpUnicodeString n u) = unicode_actions rd n u"
| "op_actions rd (OpObjectPath n p) = object_path_actions rd n p"

text \<open>A wide string passed with its length must have that many characters.\<close>

fun op_pre :: "add_op \<Rightarrow> bool" where
  "op_pre (OpWideString n (Some v) c) \<longleftrightarrow> c \<le> length v"
| "op_pre _ \<longleftrightarrow> True"

subsection \<open>The calls refine their actions\<close>

definition refines :: "(bool \<times> trace_event option) option \<Rightarrow> trace_event \<Rightarrow>
    byte list \<Rightarrow> byte list \<Rightarrow> tlv list \<times> u16 \<Rightarrow> bool" where
  "refines r e m a st \<longleftrightarrow>
     (\<exists>ok e'. r = Some (ok, Some e') \<and> ev_state e' m a st \<and> same_stamp e e')"

lemma append_refines:
  assumes "ev_state e m a st" "unat vs \<le> length v"
  shows "refines (AppendTraceField (Some e) ty (Some n) (Some v) vs) e m a
     (do_action m a (Put n ty (take (unat vs) v)) st)"
proof -
  obtain fs fl where st: "st = (fs, fl)" by (cases st)
  obtain ok st' where "add_field m a n ty (take (unat vs) v) (fs, h_flags (header e)) = (ok, st')"
    by (cases "add_field m a n ty (take (unat vs) v) (fs, h_flags (header e))") blast
  then show ?thesis
    using AppendTraceField_repr [of e m a fs vs v n ty ok st'] assms st
    by (auto simp: refines_def ev_state_def)
qed

lemma or_flag_state:
  "ev_state e m a st \<Longrightarrow> ev_state (or_flag x e) m a (do_action m a (SetFlag x) st)"
  by (cases st) (simp add: ev_state_def)

lemma refines_or_flag: "refines r (or_flag x e) m a st \<longleftrightarrow> refines r e m a st"
  by (simp add: refines_def same_stamp_def or_flag_def)

lemma length_wbytes [simp]: "length (wbytes ws) = 2 * length ws"
  by (induction ws) (simp_all add: wbytes_def)

lemma wbytes_wchars: "even (length bs) \<Longrightarrow> wbytes (wchars bs) = bs"
proof (induction bs rule: wchars.induct)
  case (1 lo hi bs)
  have "le_bytes (of_le [lo, hi] :: u16) = [lo, hi]" by (rule le_bytes_of_le) simp_all
  with 1 show ?case by (simp add: wbytes_def)
qed (simp_all add: wbytes_def)

lemma wide_refines:
  assumes st: "ev_state e m a st" and len: "\<And>v. value = Some v \<Longrightarrow> min c 256 \<le> length v"
  shows "refines (AddTraceWideString (Some e) (Some n) value c) e m a
     (do_actions m a (case value of None \<Rightarrow> wide_actions n [] 0
        | Some v \<Rightarrow> wide_actions n (wbytes v) c) st)"
proof (cases "value")
  case None
  then show ?thesis
    using append_refines [OF st, of 0 "wbytes [0]" TraceFieldWideString n]
    by (simp add: AddTraceWideString_def wide_actions_def)
next
  case (Some v)
  show ?thesis
  proof (cases "c > 256")
    case True
    have "unat (512 :: u16) \<le> length (wbytes v)" using len [OF Some] True by simp
    then show ?thesis
      using append_refines [OF or_flag_state [OF st, of TraceEventFlagTruncated], of 512 "wbytes v"
          TraceFieldWideString n] True Some
      by (simp add: AddTraceWideString_def wide_actions_def refines_or_flag)
  next
    case False
    then have "unat (of_nat (c * 2) :: u16) = c * 2"
      by (intro unat_of_nat_small) simp
    then show ?thesis
      using append_refines [OF st, of "of_nat (c * 2)" "wbytes v" TraceFieldWideString n]
        False Some len [OF Some]
      by (simp add: AddTraceWideString_def wide_actions_def mult.commute)
  qed
qed

lemma length_wchars: "length (wchars bs) = length bs div 2"
  by (induction bs rule: wchars.induct) simp_all

lemma unicode_refines:
  assumes st: "ev_state e m a st"
  shows "refines (AddTraceUnicodeString rd (Some e) (Some n) u) e m a
     (do_actions m a (unicode_actions rd n u) st)"
proof -
  obtain status data where r1: "SafeReadSelf rd u 16 = (status, data)" by fastforce
  show ?thesis
  proof (cases "u = 0 \<or> \<not> NT_SUCCESS status")
    case True
    then show ?thesis
      using wide_refines [OF st, of None 0 n] r1
      by (simp add: AddTraceUnicodeString_def unicode_actions_def)
  next
    case False
    define hdr where "hdr = store (replicate 16 0) data"
    define len0 where "len0 = and (us_Length hdr) (- 2)"
    define cut where "cut \<longleftrightarrow> unat len0 > 512"
    define len where "len = (if cut then 512 else len0)"
    define buf where "buf = us_Buffer hdr"
    define e1 where "e1 = (if cut then or_flag TraceEventFlagTruncated e else e)"
    define st1 where "st1 = do_actions m a (if cut then [SetFlag TraceEventFlagTruncated] else []) st"
    obtain status2 data2 where r2: "SafeReadSelf rd buf (ucast len) = (status2, data2)" by fastforce
    have st1: "ev_state e1 m a st1"
      using st or_flag_state [OF st] by (simp add: e1_def st1_def)
    have len: "unat len \<le> 512" by (auto simp: len_def cut_def)
    note defs = hdr_def [symmetric] len0_def [symmetric] cut_def [symmetric] buf_def [symmetric]
    have code: "AddTraceUnicodeString rd (Some e) (Some n) u =
       (if buf = 0 \<or> len = 0 \<or> \<not> NT_SUCCESS status2
        then AddTraceWideString (Some e1) (Some n) None 0
        else AddTraceWideString (Some e1) (Some n)
          (Some (wchars (store (replicate 512 0) data2))) (unat len div 2))"
      using False r1 r2
      by (simp add: AddTraceUnicodeString_def Let_def defs len_def e1_def split: if_splits)
    have acts: "do_actions m a (unicode_actions rd n u) st = do_actions m a
       (if buf = 0 \<or> len = 0 \<or> \<not> NT_SUCCESS status2 then wide_actions n [] 0
        else wide_actions n (store (replicate 512 0) data2) (unat len div 2)) st1"
      using False r1 r2
      by (simp add: unicode_actions_def Let_def defs len_def st1_def split: if_splits)
    have "refines (AddTraceUnicodeString rd (Some e) (Some n) u) e1 m a
        (do_actions m a (unicode_actions rd n u) st)"
      using wide_refines [OF st1, of None 0 n]
        wide_refines [OF st1, of "Some (wchars (store (replicate 512 0) data2))" "unat len div 2" n] len
      by (simp add: code acts wbytes_wchars length_wchars)
    then show ?thesis by (simp add: e1_def refines_or_flag split: if_splits)
  qed
qed

lemma refines_trans:
  assumes "refines r e m a st"
    and "\<And>e'. ev_state e' m a st \<Longrightarrow> refines (k (Some e')) e' m a st'"
  shows "refines (do { (ok, x) \<leftarrow> r; k x }) e m a st'"
  using assms by (fastforce simp: refines_def dest: same_stamp_trans)

lemma pointer_refines:
  "ev_state e m a st \<Longrightarrow> refines (AddTracePointer (Some e) (Some n) v) e m a
     (do_action m a (Put n TraceFieldPointer (le_bytes v)) st)"
  using append_refines [of e m a st 8 "le_bytes v" TraceFieldPointer n]
  by (simp add: AddTracePointer_def)

lemma object_path_refines:
  assumes st: "ev_state e m a st"
  shows "refines (AddTraceObjectPath rd (Some e) (Some n) oa) e m a
     (do_actions m a (object_path_actions rd n oa) st)"
proof -
  obtain status data where r: "SafeReadSelf rd oa 48 = (status, data)" by fastforce
  define hdr where "hdr = store (replicate 48 0) data"
  define root where "root = oa_RootDirectory hdr"
  define nm where "nm = oa_ObjectName hdr"
  consider "oa = 0 \<or> \<not> NT_SUCCESS status" | "\<not> (oa = 0 \<or> \<not> NT_SUCCESS status)" "root = 0"
    | "\<not> (oa = 0 \<or> \<not> NT_SUCCESS status)" "root \<noteq> 0" by blast
  then show ?thesis
  proof cases
    case 1
    then show ?thesis
      using wide_refines [OF st, of None 0 n] r
      by (simp add: AddTraceObjectPath_def object_path_actions_def)
  next
    case 2
    then show ?thesis
      using unicode_refines [OF st, of rd n nm] r
      by (simp add: AddTraceObjectPath_def object_path_actions_def Let_def
          flip: hdr_def root_def nm_def)
  next
    case 3
    have "refines (do { (ok, x) \<leftarrow> AddTracePointer (Some e) (Some ''root_directory'') root;
        AddTraceUnicodeString rd x (Some n) nm }) e m a
        (do_actions m a (unicode_actions rd n nm)
          (do_action m a (Put ''root_directory'' TraceFieldPointer (le_bytes root)) st))"
      by (rule refines_trans [OF pointer_refines [OF st] unicode_refines])
    moreover have "AddTraceObjectPath rd (Some e) (Some n) oa =
        do { (ok, x) \<leftarrow> AddTracePointer (Some e) (Some ''root_directory'') root;
          AddTraceUnicodeString rd x (Some n) nm }"
      using 3 r by (cases "AddTracePointer (Some e) (Some ''root_directory'') root")
        (simp_all add: AddTraceObjectPath_def Let_def case_prod_beta flip: hdr_def root_def nm_def)
    ultimately show ?thesis
      using 3 r by (simp add: object_path_actions_def Let_def flip: hdr_def root_def nm_def)
  qed
qed

lemma captured_le:
  "unat (bh_captured (bv_header (CaptureTraceBuffer rd b l))) \<le> 64"
  "bh_captured (bv_header (CaptureTraceBuffer rd b l)) \<le> bh_requested (bv_header (CaptureTraceBuffer rd b l))"
  "length (bv_bytes (CaptureTraceBuffer rd b l)) = 64"
  by (auto simp: CaptureTraceBuffer_def Let_def word_le_nat_alt word_less_nat_alt split: prod.splits)

lemma preview_refines:
  assumes st: "ev_state e m a st"
  shows "refines (AddTraceBufferPreview rd (Some e) (Some n) b l) e m a
     (do_action m a (Put n TraceFieldBytes (preview_value (CaptureTraceBuffer rd b l))) st)"
proof -
  define p where "p = CaptureTraceBuffer rd b l"
  have c: "unat (bh_captured (bv_header p)) \<le> 64" "length (bv_bytes p) = 64"
    using captured_le [of rd b l] by (simp_all add: p_def)
  then have vs: "unat (of_nat (12 + unat (bh_captured (bv_header p))) :: u16)
      = 12 + unat (bh_captured (bv_header p))"
    by (intro unat_of_nat_small) simp
  show ?thesis
    using append_refines [OF st, of "of_nat (12 + unat (bh_captured (bv_header p)))"
        "enc_bytes_header (bv_header p) @ bv_bytes p" TraceFieldBytes n] c vs
    by (simp add: AddTraceBufferPreview_def Let_def preview_value_def codec_simps flip: p_def)
qed

lemma run_add_refines:
  assumes st: "ev_state e m a st" and pre: "op_pre x"
  shows "refines (run_add rd x (Some e)) e m a (do_actions m a (op_actions rd x) st)"
proof (cases x)
  case (OpWideString n v c)
  then show ?thesis using wide_refines [OF st, of v c n] pre by (cases v) auto
next
  case (OpBoolean n v)
  then show ?thesis
    using append_refines [OF st, of 1 "[if v then 1 else 0]" TraceFieldBoolean n]
    by (simp add: AddTraceBoolean_def)
qed (use st in \<open>auto intro: pointer_refines preview_refines unicode_refines object_path_refines
      simp: AddTraceUInt32_def AddTraceUInt64_def AddTraceInt32_def AddTraceInt64_def
        AddTraceStatus_def simp del: do_action.simps
      dest: append_refines [where vs = 4, of _ _ _ _ "le_bytes (w :: u32)" for w]
        append_refines [where vs = 8, of _ _ _ _ "le_bytes (w :: u64)" for w]\<close>)

text \<open>A whole run of builder calls refines the run of their actions and never faults.\<close>

lemma run_adds_refines:
  "ev_state e m a st \<Longrightarrow> list_all op_pre xs \<Longrightarrow>
   \<exists>e'. run_adds rd xs (Some e) = Some (Some e') \<and>
     ev_state e' m a (do_actions m a (concat (map (op_actions rd) xs)) st) \<and> same_stamp e e'"
proof (induction xs arbitrary: e st)
  case (Cons x xs)
  from Cons.prems have "refines (run_add rd x (Some e)) e m a (do_actions m a (op_actions rd x) st)"
    by (simp add: run_add_refines)
  then obtain ok e1 where r: "run_add rd x (Some e) = Some (ok, Some e1)"
    and e1: "ev_state e1 m a (do_actions m a (op_actions rd x) st)" and "same_stamp e e1"
    by (auto simp: refines_def)
  with Cons.IH [OF e1] Cons.prems show ?case by (auto dest: same_stamp_trans)
qed simp

subsection \<open>The invariant of the field list\<close>

definition fields_ok :: "tlv list \<Rightarrow> bool" where
  "fields_ok fs \<longleftrightarrow> distinct (map tlv_name fs) \<and>
     (\<forall>f \<in> set fs. field_name_ok (string_of (tlv_name f)) \<and> value_ok (tlv_type f) (tlv_value f))"

fun action_ok :: "action \<Rightarrow> bool" where
  "action_ok (SetFlag x) \<longleftrightarrow> True"
| "action_ok (Put n ty v) \<longleftrightarrow> value_ok (tf_code ty) v"

lemma do_action_fields_ok:
  "action_ok x \<Longrightarrow> fields_ok (fst st) \<Longrightarrow> fields_ok (fst (do_action m a x st))"
  by (cases x; cases st) (auto simp: add_field_def Let_def fields_ok_def)

lemma do_actions_fields_ok:
  "list_all action_ok xs \<Longrightarrow> fields_ok (fst st) \<Longrightarrow> fields_ok (fst (do_actions m a xs st))"
  by (induction xs arbitrary: st) (simp_all add: do_action_fields_ok)

lemma wide_actions_even_ok: "even (length bs) \<Longrightarrow> list_all action_ok (wide_actions n bs c)"
  by (auto simp: wide_actions_def value_ok_def min_def)

lemma unicode_actions_ok: "list_all action_ok (unicode_actions rd n u)"
  by (auto simp: unicode_actions_def Let_def wide_actions_even_ok split: prod.splits)

lemma preview_value_ok: "bytes_value_ok (preview_value (CaptureTraceBuffer rd b l))"
  using captured_le [of rd b l]
  by (simp add: bytes_value_ok_def preview_value_def codec_simps)

lemma op_actions_ok: "list_all action_ok (op_actions rd x)"
proof (cases x)
  case (OpWideString n v c)
  then show ?thesis by (cases v) (simp_all add: wide_actions_even_ok)
qed (auto simp: value_ok_def preview_value_ok unicode_actions_ok object_path_actions_def Let_def
       wide_actions_even_ok split: prod.splits)

lemma run_actions_ok: "list_all action_ok (concat (map (op_actions rd) xs))"
  by (induction xs) (simp_all add: op_actions_ok)

subsection \<open>From the first call\<close>

lemma list_write_prefix:
  "length ys \<le> length xs \<Longrightarrow> list_write xs 0 ys = ys @ drop (length ys) xs"
  by (simp add: list_write_def)

lemma InitializeTraceEvent_ok:
  assumes m: "ident_ok True (c_str m)" and a: "ident_ok False (c_str a)"
  shows "\<exists>e. InitializeTraceEvent (Some e0) (Some m) (Some a) tid t = (True, Some e) \<and>
     ev_state e (bytes_of (c_str m)) (bytes_of (c_str a)) ([], 0) \<and>
     h_threadId (header e) = tid \<and> h_timestamp100ns (header e) = t"
proof -
  have lens: "length (c_str m) \<le> 63" "length (c_str a) \<le> 63"
    using m a by (simp_all add: ident_ok_def)
  then have ml: "unat (of_nat (length (c_str m)) :: byte) = length (c_str m)"
    and al: "unat (of_nat (length (c_str a)) :: byte) = length (c_str a)"
    and size: "unat (of_nat (32 + length (c_str m) + length (c_str a)) :: u16)
        = 32 + length (c_str m) + length (c_str a)"
    by (simp_all add: unat_of_nat_small del: of_nat_add of_nat_numeral)
  have "list_write (list_write (replicate 992 0) 0 (bytes_of (c_str m))) (length (c_str m))
      (bytes_of (c_str a)) = list_write (replicate 992 0) 0 (bytes_of (c_str m) @ bytes_of (c_str a))"
    using list_write_append [of 0 "bytes_of (c_str m)" "bytes_of (c_str a)" "replicate 992 0"] lens
    by simp
  then show ?thesis
    using m a lens ml al size
    by (simp add: InitializeTraceEvent_def IsValidIdentifier_eq Let_def take_c_str zero_event_def
        zero_header_def ev_state_def ev_repr_def ev_size_def list_write_prefix)
qed

lemma InitializeTraceEvent_bad:
  assumes "\<not> (ident_ok True (c_str m) \<and> ident_ok False (c_str a))"
  shows "InitializeTraceEvent (Some e0) (Some m) (Some a) tid t
     = (False, Some (or_flag TraceEventFlagFieldError zero_event))"
  using assms by (auto simp: InitializeTraceEvent_def IsValidIdentifier_eq)

text \<open>
  The abstract result of a hook's calls: the fields and flags of the event it will emit.
\<close>

definition built :: "nt_read option \<Rightarrow> string \<Rightarrow> string \<Rightarrow> add_op list \<Rightarrow> tlv list \<times> u16" where
  "built rd m a xs = do_actions (bytes_of m) (bytes_of a) (concat (map (op_actions rd) xs)) ([], 0)"

lemma built_fields_ok: "fields_ok (fst (built rd m a xs))"
  unfolding built_def by (rule do_actions_fields_ok [OF run_actions_ok]) (simp add: fields_ok_def)

lemma build_event:
  assumes "ident_ok True m" "ident_ok False a" "list_all op_pre xs"
  obtains e where
    "run_adds rd xs (snd (InitializeTraceEvent (Some e0) (Some m) (Some a) tid t)) = Some (Some e)"
    and "ev_state e (bytes_of m) (bytes_of a) (built rd m a xs)"
    and "h_threadId (header e) = tid" and "h_timestamp100ns (header e) = t"
proof -
  have ids: "c_str m = m" "c_str a = a"
    using assms by (simp_all add: c_str_id ident_ok_no_nul)
  obtain e1 where init: "InitializeTraceEvent (Some e0) (Some m) (Some a) tid t = (True, Some e1)"
    and e1: "ev_state e1 (bytes_of m) (bytes_of a) ([], 0)"
    and "h_threadId (header e1) = tid" "h_timestamp100ns (header e1) = t"
    using InitializeTraceEvent_ok [of m a e0 tid t] assms ids by auto
  with run_adds_refines [OF e1 assms(3), of rd] show ?thesis
    using that by (auto simp: built_def same_stamp_def)
qed

subsection \<open>Nothing is lost silently\<close>

lemma or_zero_iff: "or a b = (0 :: u16) \<longleftrightarrow> a = 0 \<and> b = 0"
  by (simp add: or_eq_0_iff)

lemma do_action_flags_mono:
  "snd (do_action m a x st) = 0 \<Longrightarrow> snd st = 0"
  by (cases x; cases st) (auto simp: add_field_def Let_def or_zero_iff split: if_splits)

lemma do_actions_flags_mono:
  "snd (do_actions m a xs st) = 0 \<Longrightarrow> snd st = 0"
proof (induction xs arbitrary: st)
  case (Cons x xs)
  then show ?case using do_action_flags_mono [of m a x st] by simp
qed simp

text \<open>The fields the actions ask for, in order.\<close>

fun asked :: "action \<Rightarrow> tlv list" where
  "asked (SetFlag x) = []"
| "asked (Put n ty v) = [Tlv (tf_code ty) (bytes_of (c_str n)) v]"

lemma do_action_asked:
  "snd (do_action m a x st) = 0 \<Longrightarrow> fst (do_action m a x st) = fst st @ asked x"
  by (cases x; cases st)
     (auto simp: add_field_def Let_def or_zero_iff TraceEventFlagFieldError_def
       TraceEventFlagTruncated_def split: if_splits)

lemma do_actions_asked:
  "snd (do_actions m a xs st) = 0 \<Longrightarrow>
   fst (do_actions m a xs st) = fst st @ concat (map asked xs)"
proof (induction xs arbitrary: st)
  case (Cons x xs)
  from Cons.prems have "snd (do_action m a x st) = 0" by (simp add: do_actions_flags_mono)
  then show ?case using Cons by (simp add: do_action_asked)
qed simp

subsection \<open>Properties\<close>

text \<open>C16: A hook's calls never fault. Starting from any valid module and export name, every
  sequence of \<open>AddTrace*\<close> calls (with any arguments, any memory behind the pointers) runs
  without reading outside the event or a value, and the event it leaves represents exactly the
  fields and flags of the abstract run, inside its 1024 bytes, with the thread and the
  timestamp of \<open>InitializeTraceEvent\<close>.\<close>

theorem builder_never_faults:
  assumes "ident_ok True m" "ident_ok False a" "list_all op_pre xs"
  shows "\<exists>e. run_adds rd xs (snd (InitializeTraceEvent (Some e0) (Some m) (Some a) tid t)) = Some (Some e)
     \<and> ev_repr e (bytes_of m) (bytes_of a) (fst (built rd m a xs))
     \<and> unat (h_size (header e)) \<le> TRACE_MAX_EVENT_BYTES
     \<and> h_flags (header e) = snd (built rd m a xs)
     \<and> h_threadId (header e) = tid \<and> h_timestamp100ns (header e) = t"
proof -
  obtain e where "run_adds rd xs (snd (InitializeTraceEvent (Some e0) (Some m) (Some a) tid t))
      = Some (Some e)" "ev_state e (bytes_of m) (bytes_of a) (built rd m a xs)"
    "h_threadId (header e) = tid" "h_timestamp100ns (header e) = t"
    by (rule build_event [OF assms])
  then show ?thesis by (auto simp: ev_state_def ev_repr_def)
qed

lemma builder_never_faults_witness:
  "\<exists>e. run_adds None [OpPointer ''handle'' 4, OpUnicodeString ''path'' 0]
       (snd (InitializeTraceEvent (Some zero_event) (Some ''ntdll.dll'') (Some ''NtClose'') 7 9))
       = Some (Some e) \<and> h_threadId (header e) = 7"
proof -
  have "ident_ok True ''ntdll.dll''" "ident_ok False ''NtClose''"
    by (simp_all add: ident_ok_def ident_char_def is_lower_def is_upper_def is_digit_def)
  then show ?thesis
    using builder_never_faults [of "''ntdll.dll''" "''NtClose''"
        "[OpPointer ''handle'' 4, OpUnicodeString ''path'' 0]" None zero_event 7 9] by auto
qed



end
