(* ===== verification/Trace_Parser.thy ===== *)
theory Trace_Parser
  imports Trace_Builder
begin

section \<open>Parsing and validating events\<close>

text \<open>
  The reading half of \<open>src/apiscope/trace_renderer.cpp\<close>: \<open>ParseTraceEvent\<close> and what it calls.
  A cursor is the list of bytes from it to the event's end. The parser is proved equivalent to
  the representation relation of the protocol, so it accepts exactly the events that encode a
  valid module, export and field list, and returns those.
\<close>

definition IsValidIdentifier_bytes :: "byte list \<Rightarrow> nat \<Rightarrow> bool \<Rightarrow> bool" where
  "IsValidIdentifier_bytes name len moduleName =
     (let maximum = (if moduleName then TRACE_MAX_MODULE_NAME_BYTES else TRACE_MAX_API_NAME_BYTES)
      in if len = 0 \<or> len > maximum then False
         else list_all (\<lambda>index. ident_char moduleName (chr_of (name ! index))) [0..<len])"

definition IsValidFieldName_bytes :: "byte list \<Rightarrow> nat \<Rightarrow> bool" where
  "IsValidFieldName_bytes name len =
     (if len = 0 \<or> len > TRACE_MAX_FIELD_NAME_BYTES then False
      else if \<not> is_lower (chr_of (name ! 0)) then False
      else list_all (\<lambda>index. field_char (chr_of (name ! index))) [1..<len])"

definition HasExpectedValueSize :: "byte \<Rightarrow> byte list \<Rightarrow> nat \<Rightarrow> bool" where
  "HasExpectedValueSize ty value valueSize =
     (if ty = tf_code TraceFieldPointer \<or> ty = tf_code TraceFieldUInt64 \<or>
         ty = tf_code TraceFieldInt64 then valueSize = 8
      else if ty = tf_code TraceFieldUInt32 \<or> ty = tf_code TraceFieldStatus \<or>
         ty = tf_code TraceFieldInt32 then valueSize = 4
      else if ty = tf_code TraceFieldBoolean then
        valueSize = 1 \<and> (value ! 0 = 0 \<or> value ! 0 = 1)
      else if ty = tf_code TraceFieldBytes then
        (if valueSize < SIZEOF_BYTES_HEADER then False
         else let bytes = read_bytes_header value in
           unat (bh_captured bytes) \<le> TRACE_MAX_BUFFER_BYTES \<and>
           bh_captured bytes \<le> bh_requested bytes \<and>
           valueSize = SIZEOF_BYTES_HEADER + unat (bh_captured bytes))
      else if ty = tf_code TraceFieldWideString then
        valueSize mod 2 = 0 \<and> valueSize \<le> TRACE_MAX_STRING_BYTES
      else True)"

fun parse_fields_loop :: "nat \<Rightarrow> byte list \<Rightarrow> tlv list \<Rightarrow> (tlv list \<times> byte list) option" where
  "parse_fields_loop 0 cursor parsedFields = Some (parsedFields, cursor)"
| "parse_fields_loop (Suc remaining) cursor parsedFields =
     (case read_field_header cursor of None \<Rightarrow> None
      | Some (h, cursor) \<Rightarrow>
        (let nameLength = unat (fh_nameLength h);
             fieldSize = nameLength + unat (fh_valueSize h)
         in if length cursor < fieldSize \<or> \<not> IsValidFieldName_bytes cursor nameLength then None
            else
             (let name = take nameLength cursor
              in if list_ex (\<lambda>existing. name = tlv_name existing) parsedFields then None
                 else
                  (let cursor = drop nameLength cursor;
                       value = take (unat (fh_valueSize h)) cursor
                   in if \<not> HasExpectedValueSize (fh_type h) value (unat (fh_valueSize h)) then None
                      else parse_fields_loop remaining (drop (unat (fh_valueSize h)) cursor)
                        (parsedFields @ [Tlv (fh_type h) name value])))))"

definition ParseTraceEvent ::
  "trace_event \<Rightarrow> nat \<Rightarrow> (string \<times> string \<times> tlv list) option" where
  "ParseTraceEvent event bytesReceived =
     (let h = header event;
          ml = unat (h_moduleNameLength h); al = unat (h_apiNameLength h)
      in if bytesReceived < SIZEOF_EVENT_HEADER \<or> h_magic h \<noteq> TRACE_EVENT_MAGIC \<or>
            h_version h \<noteq> TRACE_EVENT_VERSION \<or> unat (h_size h) \<noteq> bytesReceived \<or>
            unat (h_size h) > TRACE_MAX_EVENT_BYTES \<or>
            unat (h_size h) < SIZEOF_EVENT_HEADER + ml + al
         then None
         else
          (let cursor = take (unat (h_size h) - SIZEOF_EVENT_HEADER) (payload event)
           in if \<not> IsValidIdentifier_bytes cursor ml True then None
              else
               (let moduleName = string_of (take ml cursor); cursor = drop ml cursor
                in if \<not> IsValidIdentifier_bytes cursor al False then None
                   else
                    (let apiName = string_of (take al cursor); cursor = drop al cursor
                     in case parse_fields_loop (unat (h_fieldCount h)) cursor [] of
                          None \<Rightarrow> None
                        | Some (parsedFields, cursor) \<Rightarrow>
                            if cursor \<noteq> [] then None
                            else Some (moduleName, apiName, parsedFields)))))"

definition IsValidTraceEvent :: "trace_event \<Rightarrow> nat \<Rightarrow> bool" where
  "IsValidTraceEvent event bytesReceived \<longleftrightarrow> ParseTraceEvent event bytesReceived \<noteq> None"

subsection \<open>The checks as predicates\<close>

lemma list_all_nth_upt:
  "n \<le> length xs \<Longrightarrow> list_all (\<lambda>i. P (xs ! i)) [k..<n] = list_all P (drop k (take n xs))"
proof -
  assume "n \<le> length xs"
  then have "map ((!) xs) [k..<n] = drop k (take n xs)"
    by (intro nth_equalityI) auto
  then have "list_all P (map ((!) xs) [k..<n]) = list_all P (drop k (take n xs))" by simp
  then show ?thesis by (simp add: list.pred_map comp_def)
qed

lemma IsValidIdentifier_bytes_eq:
  "n \<le> length bs \<Longrightarrow> IsValidIdentifier_bytes bs n b = ident_ok b (string_of (take n bs))"
  using list_all_nth_upt [of n bs "\<lambda>x. ident_char b (chr_of x)" 0]
  by (auto simp: IsValidIdentifier_bytes_def ident_ok_def Let_def list.pred_map comp_def)

lemma IsValidFieldName_bytes_eq:
  "n \<le> length bs \<Longrightarrow> IsValidFieldName_bytes bs n = field_name_ok (string_of (take n bs))"
  using list_all_nth_upt [of n bs "\<lambda>x. field_char (chr_of x)" 1]
  by (cases bs; cases n)
     (auto simp: IsValidFieldName_bytes_def field_name_ok_def list.pred_map comp_def)

lemma length_Suc_0_iff: "length v = Suc 0 \<longleftrightarrow> (\<exists>x. v = [x])"
  by (cases v) auto

lemma HasExpectedValueSize_eq: "HasExpectedValueSize ty v (length v) = value_ok ty v"
proof (cases "ty = 8")
  case True
  then show ?thesis by (auto simp: HasExpectedValueSize_def value_ok_def length_Suc_0_iff)
next
  case False
  then show ?thesis
    by (auto simp: HasExpectedValueSize_def value_ok_def bytes_value_ok_def Let_def even_iff_mod_2_eq_zero)
qed

subsection \<open>The field loop\<close>

lemma read_field_tlv:
  assumes "read_field_header bs = Some (h, r)"
    and "unat (fh_nameLength h) + unat (fh_valueSize h) \<le> length r"
    and f: "f = Tlv (fh_type h) (take (unat (fh_nameLength h)) r)
       (take (unat (fh_valueSize h)) (drop (unat (fh_nameLength h)) r))"
  shows "bs = enc_field f @ drop (unat (fh_nameLength h) + unat (fh_valueSize h)) r"
    and "tlv_wf f"
proof -
  have "tlv_header f = h" using assms(2) by (simp add: f tlv_header_def)
  moreover have "r = tlv_name f @ tlv_value f @
      drop (unat (fh_nameLength h) + unat (fh_valueSize h)) r"
    by (simp add: f add.commute flip: drop_drop)
  ultimately show "bs = enc_field f @ drop (unat (fh_nameLength h) + unat (fh_valueSize h)) r"
    using read_field_header_Some [OF assms(1)] by (simp add: enc_field_def)
  show "tlv_wf f"
    using unsigned_less [of "fh_valueSize h", where ?'a = nat] assms(2)
    by (simp add: f tlv_wf_def)
qed

lemma parse_fields_loop_sound:
  "parse_fields_loop n bs acc = Some (fs, rest) \<Longrightarrow> fields_ok acc \<Longrightarrow>
   \<exists>gs. fs = acc @ gs \<and> length gs = n \<and> bs = enc_fields gs @ rest \<and>
     (\<forall>g \<in> set gs. tlv_wf g) \<and> fields_ok fs"
proof (induction n arbitrary: bs acc)
  case (Suc n)
  from Suc.prems(1) obtain h r where hr: "read_field_header bs = Some (h, r)"
    by (auto split: option.splits)
  define nl vl where "nl = unat (fh_nameLength h)" and "vl = unat (fh_valueSize h)"
  define f where "f = Tlv (fh_type h) (take nl r) (take vl (drop nl r))"
  have fits: "nl + vl \<le> length r" and name: "IsValidFieldName_bytes r nl"
    and new: "tlv_name f \<notin> tlv_name ` set acc"
    and val: "HasExpectedValueSize (fh_type h) (tlv_value f) vl"
    and rest: "parse_fields_loop n (drop vl (drop nl r)) (acc @ [f]) = Some (fs, rest)"
    using Suc.prems(1) hr
    by (auto simp: Let_def nl_def vl_def f_def list_ex_iff split: if_splits)
  have bs: "bs = enc_field f @ drop (nl + vl) r" and wf: "tlv_wf f"
    using read_field_tlv [OF hr, of f] fits by (simp_all add: nl_def vl_def f_def)
  have "fields_ok (acc @ [f])"
    using Suc.prems(2) name new val fits HasExpectedValueSize_eq [of "fh_type h" "tlv_value f"]
    by (auto simp: fields_ok_def IsValidFieldName_bytes_eq f_def)
  from Suc.IH [OF rest this] obtain gs where "fs = (acc @ [f]) @ gs" "length gs = n"
    "drop vl (drop nl r) = enc_fields gs @ rest" "\<forall>g \<in> set gs. tlv_wf g" "fields_ok fs"
    by blast
  with bs wf show ?case
    by (intro exI [of _ "f # gs"]) (simp add: add.commute)
qed simp

lemma parse_fields_loop_complete:
  "fields_ok (acc @ gs) \<Longrightarrow> \<forall>g \<in> set gs. tlv_wf g \<Longrightarrow>
   parse_fields_loop (length gs) (enc_fields gs @ rest) acc = Some (acc @ gs, rest)"
proof (induction gs arbitrary: acc)
  case (Cons f gs)
  from Cons.prems have wf: "tlv_wf f" by simp
  have ok: "field_name_ok (string_of (tlv_name f))" "value_ok (tlv_type f) (tlv_value f)"
    and new: "\<not> list_ex (\<lambda>x. tlv_name f = tlv_name x) acc"
    using Cons.prems(1) by (auto simp: fields_ok_def list_ex_iff)
  have "parse_fields_loop (length gs) (enc_fields gs @ rest) (acc @ [f]) = Some ((acc @ [f]) @ gs, rest)"
    using Cons.prems by (intro Cons.IH) simp_all
  moreover have "Tlv (tlv_type f) (tlv_name f) (tlv_value f) = f" by simp
  ultimately show ?case
    using ok new HasExpectedValueSize_eq [of "tlv_type f" "tlv_value f"]
    by (simp add: codec_simps tlv_header_lengths [OF wf] IsValidFieldName_bytes_eq Let_def)
qed simp

subsection \<open>The parser is the representation relation\<close>

lemma ParseTraceEvent_iff:
  assumes "length (payload e) = PAYLOAD_BYTES"
  shows "ParseTraceEvent e n = Some (m, a, fs) \<longleftrightarrow>
     n = unat (h_size (header e)) \<and> ev_repr e (bytes_of m) (bytes_of a) fs \<and>
     ident_ok True m \<and> ident_ok False a \<and> fields_ok fs"
  (is "?P \<longleftrightarrow> ?R")
proof
  assume ?P
  define ml al sz where "ml = unat (h_moduleNameLength (header e))"
    and "al = unat (h_apiNameLength (header e))" and "sz = unat (h_size (header e))"
  define c where "c = take (sz - 32) (payload e)"
  note defs = ml_def [symmetric] al_def [symmetric] sz_def [symmetric]
  from \<open>?P\<close> have sz: "n = sz" "sz \<le> 1024" "32 + ml + al \<le> sz"
    and hdr: "h_magic (header e) = TRACE_EVENT_MAGIC" "h_version (header e) = TRACE_EVENT_VERSION"
    and m: "m = string_of (take ml c)" "IsValidIdentifier_bytes c ml True"
    and a: "a = string_of (take al (drop ml c))" "IsValidIdentifier_bytes (drop ml c) al False"
    and fs: "parse_fields_loop (unat (h_fieldCount (header e))) (drop al (drop ml c)) [] = Some (fs, [])"
    by (auto simp: ParseTraceEvent_def Let_def defs c_def split: if_splits option.splits)
  have len: "length c = sz - 32" using assms sz by (simp add: c_def)
  from parse_fields_loop_sound [OF fs] have f: "length fs = unat (h_fieldCount (header e))"
    "drop al (drop ml c) = enc_fields fs" "\<forall>f \<in> set fs. tlv_wf f" "fields_ok fs"
    by (auto simp: fields_ok_def)
  have "c = take ml c @ take al (drop ml c) @ drop al (drop ml c)"
    by (simp only: append_take_drop_id)
  then have "c = take ml c @ take al (drop ml c) @ enc_fields fs"
    by (simp only: f(2))
  then have c: "c = bytes_of m @ bytes_of a @ enc_fields fs" by (simp add: m a)
  have "payload e = c @ drop (sz - 32) (payload e)" by (simp add: c_def)
  moreover have "length m = ml" "length a = al" using len sz by (simp_all add: m a)
  ultimately have "ev_repr e (bytes_of m) (bytes_of a) fs"
    using assms sz hdr f len c
    by (auto simp: ev_repr_def ev_size_def defs)
  moreover have "ident_ok True m" "ident_ok False a"
    using m a len sz by (simp_all add: IsValidIdentifier_bytes_eq)
  ultimately show ?R using sz f by (simp add: defs)
next
  assume R: ?R
  then obtain j where pl: "payload e = bytes_of m @ bytes_of a @ enc_fields fs @ j"
    by (auto simp: ev_repr_def)
  have "take (unat (h_size (header e)) - 32) (payload e) = bytes_of m @ bytes_of a @ enc_fields fs"
    using R by (simp add: ev_repr_def ev_size_def pl)
  moreover have "parse_fields_loop (unat (h_fieldCount (header e))) (enc_fields fs) [] = Some (fs, [])"
    using R parse_fields_loop_complete [of "[]" fs "[]"] by (simp add: ev_repr_def)
  ultimately show ?P
    using R by (auto simp: ParseTraceEvent_def Let_def IsValidIdentifier_bytes_eq ev_repr_def ev_size_def)
qed

lemma IsValidTraceEvent_iff:
  assumes "length (payload e) = PAYLOAD_BYTES"
  shows "IsValidTraceEvent e n \<longleftrightarrow> n = unat (h_size (header e)) \<and>
     (\<exists>m a fs. ev_repr e (bytes_of m) (bytes_of a) fs \<and>
        ident_ok True m \<and> ident_ok False a \<and> fields_ok fs)"
  using ParseTraceEvent_iff [OF assms] by (auto simp: IsValidTraceEvent_def)

subsection \<open>Properties\<close>

text \<open>C15: The parser accepts exactly the valid events. \<open>ParseTraceEvent\<close> returns a module, an
  export and a field list precisely when the received byte count is the event's size, the event
  represents them inside 1024 bytes, both names are valid identifiers, and the fields have
  valid distinct names and values of the size and content their type requires.\<close>

theorem ParseTraceEvent_accepts:
  assumes "length (payload e) = PAYLOAD_BYTES"
  shows "ParseTraceEvent e n = Some (m, a, fs) \<longleftrightarrow>
     n = unat (h_size (header e)) \<and> ev_repr e (bytes_of m) (bytes_of a) fs \<and>
     ident_ok True m \<and> ident_ok False a \<and> fields_ok fs"
  using assms by (rule ParseTraceEvent_iff)

lemma ParseTraceEvent_accepts_witness:
  "ParseTraceEvent \<lparr>header = zero_header\<lparr>h_magic := TRACE_EVENT_MAGIC, h_version := TRACE_EVENT_VERSION,
       h_size := 34, h_moduleNameLength := 1, h_apiNameLength := 1\<rparr>,
     payload = bytes_of ''ab'' @ replicate 990 0\<rparr> 34 = Some (''a'', ''b'', [])"
proof -
  have "ident_ok True ''a''" "ident_ok False ''b''" by code_simp+
  then show ?thesis
    by (subst ParseTraceEvent_accepts) (simp_all add: ev_repr_def ev_size_def zero_header_def fields_ok_def)
qed

text \<open>C5: Builder and parser agree. The event any sequence of builder calls leaves is valid, and
  parsing it gives back the module, the export and exactly the fields the calls built, byte for
  byte and in order.\<close>

theorem build_parse_roundtrip:
  assumes "ident_ok True m" "ident_ok False a" "list_all op_pre xs"
  shows "\<exists>e. run_adds rd xs (snd (InitializeTraceEvent (Some e0) (Some m) (Some a) tid t)) = Some (Some e)
     \<and> IsValidTraceEvent e (unat (h_size (header e)))
     \<and> ParseTraceEvent e (unat (h_size (header e))) = Some (m, a, fst (built rd m a xs))"
proof -
  obtain e where run: "run_adds rd xs (snd (InitializeTraceEvent (Some e0) (Some m) (Some a) tid t))
      = Some (Some e)" and e: "ev_state e (bytes_of m) (bytes_of a) (built rd m a xs)"
    by (rule build_event [OF assms])
  then have "length (payload e) = PAYLOAD_BYTES" by (simp add: ev_state_def ev_repr_def)
  then have "ParseTraceEvent e (unat (h_size (header e))) = Some (m, a, fst (built rd m a xs))"
    using assms e built_fields_ok [of rd m a xs] by (simp add: ParseTraceEvent_iff ev_state_def)
  with run show ?thesis by (auto simp: IsValidTraceEvent_def)
qed

lemma build_parse_roundtrip_witness:
  "\<exists>e. run_adds None [OpBoolean ''ok'' True]
       (snd (InitializeTraceEvent (Some zero_event) (Some ''ntdll.dll'') (Some ''NtClose'') 7 9))
       = Some (Some e) \<and> IsValidTraceEvent e (unat (h_size (header e)))"
proof -
  have "ident_ok True ''ntdll.dll''" "ident_ok False ''NtClose''" by code_simp+
  then show ?thesis
    using build_parse_roundtrip [of "''ntdll.dll''" "''NtClose''" "[OpBoolean ''ok'' True]" None
      zero_event 7 9] by auto
qed

end
