(* ===== verification/Trace_Format.thy ===== *)
theory Trace_Format
  imports Trace_Protocol Trace_Transport
begin

section \<open>Formatting values\<close>

text \<open>
  The formatting helpers of \<open>src/apiscope/trace_renderer.cpp\<close>: numbers as an output stream
  prints them, statuses, pointers, timestamps, hexadecimal previews, JSON escapes and wide
  strings. A string is a list of 8-bit characters. \<open>FileTimeToSystemTime\<close> and
  \<open>WideCharToMultiByte\<close> are parameters.
\<close>

subsection \<open>Numbers in an output stream\<close>

definition digit_char :: "nat \<Rightarrow> char" where
  "digit_char d = char_of (48 + d)"

definition upper_hex :: "nat \<Rightarrow> char" where
  "upper_hex d = char_of (if d < 10 then 48 + d else 55 + d)"

definition lower_hex :: "nat \<Rightarrow> char" where
  "lower_hex d = char_of (if d < 10 then 48 + d else 87 + d)"

fun dec :: "nat \<Rightarrow> string" where
  "dec n = (if n < 10 then [digit_char n] else dec (n div 10) @ [digit_char (n mod 10)])"

fun hex :: "(nat \<Rightarrow> char) \<Rightarrow> nat \<Rightarrow> string" where
  "hex dig n = (if n < 16 then [dig n] else hex dig (n div 16) @ [dig (n mod 16)])"

declare dec.simps [simp del] hex.simps [simp del]

definition dec_int :: "int \<Rightarrow> string" where
  "dec_int i = (if i < 0 then ''-'' @ dec (nat (- i)) else dec (nat i))"

text \<open>\<open>std::setw\<close> with a fill character pads on the left, under \<open>std::left\<close> on the right.\<close>

definition setw :: "nat \<Rightarrow> char \<Rightarrow> string \<Rightarrow> string" where
  "setw width fill s = replicate (width - length s) fill @ s"

definition setw_left :: "nat \<Rightarrow> char \<Rightarrow> string \<Rightarrow> string" where
  "setw_left width fill s = s @ replicate (width - length s) fill"

subsection \<open>Status codes and pointers\<close>

definition HexStatus :: "u32 \<Rightarrow> string" where
  "HexStatus status = ''0x'' @ setw 8 (CHR ''0'') (hex upper_hex (unat status))"

definition FormatPointer :: "u64 \<Rightarrow> string" where
  "FormatPointer pointer = ''0x'' @ setw 16 (CHR ''0'') (hex upper_hex (unat pointer))"

definition StatusName :: "u32 \<Rightarrow> string option" where
  "StatusName status = map_of
     [(0x00000000, ''STATUS_SUCCESS''), (0x00000103, ''STATUS_PENDING''),
      (0x00000104, ''STATUS_REPARSE''), (0x00000105, ''STATUS_MORE_ENTRIES''),
      (0x40000000, ''STATUS_OBJECT_NAME_EXISTS''), (0x80000005, ''STATUS_BUFFER_OVERFLOW''),
      (0x8000000D, ''STATUS_PARTIAL_COPY''), (0x8000001A, ''STATUS_NO_MORE_ENTRIES''),
      (0xC0000001, ''STATUS_UNSUCCESSFUL''), (0xC0000002, ''STATUS_NOT_IMPLEMENTED''),
      (0xC0000008, ''STATUS_INVALID_HANDLE''), (0xC000000D, ''STATUS_INVALID_PARAMETER''),
      (0xC000000F, ''STATUS_NO_SUCH_FILE''), (0xC0000011, ''STATUS_END_OF_FILE''),
      (0xC0000022, ''STATUS_ACCESS_DENIED''), (0xC0000023, ''STATUS_BUFFER_TOO_SMALL''),
      (0xC0000034, ''STATUS_OBJECT_NAME_NOT_FOUND''),
      (0xC0000035, ''STATUS_OBJECT_NAME_COLLISION''),
      (0xC000003A, ''STATUS_OBJECT_PATH_NOT_FOUND''), (0xC0000043, ''STATUS_SHARING_VIOLATION''),
      (0xC0000061, ''STATUS_PRIVILEGE_NOT_HELD''), (0xC00000BA, ''STATUS_FILE_IS_A_DIRECTORY''),
      (0xC0000103, ''STATUS_NOT_A_DIRECTORY''), (0xC0000120, ''STATUS_CANCELLED''),
      (0xC0000225, ''STATUS_NOT_FOUND'')] status"

definition FormatStatus :: "u32 \<Rightarrow> string" where
  "FormatStatus status =
     (case StatusName status of
        Some name \<Rightarrow> name @ '' ('' @ HexStatus status @ '')''
      | None \<Rightarrow> HexStatus status)"

subsection \<open>Timestamps\<close>

record system_time =
  wYear :: u16
  wMonth :: u16
  wDay :: u16
  wHour :: u16
  wMinute :: u16
  wSecond :: u16

type_synonym to_system_time = "u64 \<Rightarrow> system_time option"

definition FormatTimestamp :: "to_system_time \<Rightarrow> u64 \<Rightarrow> string" where
  "FormatTimestamp fileTimeToSystemTime timestamp100ns =
     (if timestamp100ns = 0 then ''unavailable''
      else case fileTimeToSystemTime timestamp100ns of
        None \<Rightarrow> ''invalid''
      | Some st \<Rightarrow>
          setw 4 (CHR ''0'') (dec (unat (wYear st))) @ ''-'' @
          setw 2 (CHR ''0'') (dec (unat (wMonth st))) @ ''-'' @
          setw 2 (CHR ''0'') (dec (unat (wDay st))) @ ''T'' @
          setw 2 (CHR ''0'') (dec (unat (wHour st))) @ '':'' @
          setw 2 (CHR ''0'') (dec (unat (wMinute st))) @ '':'' @
          setw 2 (CHR ''0'') (dec (unat (wSecond st))) @ ''.'' @
          setw 7 (CHR ''0'') (dec (unat (timestamp100ns mod 10000000))) @ ''Z'')"

subsection \<open>Bytes and text\<close>

fun hex_bytes_loop :: "byte list \<Rightarrow> bool \<Rightarrow> nat \<Rightarrow> string" where
  "hex_bytes_loop [] spaced index = []"
| "hex_bytes_loop (b # bytes) spaced index =
     (if spaced \<and> index \<noteq> 0 then '' '' else []) @
     setw 2 (CHR ''0'') (hex upper_hex (unat b)) @ hex_bytes_loop bytes spaced (Suc index)"

definition HexBytes :: "byte list \<Rightarrow> bool \<Rightarrow> string" where
  "HexBytes bytes spaced = hex_bytes_loop bytes spaced 0"

definition json_escape_char :: "char \<Rightarrow> string" where
  "json_escape_char c =
     (if c = CHR 0x22 then [CHR 0x5C, CHR 0x22]
      else if c = CHR 0x5C then [CHR 0x5C, CHR 0x5C]
      else if c = CHR 0x08 then [CHR 0x5C, CHR ''b'']
      else if c = CHR 0x0C then [CHR 0x5C, CHR ''f'']
      else if c = CHR 0x0A then [CHR 0x5C, CHR ''n'']
      else if c = CHR 0x0D then [CHR 0x5C, CHR ''r'']
      else if c = CHR 0x09 then [CHR 0x5C, CHR ''t'']
      else if of_char c < (0x20 :: nat) then
        [CHR 0x5C, CHR ''u''] @ setw 4 (CHR ''0'') (hex lower_hex (of_char c))
      else [c])"

definition JsonEscape :: "string \<Rightarrow> string" where
  "JsonEscape input = concat (map json_escape_char input)"

definition PreviewText :: "byte list \<Rightarrow> string" where
  "PreviewText bytes = map (\<lambda>b. if 32 \<le> b \<and> b \<le> 126 then chr_of b else CHR ''.'') bytes"

text \<open>The UTF-8 conversion gives the bytes it would store, or \<open>None\<close> when it fails.\<close>

type_synonym to_utf8 = "wstring \<Rightarrow> string option"

definition WideToUtf8 :: "to_utf8 \<Rightarrow> byte list \<Rightarrow> string" where
  "WideToUtf8 wideCharToMultiByte value =
     (if length value < 2 then []
      else case wideCharToMultiByte (wchars value) of
        None \<Rightarrow> [] | Some utf8 \<Rightarrow> utf8)"

subsection \<open>Reading numbers back\<close>

definition digit_val :: "char \<Rightarrow> nat" where
  "digit_val c = of_char c - 48"

definition hex_val :: "char \<Rightarrow> nat" where
  "hex_val c = (let n = of_char c in if n < 58 then n - 48 else if n < 71 then n - 55 else n - 87)"

definition read_dec :: "string \<Rightarrow> nat" where
  "read_dec s = foldl (\<lambda>a c. 10 * a + digit_val c) 0 s"

definition read_hex :: "string \<Rightarrow> nat" where
  "read_hex s = foldl (\<lambda>a c. 16 * a + hex_val c) 0 s"

lemma of_char_digit [simp]: "d < 10 \<Longrightarrow> of_char (digit_char d) = 48 + d"
  by (simp add: digit_char_def)

lemma digit_val_digit [simp]: "d < 10 \<Longrightarrow> digit_val (digit_char d) = d"
  by (simp add: digit_val_def)

lemma hex_val_upper [simp]: "d < 16 \<Longrightarrow> hex_val (upper_hex d) = d"
  by (auto simp: hex_val_def upper_hex_def Let_def)

lemma hex_val_lower [simp]: "d < 16 \<Longrightarrow> hex_val (lower_hex d) = d"
  by (auto simp: hex_val_def lower_hex_def Let_def)

lemma is_digit_of_char: "is_digit c \<longleftrightarrow> 48 \<le> (of_char c :: nat) \<and> (of_char c :: nat) \<le> 57"
  by (simp add: is_digit_def less_eq_char_def)

lemma read_dec_append1: "read_dec (s @ [c]) = 10 * read_dec s + digit_val c"
  by (simp add: read_dec_def)

lemma read_hex_append1: "read_hex (s @ [c]) = 16 * read_hex s + hex_val c"
  by (simp add: read_hex_def)

lemma read_dec_dec [simp]: "read_dec (dec n) = n"
proof (induction n rule: dec.induct)
  case (1 n)
  show ?case
  proof (cases "n < 10")
    case True
    then show ?thesis by (simp add: dec.simps [of n] read_dec_def)
  next
    case False
    then show ?thesis using 1 by (simp add: dec.simps [of n] read_dec_append1)
  qed
qed

lemma read_hex_hex:
  assumes "\<And>d. d < 16 \<Longrightarrow> hex_val (dig d) = d"
  shows "read_hex (hex dig n) = n"
proof (induction n rule: less_induct)
  case (less n)
  show ?case
  proof (cases "n < 16")
    case True
    then show ?thesis by (simp add: hex.simps [of dig n] read_hex_def assms)
  next
    case False
    then show ?thesis using less by (simp add: hex.simps [of dig n] read_hex_append1 assms)
  qed
qed

lemma dec_digits: "list_all is_digit (dec n)"
proof (induction n rule: dec.induct)
  case (1 n)
  then show ?case by (cases "n < 10") (simp_all add: dec.simps [of n] is_digit_of_char)
qed

lemma dec_not_Nil [simp]: "dec n \<noteq> []"
  by (simp add: dec.simps)

lemma length_hex: "k > 0 \<Longrightarrow> n < 16 ^ k \<Longrightarrow> length (hex dig n) \<le> k"
proof (induction k arbitrary: n)
  case (Suc k)
  show ?case
  proof (cases "n < 16")
    case False
    then have "k > 0" using Suc.prems by (cases k) simp_all
    moreover have "n div 16 < 16 ^ k" using Suc.prems by (simp add: less_mult_imp_div_less mult.commute)
    ultimately show ?thesis using False Suc.IH by (simp add: hex.simps [of dig n])
  qed (simp add: hex.simps [of dig n])
qed simp

lemma length_setw: "length s \<le> w \<Longrightarrow> length (setw w c s) = w"
  by (simp add: setw_def)

lemma read_hex_setw [simp]: "read_hex (setw w (CHR ''0'') s) = read_hex s"
proof -
  have "foldl (\<lambda>a c. 16 * a + hex_val c) 0 (replicate k (CHR ''0'')) = 0" for k
    by (induction k) (simp_all add: hex_val_def)
  then show ?thesis by (simp add: read_hex_def setw_def)
qed

lemma read_dec_setw [simp]: "read_dec (setw w (CHR ''0'') s) = read_dec s"
proof -
  have "foldl (\<lambda>a c. 10 * a + digit_val c) 0 (replicate k (CHR ''0'')) = 0" for k
    by (induction k) (simp_all add: digit_val_def)
  then show ?thesis by (simp add: read_dec_def setw_def)
qed

end
