(* ===== verification/Json.thy ===== *)
theory Json
  imports Trace_Format
begin

section \<open>A reference reader for the JSON the renderer emits\<close>

text \<open>
  The abstract side of the JSONL output: JSON values (strings, integers, booleans, objects),
  their compact printing with the program's own \<open>JsonEscape\<close> and \<open>dec\<close>, and a reader of the
  JSON grammar that knows nothing of the printer. The reader is proved to return every printed
  value, so whatever is shown to be a printed value is well-formed JSON with that content. The
  reader takes fuel for the nesting of objects; the size of the value is enough.
\<close>

datatype json =
    JString string
  | JNumber int
  | JBool bool
  | JObject "(string \<times> json) list"

fun print_json :: "json \<Rightarrow> string" and print_members :: "(string \<times> json) list \<Rightarrow> string" where
  "print_json (JString s) = CHR 0x22 # JsonEscape s @ [CHR 0x22]"
| "print_json (JNumber i) = dec_int i"
| "print_json (JBool b) = (if b then ''true'' else ''false'')"
| "print_json (JObject ms) = ''{'' @ print_members ms @ ''}''"
| "print_members [] = []"
| "print_members ((k, v) # ms) = CHR 0x22 # JsonEscape k @ [CHR 0x22, CHR '':''] @ print_json v @
     (if ms = [] then [] else CHR '','' # print_members ms)"

subsection \<open>The reader\<close>

fun unescape :: "char \<Rightarrow> char option" where
  "unescape c =
     (if c = CHR 0x22 \<or> c = CHR 0x5C \<or> c = CHR ''/'' then Some c
      else if c = CHR ''b'' then Some (CHR 0x08)
      else if c = CHR ''f'' then Some (CHR 0x0C)
      else if c = CHR ''n'' then Some (CHR 0x0A)
      else if c = CHR ''r'' then Some (CHR 0x0D)
      else if c = CHR ''t'' then Some (CHR 0x09)
      else None)"

definition is_hex :: "char \<Rightarrow> bool" where
  "is_hex c \<longleftrightarrow> is_digit c \<or> (CHR ''a'' \<le> c \<and> c \<le> CHR ''f'') \<or> (CHR ''A'' \<le> c \<and> c \<le> CHR ''F'')"

text \<open>
  The rest of a string after its opening quote. Raw control characters are rejected; a
  four-digit escape is read when it names an ASCII character, the only ones the code emits.
\<close>

fun read_string :: "string \<Rightarrow> (string \<times> string) option" where
  "read_string [] = None"
| "read_string (c # cs) =
     (if c = CHR 0x22 then Some ([], cs)
      else if of_char c < (0x20 :: nat) then None
      else if c \<noteq> CHR 0x5C then map_option (apfst (Cons c)) (read_string cs)
      else (case cs of [] \<Rightarrow> None
        | e # cs' \<Rightarrow>
            if e = CHR ''u'' then
              (case cs' of
                 h1 # h2 # h3 # h4 # rest \<Rightarrow>
                   if list_all is_hex [h1, h2, h3, h4] \<and> read_hex [h1, h2, h3, h4] < 128
                   then map_option (apfst (Cons (char_of (read_hex [h1, h2, h3, h4]))))
                     (read_string rest)
                   else None
               | _ \<Rightarrow> None)
            else (case unescape e of None \<Rightarrow> None
              | Some d \<Rightarrow> map_option (apfst (Cons d)) (read_string cs'))))"

definition read_number :: "string \<Rightarrow> (int \<times> string) option" where
  "read_number cs =
     (let neg = (cs \<noteq> [] \<and> hd cs = CHR ''-''); ds = (if neg then tl cs else cs);
          n = takeWhile is_digit ds
      in if n = [] \<or> (hd n = CHR ''0'' \<and> length n > 1) then None
         else Some (if neg then - int (read_dec n) else int (read_dec n), dropWhile is_digit ds))"

fun strip_prefix :: "string \<Rightarrow> string \<Rightarrow> string option" where
  "strip_prefix [] cs = Some cs"
| "strip_prefix (p # ps) [] = None"
| "strip_prefix (p # ps) (c # cs) = (if p = c then strip_prefix ps cs else None)"

fun read_json :: "nat \<Rightarrow> string \<Rightarrow> (json \<times> string) option"
and read_members :: "nat \<Rightarrow> string \<Rightarrow> ((string \<times> json) list \<times> string) option" where
  "read_json 0 cs = None"
| "read_json (Suc fuel) [] = None"
| "read_json (Suc fuel) (c # cs) =
     (if c = CHR 0x22 then map_option (apfst JString) (read_string cs)
      else if c = CHR ''{'' then
        (case cs of [] \<Rightarrow> None
         | d # cs' \<Rightarrow> if d = CHR ''}'' then Some (JObject [], cs')
             else map_option (apfst JObject) (read_members fuel cs))
      else if c = CHR ''t'' then map_option (Pair (JBool True)) (strip_prefix ''rue'' cs)
      else if c = CHR ''f'' then map_option (Pair (JBool False)) (strip_prefix ''alse'' cs)
      else map_option (apfst JNumber) (read_number (c # cs)))"
| "read_members 0 cs = None"
| "read_members (Suc fuel) cs =
     do { cs \<leftarrow> strip_prefix [CHR 0x22] cs;
          (k, cs) \<leftarrow> read_string cs;
          cs \<leftarrow> strip_prefix '':'' cs;
          (v, cs) \<leftarrow> read_json fuel cs;
          (case cs of [] \<Rightarrow> None
           | c # cs \<Rightarrow>
               if c = CHR ''}'' then Some ([(k, v)], cs)
               else if c = CHR '','' then map_option (apfst (Cons (k, v))) (read_members fuel cs)
               else None) }"

subsection \<open>Strings\<close>

lemma hex_low: "n < 32 \<Longrightarrow> setw 4 (CHR ''0'') (hex lower_hex n)
     = [CHR ''0'', CHR ''0'', lower_hex (n div 16), lower_hex (n mod 16)]"
proof -
  assume n: "n < 32"
  show ?thesis
  proof (cases "n < 16")
    case True
    moreover have "lower_hex 0 = CHR ''0''" by code_simp
    ultimately show ?thesis by (simp add: hex.simps [of _ n] setw_def numeral_3_eq_3)
  next
    case False
    moreover have "n div 16 < 16" using n by (simp add: less_mult_imp_div_less)
    ultimately have "hex lower_hex n = [lower_hex (n div 16), lower_hex (n mod 16)]"
      using hex.simps [of lower_hex "n div 16"] hex.simps [of lower_hex n] by simp
    then show ?thesis by (simp add: setw_def numeral_2_eq_2)
  qed
qed

lemma is_hex_lower: "d < 16 \<Longrightarrow> is_hex (lower_hex d)"
  by (auto simp: is_hex_def is_digit_def less_eq_char_def lower_hex_def)

lemma read_escape_char: "read_string (json_escape_char c @ cs) = map_option (apfst (Cons c)) (read_string cs)"
proof (cases "c \<in> {CHR 0x22, CHR 0x5C, CHR 0x08, CHR 0x0C, CHR 0x0A, CHR 0x0D, CHR 0x09}")
  case True
  then show ?thesis by (auto simp: json_escape_char_def)
next
  case plain: False
  show ?thesis
  proof (cases "of_char c < (0x20 :: nat)")
    case True
    define n where "n = (of_char c :: nat)"
    have "read_hex [CHR ''0'', CHR ''0'', lower_hex (n div 16), lower_hex (n mod 16)] = n"
      using True by (simp add: read_hex_def n_def) (simp add: hex_val_def)
    moreover have "is_hex (lower_hex (n div 16))" "is_hex (lower_hex (n mod 16))" "is_hex (CHR ''0'')"
      using True by (simp_all add: n_def is_hex_lower) (simp add: is_hex_def is_digit_def less_eq_char_def)
    moreover have "char_of n = c" by (simp add: n_def)
    ultimately show ?thesis
      using plain True hex_low [of n] by (simp add: json_escape_char_def n_def)
  next
    case False
    then show ?thesis using plain by (simp add: json_escape_char_def)
  qed
qed

lemma read_JsonEscape:
  "read_string (JsonEscape s @ CHR 0x22 # rest) = Some (s, rest)"
proof (induction s)
  case (Cons c s)
  then show ?case by (simp add: JsonEscape_def read_escape_char)
qed (simp add: JsonEscape_def)

lemma JsonEscape_id:
  "list_all (\<lambda>c. c \<noteq> CHR 0x22 \<and> c \<noteq> CHR 0x5C \<and> (0x20 :: nat) \<le> of_char c) s \<Longrightarrow> JsonEscape s = s"
proof (induction s)
  case (Cons c s)
  then have "json_escape_char c = [c]" by (auto simp: json_escape_char_def)
  with Cons show ?case by (simp add: JsonEscape_def)
qed (simp add: JsonEscape_def)

lemma JsonEscape_printable: "c \<in> set (JsonEscape s) \<Longrightarrow> (0x20 :: nat) \<le> of_char c"
proof -
  have "(0x20 :: nat) \<le> of_char d" if "d \<in> set (json_escape_char b)" for b d
    using that
    by (auto simp: json_escape_char_def hex_low lower_hex_def split: if_splits)
  then show "c \<in> set (JsonEscape s) \<Longrightarrow> (0x20 :: nat) \<le> of_char c"
    by (auto simp: JsonEscape_def)
qed

subsection \<open>Numbers\<close>

lemma dec_no_leading_zero: "n \<noteq> 0 \<Longrightarrow> hd (dec n) \<noteq> CHR ''0''"
proof (induction n rule: dec.induct)
  case (1 n)
  show ?case
  proof (cases "n < 10")
    case True
    then have "of_char (digit_char n) \<noteq> (48 :: nat)" using "1.prems" by simp
    then have "digit_char n \<noteq> CHR ''0''" by auto
    with True show ?thesis by (simp add: dec.simps [of n])
  next
    case False
    then show ?thesis using 1 by (simp add: dec.simps [of n])
  qed
qed

lemma dec_zero: "hd (dec n) = CHR ''0'' \<Longrightarrow> length (dec n) = 1"
  using dec_no_leading_zero [of n] by (cases "n = 0") (auto simp: dec.simps [of 0])

lemma takeWhile_digits:
  assumes "list_all P xs" "rest = [] \<or> \<not> P (hd rest)"
  shows "takeWhile P (xs @ rest) = xs" "dropWhile P (xs @ rest) = rest"
  using assms by (induction xs) (auto intro: takeWhile_eq_Nil_iff [THEN iffD2] simp: dropWhile_eq_self_iff)

lemma read_dec_int:
  assumes "rest = [] \<or> \<not> is_digit (hd rest)"
  shows "read_number (dec_int i @ rest) = Some (i, rest)"
proof -
  note tw = takeWhile_digits [OF dec_digits assms]
  have first: "hd (dec n @ rest) \<noteq> CHR ''-''" for n
  proof -
    have "is_digit (hd (dec n))" using dec_digits [of n] by (cases "dec n") auto
    then show ?thesis by (auto simp: is_digit_def)
  qed
  show ?thesis
    using first dec_zero by (auto simp: read_number_def dec_int_def tw Let_def)
qed

lemma dec_int_first: "\<exists>c cs. dec_int i = c # cs \<and> (c = CHR ''-'' \<or> is_digit c)"
proof -
  have "\<exists>c cs. dec n = c # cs \<and> is_digit c" for n
    using dec_digits [of n] by (cases "dec n") auto
  then show ?thesis unfolding dec_int_def by (cases "i < 0") (simp, metis)
qed

subsection \<open>Reading a printed value\<close>

lemma strip_prefix_append [simp]: "strip_prefix ps (ps @ cs) = Some cs"
  by (induction ps) simp_all

fun json_size :: "json \<Rightarrow> nat" and members_size :: "(string \<times> json) list \<Rightarrow> nat" where
  "json_size (JString s) = 1"
| "json_size (JNumber i) = 1"
| "json_size (JBool b) = 1"
| "json_size (JObject ms) = Suc (members_size ms)"
| "members_size [] = 0"
| "members_size ((k, v) # ms) = Suc (json_size v + members_size ms)"

definition ends_value :: "string \<Rightarrow> bool" where
  "ends_value rest \<longleftrightarrow> rest = [] \<or> \<not> is_digit (hd rest)"

lemma ends_value_simps [simp]:
  "ends_value []" "ends_value (CHR ''}'' # cs)" "ends_value (CHR '','' # cs)"
  by (simp_all add: ends_value_def is_digit_def less_eq_char_def)

lemma read_print_json:
  "json_size j \<le> fuel \<Longrightarrow> ends_value rest \<Longrightarrow> read_json fuel (print_json j @ rest) = Some (j, rest)"
  and read_print_members:
  "members_size ms \<le> fuel \<Longrightarrow> ms \<noteq> [] \<Longrightarrow>
   read_members fuel (print_members ms @ CHR ''}'' # rest) = Some (ms, rest)"
proof (induction j and ms arbitrary: fuel rest and fuel rest rule: print_json_print_members.induct)
  case (1 s)
  then show ?case by (cases fuel) (simp_all add: read_JsonEscape)
next
  case (2 i)
  obtain c cs where i: "dec_int i = c # cs" and c: "c = CHR ''-'' \<or> is_digit c"
    using dec_int_first by blast
  have "c \<noteq> CHR 0x22" "c \<noteq> CHR ''{''" "c \<noteq> CHR ''t''" "c \<noteq> CHR ''f''"
    using c by (auto simp: is_digit_def)
  with 2 i show ?case
    using read_dec_int [of rest i] by (cases fuel) (simp_all add: ends_value_def)
next
  case (3 b)
  then show ?case
    using strip_prefix_append [of "''rue''" rest] strip_prefix_append [of "''alse''" rest]
    by (cases fuel) simp_all
next
  case (4 ms)
  show ?case
  proof (cases ms)
    case Nil
    then show ?thesis using 4 by (cases fuel) simp_all
  next
    case (Cons m ms')
    obtain f where f: "fuel = Suc f" using "4.prems" by (cases fuel) auto
    obtain k v where m: "m = (k, v)" by (cases m)
    have "read_members f (print_members ms @ CHR ''}'' # rest) = Some (ms, rest)"
      using 4 f Cons by simp
    then show ?thesis using f by (simp add: Cons m)
  qed
next
  case 5
  then show ?case by simp
next
  case (6 k v ms)
  obtain f where f: "fuel = Suc f" using "6.prems" by (cases fuel) auto
  let ?tail = "if ms = [] then CHR ''}'' # rest else CHR '','' # print_members ms @ CHR ''}'' # rest"
  have "read_json f (print_json v @ ?tail) = Some (v, ?tail)"
    using 6 f by (intro "6.IH"(1)) auto
  moreover have "ms \<noteq> [] \<Longrightarrow> read_members f (print_members ms @ CHR ''}'' # rest) = Some (ms, rest)"
    using 6 f by (intro "6.IH"(2)) auto
  ultimately show ?case
    using f by (cases "ms = []") (simp_all add: read_JsonEscape)
qed

end
