(* ===== verification/Trace_Renderer.thy ===== *)
theory Trace_Renderer
  imports Trace_Parser Json
begin

section \<open>Rendering events as text and JSON lines\<close>

text \<open>
  \<open>RenderTraceEventText\<close> and \<open>RenderTraceEventJsonl\<close> of \<open>src/apiscope/trace_renderer.cpp\<close>.
  The output stream is only appended to, so a renderer is the string it appends. An event the
  parser rejects renders as nothing.
\<close>

definition TRACE_JSON_SCHEMA_VERSION :: nat where
  "TRACE_JSON_SCHEMA_VERSION = 1"

definition kColorReset :: string where
  "kColorReset = CHR 0x1B # ''[0m''"

definition kColorApi :: string where
  "kColorApi = CHR 0x1B # ''[36;1m''"

definition kColorOk :: string where
  "kColorOk = CHR 0x1B # ''[32m''"

definition kColorError :: string where
  "kColorError = CHR 0x1B # ''[31m''"

definition kColorPath :: string where
  "kColorPath = CHR 0x1B # ''[32m''"

definition kColorDim :: string where
  "kColorDim = CHR 0x1B # ''[2m''"

definition PutColor :: "bool \<Rightarrow> string \<Rightarrow> string" where
  "PutColor useColor code = (if useColor then code else [])"

abbreviation tlv_string :: "tlv \<Rightarrow> string" where
  "tlv_string f \<equiv> string_of (tlv_name f)"

definition ReadUInt32 :: "byte list \<Rightarrow> u32" where
  "ReadUInt32 value = of_le (take 4 value)"

definition ReadUInt64 :: "byte list \<Rightarrow> u64" where
  "ReadUInt64 value = of_le (take 8 value)"

subsection \<open>Text\<close>

definition has_flag :: "trace_event \<Rightarrow> u16 \<Rightarrow> bool" where
  "has_flag event flag \<longleftrightarrow> and (h_flags (header event)) flag \<noteq> 0"

fun label_width_loop :: "tlv list \<Rightarrow> nat \<Rightarrow> nat" where
  "label_width_loop [] width = width"
| "label_width_loop (field # fs) width =
     (let width = max width (length (tlv_string field));
          width = (if tlv_type field = tf_code TraceFieldBytes
            then max (max width (length (tlv_string field) + length ''_ascii''))
                   (length (tlv_string field) + length ''_status'')
            else width)
      in label_width_loop fs width)"

definition TextLabelWidth :: "tlv list \<Rightarrow> trace_event \<Rightarrow> nat" where
  "TextLabelWidth fs event =
     (let width = label_width_loop fs (length ''timestamp'');
          width = (if has_flag event TraceEventFlagTruncated then max width (length ''truncated'') else width)
      in if has_flag event TraceEventFlagFieldError then max width (length ''field_error'') else width)"

definition RenderTextLabel :: "string \<Rightarrow> nat \<Rightarrow> string" where
  "RenderTextLabel name width = ''    '' @ setw_left width (CHR '' '') name @ '': ''"

definition status_color :: "u32 \<Rightarrow> string" where
  "status_color status = (if NT_SUCCESS status then kColorOk else kColorError)"

definition RenderBytesText :: "tlv \<Rightarrow> nat \<Rightarrow> bool \<Rightarrow> string" where
  "RenderBytesText field labelWidth useColor =
     (let bytes = read_bytes_header (tlv_value field);
          captured = unat (bh_captured bytes);
          preview = take captured (drop SIZEOF_BYTES_HEADER (tlv_value field));
          truncated = bh_captured bytes < bh_requested bytes
      in RenderTextLabel (tlv_string field @ ''_hex'') labelWidth @
         HexBytes preview True @ (if truncated then '' ...'' else []) @ [CHR 0x0A] @
         RenderTextLabel (tlv_string field @ ''_ascii'') labelWidth @
         PreviewText preview @ (if truncated then ''...'' else []) @ [CHR 0x0A] @
         RenderTextLabel (tlv_string field @ ''_size'') labelWidth @
         dec captured @ '' of '' @ dec (unat (bh_requested bytes)) @ '' bytes'' @ [CHR 0x0A] @
         RenderTextLabel (tlv_string field @ ''_status'') labelWidth @
         PutColor useColor (status_color (bh_captureStatus bytes)) @
         FormatStatus (bh_captureStatus bytes) @ PutColor useColor kColorReset @ [CHR 0x0A])"

definition text_value :: "to_utf8 \<Rightarrow> byte \<Rightarrow> byte list \<Rightarrow> bool \<Rightarrow> string" where
  "text_value cv ty value useColor =
     (if ty = tf_code TraceFieldPointer then FormatPointer (ReadUInt64 value)
      else if ty = tf_code TraceFieldUInt32 then dec (unat (ReadUInt32 value))
      else if ty = tf_code TraceFieldUInt64 then dec (unat (ReadUInt64 value))
      else if ty = tf_code TraceFieldInt32 then dec_int (sint (ReadUInt32 value))
      else if ty = tf_code TraceFieldInt64 then dec_int (sint (ReadUInt64 value))
      else if ty = tf_code TraceFieldBoolean then (if value ! 0 \<noteq> 0 then ''true'' else ''false'')
      else if ty = tf_code TraceFieldStatus then
        PutColor useColor (status_color (ReadUInt32 value)) @ FormatStatus (ReadUInt32 value) @
        PutColor useColor kColorReset
      else if ty = tf_code TraceFieldWideString then
        PutColor useColor kColorPath @ WideToUtf8 cv value @ PutColor useColor kColorReset
      else ''type_'' @ dec (unat ty) @ '' '' @ HexBytes value True)"

definition text_field :: "to_utf8 \<Rightarrow> nat \<Rightarrow> bool \<Rightarrow> tlv \<Rightarrow> string" where
  "text_field cv labelWidth useColor field =
     (if tlv_type field = tf_code TraceFieldBytes then RenderBytesText field labelWidth useColor
      else RenderTextLabel (tlv_string field) labelWidth @
        text_value cv (tlv_type field) (tlv_value field) useColor @ [CHR 0x0A])"

definition dim_line :: "string \<Rightarrow> nat \<Rightarrow> bool \<Rightarrow> string \<Rightarrow> string" where
  "dim_line name labelWidth useColor body =
     RenderTextLabel name labelWidth @ PutColor useColor kColorDim @ body @
     PutColor useColor kColorReset @ [CHR 0x0A]"

definition RenderTraceEventText :: "to_system_time \<Rightarrow> to_utf8 \<Rightarrow> trace_event \<Rightarrow> bool \<Rightarrow> string" where
  "RenderTraceEventText ft cv event useColor =
     (case ParseTraceEvent event (unat (h_size (header event))) of None \<Rightarrow> []
      | Some (moduleName, apiName, fs) \<Rightarrow>
         (let labelWidth = TextLabelWidth fs event
          in CHR 0x0A # ''[*] '' @ PutColor useColor kColorApi @ moduleName @ ''!'' @ apiName @
             PutColor useColor kColorReset @ '' ----------'' @ [CHR 0x0A] @
             dim_line ''timestamp'' labelWidth useColor (FormatTimestamp ft (h_timestamp100ns (header event))) @
             dim_line ''thread_id'' labelWidth useColor (dec (unat (h_threadId (header event)))) @
             dim_line ''sequence'' labelWidth useColor (dec (unat (h_sequence (header event)))) @
             concat (map (text_field cv labelWidth useColor) fs) @
             (if has_flag event TraceEventFlagTruncated
              then RenderTextLabel ''truncated'' labelWidth @ ''true'' @ [CHR 0x0A] else []) @
             (if has_flag event TraceEventFlagFieldError
              then RenderTextLabel ''field_error'' labelWidth @ ''true'' @ [CHR 0x0A] else [])))"

subsection \<open>JSON lines\<close>

abbreviation quoted :: "string \<Rightarrow> string" where
  "quoted s \<equiv> CHR 0x22 # s @ [CHR 0x22]"

definition jsonl_value :: "to_utf8 \<Rightarrow> byte \<Rightarrow> byte list \<Rightarrow> string" where
  "jsonl_value cv ty value =
     (if ty = tf_code TraceFieldPointer then quoted (FormatPointer (ReadUInt64 value))
      else if ty = tf_code TraceFieldUInt64 then dec (unat (ReadUInt64 value))
      else if ty = tf_code TraceFieldUInt32 then dec (unat (ReadUInt32 value))
      else if ty = tf_code TraceFieldInt32 then dec_int (sint (ReadUInt32 value))
      else if ty = tf_code TraceFieldInt64 then dec_int (sint (ReadUInt64 value))
      else if ty = tf_code TraceFieldBoolean then (if value ! 0 \<noteq> 0 then ''true'' else ''false'')
      else if ty = tf_code TraceFieldStatus then quoted (FormatStatus (ReadUInt32 value))
      else if ty = tf_code TraceFieldWideString then quoted (JsonEscape (WideToUtf8 cv value))
      else if ty = tf_code TraceFieldBytes then
        (let bytes = read_bytes_header value;
             preview = take (unat (bh_captured bytes)) (drop SIZEOF_BYTES_HEADER value)
         in ''{'' @ quoted ''type'' @ '':'' @ quoted ''bytes'' @
            '','' @ quoted ''requested'' @ '':'' @ dec (unat (bh_requested bytes)) @
            '','' @ quoted ''captured'' @ '':'' @ dec (unat (bh_captured bytes)) @
            '','' @ quoted ''status'' @ '':'' @ quoted (FormatStatus (bh_captureStatus bytes)) @
            '','' @ quoted ''hex'' @ '':'' @ quoted (HexBytes preview False) @
            '','' @ quoted ''ascii'' @ '':'' @ quoted (JsonEscape (PreviewText preview)) @ ''}'')
      else ''{'' @ quoted ''type'' @ '':'' @ quoted (''unknown_'' @ dec (unat ty)) @
           '','' @ quoted ''hex'' @ '':'' @ quoted (HexBytes value False) @ ''}'')"

fun jsonl_fields :: "to_utf8 \<Rightarrow> tlv list \<Rightarrow> nat \<Rightarrow> string" where
  "jsonl_fields cv [] index = []"
| "jsonl_fields cv (field # fs) index =
     (if index \<noteq> 0 then '','' else []) @ quoted (tlv_string field) @ '':'' @
     jsonl_value cv (tlv_type field) (tlv_value field) @ jsonl_fields cv fs (Suc index)"

definition json_bool :: "bool \<Rightarrow> string" where
  "json_bool b = (if b then ''true'' else ''false'')"

definition RenderTraceEventJsonl :: "to_system_time \<Rightarrow> to_utf8 \<Rightarrow> trace_event \<Rightarrow> string" where
  "RenderTraceEventJsonl ft cv event =
     (case ParseTraceEvent event (unat (h_size (header event))) of None \<Rightarrow> []
      | Some (moduleName, apiName, fs) \<Rightarrow>
          ''{'' @ quoted ''schema_version'' @ '':'' @ dec TRACE_JSON_SCHEMA_VERSION @
          '','' @ quoted ''sequence'' @ '':'' @ dec (unat (h_sequence (header event))) @
          '','' @ quoted ''timestamp'' @ '':'' @ quoted (FormatTimestamp ft (h_timestamp100ns (header event))) @
          '','' @ quoted ''timestamp_100ns'' @ '':'' @ dec (unat (h_timestamp100ns (header event))) @
          '','' @ quoted ''thread_id'' @ '':'' @ dec (unat (h_threadId (header event))) @
          '','' @ quoted ''module'' @ '':'' @ quoted (JsonEscape moduleName) @
          '','' @ quoted ''api'' @ '':'' @ quoted (JsonEscape apiName) @
          '','' @ quoted ''hook'' @ '':'' @ quoted (JsonEscape (moduleName @ ''!'' @ apiName)) @
          '','' @ quoted ''truncated'' @ '':'' @ json_bool (has_flag event TraceEventFlagTruncated) @
          '','' @ quoted ''field_error'' @ '':'' @ json_bool (has_flag event TraceEventFlagFieldError) @
          '','' @ quoted ''fields'' @ '':{'' @ jsonl_fields cv fs 0 @ ''}}'' @ [CHR 0x0A])"

subsection \<open>Characters that need no escape\<close>

definition plain :: "char \<Rightarrow> bool" where
  "plain c \<longleftrightarrow> (0x20 :: nat) \<le> of_char c \<and> of_char c \<le> (126 :: nat) \<and> c \<noteq> CHR 0x22 \<and> c \<noteq> CHR 0x5C"

lemma JsonEscape_plain: "list_all plain s \<Longrightarrow> JsonEscape s = s"
  by (rule JsonEscape_id) (auto simp: list_all_iff plain_def)

lemma plain_digit: "is_digit c \<Longrightarrow> plain c"
  by (auto simp: plain_def is_digit_of_char)

lemma plain_dec [simp]: "list_all plain (dec n)"
  using dec_digits [of n] plain_digit by (auto simp: list_all_iff)

lemma plain_char_of: "32 \<le> (n :: nat) \<Longrightarrow> n \<le> 126 \<Longrightarrow> n \<noteq> 34 \<Longrightarrow> n \<noteq> 92 \<Longrightarrow> plain (char_of n)"
proof -
  assume n: "32 \<le> n" "n \<le> 126" "n \<noteq> 34" "n \<noteq> 92"
  then have "of_char (char_of n) = n" by simp
  moreover have "of_char (CHR 0x22) = (34 :: nat)" "of_char (CHR 0x5C) = (92 :: nat)" by simp_all
  with n calculation have "char_of n \<noteq> CHR 0x22" "char_of n \<noteq> CHR 0x5C" by metis+
  ultimately show ?thesis using n by (simp add: plain_def)
qed

lemma plain_hex [simp]: "list_all plain (hex upper_hex n)"
proof (induction n rule: less_induct)
  case (less n)
  have "plain (upper_hex d)" if "d < 16" for d
    using that by (auto simp: upper_hex_def intro!: plain_char_of)
  then show ?case using less by (cases "n < 16") (simp_all add: hex.simps [of _ n])
qed

lemma plain_setw [simp]: "list_all plain s \<Longrightarrow> plain c \<Longrightarrow> list_all plain (setw w c s)"
  by (simp add: setw_def) (simp add: list_all_iff)

lemma plain_consts [simp]: "plain (CHR ''0'')" "plain (CHR ''-'')" "plain (CHR ''x'')" "plain (CHR '' '')"
  "plain (CHR ''T'')" "plain (CHR ''Z'')" "plain (CHR '':'')" "plain (CHR ''.'')" "plain (CHR ''('')"
  "plain (CHR '')'')"
  by (simp_all add: plain_def)

lemma plain_HexStatus [simp]: "list_all plain (HexStatus s)"
  by (simp add: HexStatus_def)

lemma plain_FormatPointer [simp]: "list_all plain (FormatPointer p)"
  by (simp add: FormatPointer_def)

lemma map_of_list_all: "map_of xs k = Some v \<Longrightarrow> list_all (\<lambda>x. P (snd x)) xs \<Longrightarrow> P v"
  by (induction xs) (auto split: if_splits)

lemma StatusName_plain: "StatusName s = Some n \<Longrightarrow> list_all plain n"
  unfolding StatusName_def by (erule map_of_list_all) code_simp

lemma plain_FormatStatus [simp]: "list_all plain (FormatStatus s)"
  using StatusName_plain [of s] by (simp add: FormatStatus_def split: option.split)

lemma plain_FormatTimestamp [simp]: "list_all plain (FormatTimestamp ft t)"
proof -
  have "list_all plain ''unavailable''" "list_all plain ''invalid''" by code_simp+
  then show ?thesis by (simp add: FormatTimestamp_def split: option.split)
qed

lemma plain_hex_bytes_loop [simp]: "list_all plain (hex_bytes_loop bs sp i)"
  by (induction bs sp i rule: hex_bytes_loop.induct) simp_all

lemma plain_HexBytes [simp]: "list_all plain (HexBytes bs sp)"
  by (simp add: HexBytes_def)

lemma plain_names:
  "field_name_ok s \<Longrightarrow> list_all plain s"
  "ident_ok b s \<Longrightarrow> list_all plain s"
proof -
  have c: "field_char c \<Longrightarrow> plain c" "ident_char b c \<Longrightarrow> plain c" "is_lower c \<Longrightarrow> field_char c" for c
    by (auto simp: field_char_def ident_char_def is_lower_def is_upper_def is_digit_def
        less_eq_char_def plain_def)
  then show "ident_ok b s \<Longrightarrow> list_all plain s" by (auto simp: ident_ok_def list_all_iff)
  show "field_name_ok s \<Longrightarrow> list_all plain s"
    using c by (cases s) (auto simp: field_name_ok_def list_all_iff)
qed

subsection \<open>A JSON line is the printed form of the event's value\<close>

definition json_value :: "to_utf8 \<Rightarrow> byte \<Rightarrow> byte list \<Rightarrow> json" where
  "json_value cv ty value =
     (if ty = 1 then JString (FormatPointer (ReadUInt64 value))
      else if ty = 3 then JNumber (uint (ReadUInt64 value))
      else if ty = 2 then JNumber (uint (ReadUInt32 value))
      else if ty = 6 then JNumber (sint (ReadUInt32 value))
      else if ty = 7 then JNumber (sint (ReadUInt64 value))
      else if ty = 8 then JBool (value ! 0 \<noteq> 0)
      else if ty = 4 then JString (FormatStatus (ReadUInt32 value))
      else if ty = 9 then JString (WideToUtf8 cv value)
      else if ty = 5 then
        (let bytes = read_bytes_header value;
             preview = take (unat (bh_captured bytes)) (drop 12 value)
         in JObject [(''type'', JString ''bytes''), (''requested'', JNumber (uint (bh_requested bytes))),
             (''captured'', JNumber (uint (bh_captured bytes))),
             (''status'', JString (FormatStatus (bh_captureStatus bytes))),
             (''hex'', JString (HexBytes preview False)), (''ascii'', JString (PreviewText preview))])
      else JObject [(''type'', JString (''unknown_'' @ dec (unat ty))), (''hex'', JString (HexBytes value False))])"

definition json_event :: "to_system_time \<Rightarrow> to_utf8 \<Rightarrow> trace_event \<Rightarrow> string \<Rightarrow> string \<Rightarrow> tlv list \<Rightarrow> json" where
  "json_event ft cv e m a fs = JObject
     [(''schema_version'', JNumber 1), (''sequence'', JNumber (uint (h_sequence (header e)))),
      (''timestamp'', JString (FormatTimestamp ft (h_timestamp100ns (header e)))),
      (''timestamp_100ns'', JNumber (uint (h_timestamp100ns (header e)))),
      (''thread_id'', JNumber (uint (h_threadId (header e)))),
      (''module'', JString m), (''api'', JString a), (''hook'', JString (m @ ''!'' @ a)),
      (''truncated'', JBool (has_flag e TraceEventFlagTruncated)),
      (''field_error'', JBool (has_flag e TraceEventFlagFieldError)),
      (''fields'', JObject (map (\<lambda>f. (tlv_string f, json_value cv (tlv_type f) (tlv_value f))) fs))]"

lemma dec_int_uint: "dec_int (uint w) = dec (unat w)"
  by (simp add: dec_int_def not_less)

lemma escaped_keys:
  "JsonEscape ''type'' = ''type''"
  "JsonEscape ''bytes'' = ''bytes''"
  "JsonEscape ''requested'' = ''requested''"
  "JsonEscape ''captured'' = ''captured''"
  "JsonEscape ''status'' = ''status''"
  "JsonEscape ''hex'' = ''hex''"
  "JsonEscape ''ascii'' = ''ascii''"
  "JsonEscape ''schema_version'' = ''schema_version''"
  "JsonEscape ''sequence'' = ''sequence''"
  "JsonEscape ''timestamp'' = ''timestamp''"
  "JsonEscape ''timestamp_100ns'' = ''timestamp_100ns''"
  "JsonEscape ''thread_id'' = ''thread_id''"
  "JsonEscape ''module'' = ''module''"
  "JsonEscape ''api'' = ''api''"
  "JsonEscape ''hook'' = ''hook''"
  "JsonEscape ''truncated'' = ''truncated''"
  "JsonEscape ''field_error'' = ''field_error''"
  "JsonEscape ''fields'' = ''fields''"
  by (simp_all add: JsonEscape_def json_escape_char_def)

lemma escaped_unknown: "JsonEscape (''unknown_'' @ dec n) = ''unknown_'' @ dec n"
proof -
  have "JsonEscape ''unknown_'' = ''unknown_''"
    by (simp add: JsonEscape_def json_escape_char_def)
  moreover have "JsonEscape (s @ t) = JsonEscape s @ JsonEscape t" for s t
    by (simp add: JsonEscape_def)
  ultimately show ?thesis by (simp only: JsonEscape_plain [OF plain_dec])
qed

lemma jsonl_value_print: "jsonl_value cv ty v = print_json (json_value cv ty v)"
  unfolding jsonl_value_def json_value_def Let_def tf_code.simps if_distrib [of print_json]
    print_json.simps print_members.simps escaped_keys escaped_unknown dec_int_uint
    JsonEscape_plain [OF plain_FormatPointer] JsonEscape_plain [OF plain_FormatStatus]
    JsonEscape_plain [OF plain_HexBytes]
  by (simp cong: if_cong split del: if_split)

lemma jsonl_fields_print:
  "list_all (\<lambda>f. field_name_ok (tlv_string f)) fs \<Longrightarrow> jsonl_fields cv fs i =
     (if i \<noteq> 0 \<and> fs \<noteq> [] then '','' else []) @
     print_members (map (\<lambda>f. (tlv_string f, json_value cv (tlv_type f) (tlv_value f))) fs)"
proof (induction fs arbitrary: i)
  case (Cons f fs)
  then have "list_all plain (tlv_string f)" by (simp add: plain_names)
  with Cons show ?case by (simp add: jsonl_value_print JsonEscape_plain)
qed simp

lemma RenderTraceEventJsonl_print:
  assumes "ParseTraceEvent e (unat (h_size (header e))) = Some (m, a, fs)" "fields_ok fs"
  shows "RenderTraceEventJsonl ft cv e = print_json (json_event ft cv e m a fs) @ [CHR 0x0A]"
proof -
  have "list_all (\<lambda>f. field_name_ok (tlv_string f)) fs"
    using assms(2) by (simp add: fields_ok_def list_all_iff)
  note fs = jsonl_fields_print [OF this, of cv 0]
  have one: "dec_int 1 = dec 1" by (simp add: dec_int_def)
  show ?thesis
    using assms(1)
    by (simp add: RenderTraceEventJsonl_def json_event_def fs escaped_keys JsonEscape_plain dec_int_uint one
        json_bool_def TRACE_JSON_SCHEMA_VERSION_def)
qed

lemma print_json_printable:
  "c \<in> set (print_json j) \<Longrightarrow> (0x20 :: nat) \<le> of_char c"
  "c \<in> set (print_members ms) \<Longrightarrow> (0x20 :: nat) \<le> of_char c"
proof (induction j and ms rule: print_json_print_members.induct)
  case (2 i)
  have "c \<in> set (dec n) \<Longrightarrow> (0x20 :: nat) \<le> of_char c" for n
    using plain_dec [of n] by (auto simp: list_all_iff plain_def)
  with 2 show ?case by (auto simp: dec_int_def split: if_splits)
qed (auto simp: JsonEscape_printable split: if_splits)

subsection \<open>The text form as aligned lines\<close>

definition text_labels :: "trace_event \<Rightarrow> tlv list \<Rightarrow> string list" where
  "text_labels e fs =
     [''timestamp'', ''thread_id'', ''sequence''] @
     concat (map (\<lambda>f. if tlv_type f = 5
        then [tlv_string f @ ''_hex'', tlv_string f @ ''_ascii'', tlv_string f @ ''_size'', tlv_string f @ ''_status'']
        else [tlv_string f]) fs) @
     (if has_flag e TraceEventFlagTruncated then [''truncated''] else []) @
     (if has_flag e TraceEventFlagFieldError then [''field_error''] else [])"

definition text_block :: "nat \<Rightarrow> string list \<Rightarrow> string \<Rightarrow> bool" where
  "text_block w labels s \<longleftrightarrow> (\<exists>vs. length vs = length labels \<and> (\<forall>v \<in> set vs. CHR 0x0A \<notin> set v) \<and>
     s = concat (map2 (\<lambda>l v. RenderTextLabel l w @ v @ [CHR 0x0A]) labels vs))"

lemma text_block_Nil [simp]: "text_block w [] []"
  by (simp add: text_block_def)

lemma text_block_line:
  "CHR 0x0A \<notin> set v \<Longrightarrow> text_block w [l] (RenderTextLabel l w @ v @ [CHR 0x0A])"
  unfolding text_block_def by (rule exI [of _ "[v]"]) simp

lemma text_block_append:
  "text_block w ls s \<Longrightarrow> text_block w ls' s' \<Longrightarrow> text_block w (ls @ ls') (s @ s')"
proof -
  assume "text_block w ls s" "text_block w ls' s'"
  then obtain vs vs' where "length vs = length ls" "\<forall>v \<in> set vs. CHR 0x0A \<notin> set v"
    "s = concat (map2 (\<lambda>l v. RenderTextLabel l w @ v @ [CHR 0x0A]) ls vs)"
    "length vs' = length ls'" "\<forall>v \<in> set vs'. CHR 0x0A \<notin> set v"
    "s' = concat (map2 (\<lambda>l v. RenderTextLabel l w @ v @ [CHR 0x0A]) ls' vs')"
    by (auto simp: text_block_def)
  then show ?thesis
    unfolding text_block_def by (intro exI [of _ "vs @ vs'"]) (auto simp: zip_append)
qed

lemma text_block_cons:
  "CHR 0x0A \<notin> set v \<Longrightarrow> text_block w ls s \<Longrightarrow>
   text_block w (l # ls) (RenderTextLabel l w @ v @ CHR 0x0A # s)"
  using text_block_append [OF text_block_line, of v w ls s l] by simp

lemma plain_no_newline: "list_all plain s \<Longrightarrow> CHR 0x0A \<notin> set s"
proof
  assume "list_all plain s" "CHR 0x0A \<in> set s"
  then have "plain (CHR 0x0A)" by (simp add: list_all_iff)
  then show False by (simp add: plain_def)
qed

lemma no_newline [simp]:
  "CHR 0x0A \<notin> set (dec n)" "CHR 0x0A \<notin> set (FormatStatus st)" "CHR 0x0A \<notin> set (FormatPointer p)"
  "CHR 0x0A \<notin> set (HexBytes bs sp)" "CHR 0x0A \<notin> set (FormatTimestamp ft t)"
  by (rule plain_no_newline, simp)+

lemma no_newline_dec_int [simp]: "CHR 0x0A \<notin> set (dec_int i)"
  by (simp add: dec_int_def)

lemma no_newline_color [simp]: "CHR 0x0A \<notin> set (PutColor b kColorReset)"
  "CHR 0x0A \<notin> set (PutColor b (status_color st))" "CHR 0x0A \<notin> set (PutColor b kColorPath)"
  "CHR 0x0A \<notin> set (PutColor b kColorDim)" "CHR 0x0A \<notin> set (PutColor b kColorApi)"
  by (simp_all add: PutColor_def status_color_def kColorReset_def kColorOk_def kColorError_def
      kColorPath_def kColorDim_def kColorApi_def)

lemma no_newline_preview [simp]: "CHR 0x0A \<notin> set (PreviewText bs)"
proof -
  have "chr_of b \<noteq> CHR 0x0A" if "32 \<le> b" for b
  proof
    assume "chr_of b = CHR 0x0A"
    then have "b = byte_of (CHR 0x0A)" by (metis byte_of_chr_of)
    with that show False by (simp add: byte_of_def)
  qed
  then show ?thesis by (force simp: PreviewText_def eq_commute [of "CHR 0x0A"])
qed

lemma text_field_block:
  assumes "tlv_type f = 9 \<longrightarrow> CHR 0x0A \<notin> set (WideToUtf8 cv (tlv_value f))"
  shows "text_block w (if tlv_type f = 5
        then [tlv_string f @ ''_hex'', tlv_string f @ ''_ascii'', tlv_string f @ ''_size'', tlv_string f @ ''_status'']
        else [tlv_string f]) (text_field cv w b f)"
proof (cases "tlv_type f = 5")
  case True
  define bytes where "bytes = read_bytes_header (tlv_value f)"
  define preview where "preview = take (unat (bh_captured bytes)) (drop 12 (tlv_value f))"
  define cut where "cut \<longleftrightarrow> bh_captured bytes < bh_requested bytes"
  define v1 where "v1 = HexBytes preview True @ (if cut then '' ...'' else [])"
  define v2 where "v2 = PreviewText preview @ (if cut then ''...'' else [])"
  define v3 where "v3 = dec (unat (bh_captured bytes)) @ '' of '' @ dec (unat (bh_requested bytes)) @ '' bytes''"
  define v4 where "v4 = PutColor b (status_color (bh_captureStatus bytes)) @
     FormatStatus (bh_captureStatus bytes) @ PutColor b kColorReset"
  have "CHR 0x0A \<notin> set v1" "CHR 0x0A \<notin> set v2" "CHR 0x0A \<notin> set v3" "CHR 0x0A \<notin> set v4"
    by (simp_all add: v1_def v2_def v3_def v4_def)
  then have "text_block w [tlv_string f @ ''_hex'', tlv_string f @ ''_ascii'', tlv_string f @ ''_size'',
      tlv_string f @ ''_status''] (RenderTextLabel (tlv_string f @ ''_hex'') w @ v1 @ CHR 0x0A #
      RenderTextLabel (tlv_string f @ ''_ascii'') w @ v2 @ CHR 0x0A #
      RenderTextLabel (tlv_string f @ ''_size'') w @ v3 @ CHR 0x0A #
      RenderTextLabel (tlv_string f @ ''_status'') w @ v4 @ CHR 0x0A # [])"
    by (intro text_block_cons text_block_Nil)
  also have "(RenderTextLabel (tlv_string f @ ''_hex'') w @ v1 @ CHR 0x0A #
      RenderTextLabel (tlv_string f @ ''_ascii'') w @ v2 @ CHR 0x0A #
      RenderTextLabel (tlv_string f @ ''_size'') w @ v3 @ CHR 0x0A #
      RenderTextLabel (tlv_string f @ ''_status'') w @ v4 @ CHR 0x0A # []) = RenderBytesText f w b"
    by (simp add: RenderBytesText_def Let_def v1_def v2_def v3_def v4_def
        flip: bytes_def preview_def cut_def)
  finally have "text_block w [tlv_string f @ ''_hex'', tlv_string f @ ''_ascii'', tlv_string f @ ''_size'',
      tlv_string f @ ''_status''] (RenderBytesText f w b)" .
  with True show ?thesis by (simp add: text_field_def)
next
  case False
  have "CHR 0x0A \<notin> set (text_value cv (tlv_type f) (tlv_value f) b)"
    using assms by (auto simp: text_value_def)
  with False show ?thesis by (simp add: text_field_def text_block_line)
qed

lemma text_fields_block:
  "\<forall>f \<in> set fs. tlv_type f = 9 \<longrightarrow> CHR 0x0A \<notin> set (WideToUtf8 cv (tlv_value f)) \<Longrightarrow>
   text_block w (concat (map (\<lambda>f. if tlv_type f = 5
        then [tlv_string f @ ''_hex'', tlv_string f @ ''_ascii'', tlv_string f @ ''_size'', tlv_string f @ ''_status'']
        else [tlv_string f]) fs)) (concat (map (text_field cv w b) fs))"
  by (induction fs) (simp_all add: text_block_append text_field_block)

lemma label_lengths:
  "length ''_hex'' = 4" "length ''_ascii'' = 6" "length ''_size'' = 5" "length ''_status'' = 7"
  "length ''timestamp'' = 9" "length ''thread_id'' = 9" "length ''sequence'' = 8"
  "length ''truncated'' = 9" "length ''field_error'' = 11"
  by simp_all

lemma label_width_loop_step:
  "label_width_loop (f # fs) w =
     label_width_loop fs (max w (length (tlv_string f) + (if tlv_type f = 5 then 7 else 0)))"
  unfolding label_width_loop.simps Let_def label_lengths tf_code.simps by (simp add: max_def)

declare label_width_loop.simps(2) [simp del]

lemma label_width_loop_base: "w \<le> label_width_loop fs w"
proof (induction fs arbitrary: w)
  case (Cons f fs)
  show ?case unfolding label_width_loop_step by (rule order_trans [OF _ Cons.IH]) simp
qed simp

lemma label_width_loop_ge:
  "f \<in> set fs \<Longrightarrow> length (tlv_string f) + (if tlv_type f = 5 then 7 else 0) \<le> label_width_loop fs w"
proof (induction fs arbitrary: w)
  case (Cons g fs)
  show ?case
  proof (cases "f = g")
    case True
    show ?thesis unfolding label_width_loop_step True
      by (rule order_trans [OF _ label_width_loop_base]) simp
  next
    case False
    then show ?thesis unfolding label_width_loop_step using Cons by simp
  qed
qed simp

lemma TextLabelWidth_ge:
  "label_width_loop fs 9 \<le> TextLabelWidth fs e"
  "has_flag e TraceEventFlagTruncated \<Longrightarrow> 9 \<le> TextLabelWidth fs e"
  "has_flag e TraceEventFlagFieldError \<Longrightarrow> 11 \<le> TextLabelWidth fs e"
  unfolding TextLabelWidth_def Let_def label_lengths by auto

lemma text_labels_width:
  assumes "l \<in> set (text_labels e fs)"
  shows "length l \<le> TextLabelWidth fs e"
proof -
  have base: "9 \<le> TextLabelWidth fs e"
    using label_width_loop_base [of 9 fs] TextLabelWidth_ge(1) [of fs e] by linarith
  have field: "length (tlv_string f) + (if tlv_type f = 5 then 7 else 0) \<le> TextLabelWidth fs e"
    if "f \<in> set fs" for f
    by (rule order_trans [OF label_width_loop_ge [OF that] TextLabelWidth_ge(1)])
  define fl where "fl = (\<lambda>f. if tlv_type f = 5
        then [tlv_string f @ ''_hex'', tlv_string f @ ''_ascii'', tlv_string f @ ''_size'', tlv_string f @ ''_status'']
        else [tlv_string f])"
  have fl: "length k \<le> length (tlv_string f) + (if tlv_type f = 5 then 7 else 0)" if "k \<in> set (fl f)" for k f
    using that by (auto simp: fl_def split: if_splits)
  from assms consider "l \<in> set [''timestamp'', ''thread_id'', ''sequence'']" | f where "f \<in> set fs" "l \<in> set (fl f)"
    | "l = ''truncated''" | "has_flag e TraceEventFlagFieldError" "l = ''field_error''"
    unfolding text_labels_def fl_def [symmetric] by (force split: if_splits)
  then show ?thesis
  proof cases
    case 1
    then have "length l \<le> 9" by auto
    with base show ?thesis by simp
  next
    case (2 f)
    then show ?thesis using field [of f] fl [of l f] by linarith
  next
    case 3
    then show ?thesis using base by simp
  next
    case 4
    then show ?thesis using TextLabelWidth_ge(3) [of e fs] by simp
  qed
qed

subsection \<open>Properties\<close>

lemma list_all_plain_names: "ident_ok True m \<Longrightarrow> ident_ok False a \<Longrightarrow> CHR 0x0A \<notin> set (m @ ''!'' @ a)"
  using plain_names(2) plain_no_newline by auto

text \<open>C12: Every valid event renders as one line of well-formed JSON. The output is a single line
  (its only newline is the last character), a reader of the JSON grammar accepts the line and
  returns the object of the event: its schema version, sequence, timestamp, thread, names,
  flags, and each field under its own name with its decoded value, whatever bytes the wide
  strings and previews hold.\<close>

theorem jsonl_line_reads_back:
  assumes "length (payload e) = PAYLOAD_BYTES"
    and "ParseTraceEvent e (unat (h_size (header e))) = Some (m, a, fs)"
  shows "\<exists>line. RenderTraceEventJsonl ft cv e = line @ [CHR 0x0A] \<and> CHR 0x0A \<notin> set line \<and>
     read_json (json_size (json_event ft cv e m a fs)) line = Some (json_event ft cv e m a fs, [])"
proof -
  have "fields_ok fs" using assms ParseTraceEvent_iff by blast
  with assms have "RenderTraceEventJsonl ft cv e = print_json (json_event ft cv e m a fs) @ [CHR 0x0A]"
    by (simp add: RenderTraceEventJsonl_print)
  moreover have "CHR 0x0A \<notin> set (print_json (json_event ft cv e m a fs))"
    using print_json_printable(1) [of "CHR 0x0A"] by fastforce
  moreover have "read_json (json_size (json_event ft cv e m a fs))
      (print_json (json_event ft cv e m a fs) @ []) = Some (json_event ft cv e m a fs, [])"
    by (rule read_print_json) simp_all
  ultimately show ?thesis by simp
qed

definition sample_event :: trace_event where
  "sample_event = \<lparr>header = zero_header\<lparr>h_magic := TRACE_EVENT_MAGIC, h_version := TRACE_EVENT_VERSION,
       h_size := 34, h_moduleNameLength := 1, h_apiNameLength := 1\<rparr>,
     payload = bytes_of ''ab'' @ replicate 990 0\<rparr>"

lemma sample_event_parse:
  "length (payload sample_event) = PAYLOAD_BYTES"
  "ParseTraceEvent sample_event (unat (h_size (header sample_event))) = Some (''a'', ''b'', [])"
proof -
  show len: "length (payload sample_event) = PAYLOAD_BYTES" by (simp add: sample_event_def)
  have "ident_ok True ''a''" "ident_ok False ''b''" by code_simp+
  then show "ParseTraceEvent sample_event (unat (h_size (header sample_event))) = Some (''a'', ''b'', [])"
    by (subst ParseTraceEvent_iff [OF len])
       (simp add: sample_event_def ev_repr_def ev_size_def zero_header_def fields_ok_def)
qed

lemma jsonl_line_reads_back_witness:
  "\<exists>line. RenderTraceEventJsonl (\<lambda>_. None) (\<lambda>_. None) sample_event = line @ [CHR 0x0A] \<and> CHR 0x0A \<notin> set line"
  using jsonl_line_reads_back [OF sample_event_parse, of "\<lambda>_. None" "\<lambda>_. None"] by blast

text \<open>The text form is a heading and aligned lines. With or without colours, a valid event
  whose wide strings hold no newline renders as a blank line, one heading with its export, and
  exactly one line per label: timestamp, thread, sequence, one per field (four for a byte
  preview) and one per flag, in that order; every label fits the common label column and no
  value contains a newline.\<close>

theorem text_aligned_lines:
  assumes "length (payload e) = PAYLOAD_BYTES"
    and "ParseTraceEvent e (unat (h_size (header e))) = Some (m, a, fs)"
    and "\<forall>f \<in> set fs. tlv_type f = 9 \<longrightarrow> CHR 0x0A \<notin> set (WideToUtf8 cv (tlv_value f))"
  shows "\<exists>heading vs. RenderTraceEventText ft cv e useColor = CHR 0x0A # heading @ CHR 0x0A #
       concat (map2 (\<lambda>l v. RenderTextLabel l (TextLabelWidth fs e) @ v @ [CHR 0x0A]) (text_labels e fs) vs)
     \<and> CHR 0x0A \<notin> set heading \<and> length vs = length (text_labels e fs)
     \<and> (\<forall>v \<in> set vs. CHR 0x0A \<notin> set v)
     \<and> (\<forall>l \<in> set (text_labels e fs). length (RenderTextLabel l (TextLabelWidth fs e)) = TextLabelWidth fs e + 6)"
proof -
  define w where "w = TextLabelWidth fs e"
  define tail where "tail = (if has_flag e TraceEventFlagTruncated
      then RenderTextLabel ''truncated'' w @ ''true'' @ [CHR 0x0A] else []) @
    (if has_flag e TraceEventFlagFieldError
      then RenderTextLabel ''field_error'' w @ ''true'' @ [CHR 0x0A] else [])"
  have t: "text_block w ((if has_flag e TraceEventFlagTruncated then [''truncated''] else []) @
       (if has_flag e TraceEventFlagFieldError then [''field_error''] else [])) tail"
    unfolding tail_def using text_block_line [of "''true''" w]
    by (intro text_block_append) simp_all
  have d: "CHR 0x0A \<notin> set v \<Longrightarrow> text_block w [l] (dim_line l w useColor v)" for l v
    using text_block_line [of "PutColor useColor kColorDim @ v @ PutColor useColor kColorReset" w l]
    by (simp add: dim_line_def)
  have "text_block w ([''timestamp''] @ [''thread_id''] @ [''sequence''] @ drop 3 (text_labels e fs))
     (dim_line ''timestamp'' w useColor (FormatTimestamp ft (h_timestamp100ns (header e))) @
      dim_line ''thread_id'' w useColor (dec (unat (h_threadId (header e)))) @
      dim_line ''sequence'' w useColor (dec (unat (h_sequence (header e)))) @
      concat (map (text_field cv w useColor) fs) @ tail)"
    using text_block_append [OF text_fields_block [OF assms(3), of w useColor] t]
    by (intro text_block_append d) (simp_all add: text_labels_def)
  moreover have "[''timestamp''] @ [''thread_id''] @ [''sequence''] @ drop 3 (text_labels e fs) = text_labels e fs"
    by (simp add: text_labels_def)
  ultimately have "text_block w (text_labels e fs)
     (dim_line ''timestamp'' w useColor (FormatTimestamp ft (h_timestamp100ns (header e))) @
      dim_line ''thread_id'' w useColor (dec (unat (h_threadId (header e)))) @
      dim_line ''sequence'' w useColor (dec (unat (h_sequence (header e)))) @
      concat (map (text_field cv w useColor) fs) @ tail)"
    by (simp only:)
  then obtain vs where vs: "length vs = length (text_labels e fs)" "\<forall>v \<in> set vs. CHR 0x0A \<notin> set v"
    "dim_line ''timestamp'' w useColor (FormatTimestamp ft (h_timestamp100ns (header e))) @
      dim_line ''thread_id'' w useColor (dec (unat (h_threadId (header e)))) @
      dim_line ''sequence'' w useColor (dec (unat (h_sequence (header e)))) @
      concat (map (text_field cv w useColor) fs) @ tail
     = concat (map2 (\<lambda>l v. RenderTextLabel l w @ v @ [CHR 0x0A]) (text_labels e fs) vs)"
    unfolding text_block_def by blast
  define heading where "heading = ''[*] '' @ PutColor useColor kColorApi @ (m @ ''!'' @ a) @
      PutColor useColor kColorReset @ '' ----------''"
  have "ident_ok True m \<and> ident_ok False a" using assms(1,2) ParseTraceEvent_iff by blast
  then have "CHR 0x0A \<notin> set heading" using list_all_plain_names by (auto simp: heading_def)
  moreover have "RenderTraceEventText ft cv e useColor = CHR 0x0A # heading @ CHR 0x0A #
       concat (map2 (\<lambda>l v. RenderTextLabel l w @ v @ [CHR 0x0A]) (text_labels e fs) vs)"
    using assms(2) by (simp add: RenderTraceEventText_def heading_def flip: vs(3) w_def)
      (simp add: tail_def)
  moreover have "\<forall>l \<in> set (text_labels e fs). length (RenderTextLabel l w) = w + 6"
    using text_labels_width by (auto simp: RenderTextLabel_def setw_left_def w_def)
  ultimately show ?thesis using vs(1,2) by (auto simp: w_def)
qed

lemma text_aligned_lines_witness:
  "\<exists>heading vs. RenderTraceEventText (\<lambda>_. None) (\<lambda>_. None) sample_event True = CHR 0x0A # heading @ CHR 0x0A #
       concat (map2 (\<lambda>l v. RenderTextLabel l (TextLabelWidth [] sample_event) @ v @ [CHR 0x0A])
         (text_labels sample_event []) vs)"
  using text_aligned_lines [OF sample_event_parse, of "\<lambda>_. None" "\<lambda>_. None" True] by auto

text \<open>Hexadecimal output is exact. A byte preview decodes back to its bytes, a pointer prints
  as \<open>0x\<close> and 16 digits that read back as its value, and a status, with or without its symbolic
  name, shows the code it came from: distinct pointers, statuses or previews never print alike.\<close>

fun unhex :: "string \<Rightarrow> byte list" where
  "unhex (a # b # cs) = of_nat (read_hex [a, b]) # unhex cs"
| "unhex _ = []"

definition status_code :: "string \<Rightarrow> nat" where
  "status_code s = read_hex (if last s = CHR '')'' then take 8 (drop (length s - 9) s) else drop 2 s)"

lemma length_hex_word: "length (hex upper_hex (unat (b :: byte))) \<le> 2"
  "length (hex upper_hex (unat (s :: u32))) \<le> 8" "length (hex upper_hex (unat (p :: u64))) \<le> 16"
  using unsigned_less [of b, where ?'a = nat] unsigned_less [of s, where ?'a = nat]
    unsigned_less [of p, where ?'a = nat] by (auto intro!: length_hex)

lemma setw_two: "length s \<le> 2 \<Longrightarrow> \<exists>a b. setw 2 c s = [a, b]"
  using length_setw [of s 2 c] by (auto simp: length_Suc_conv numeral_2_eq_2)

lemma unhex_HexBytes: "unhex (hex_bytes_loop bs False i) = bs"
proof (induction bs arbitrary: i)
  case (Cons b bs)
  obtain x y where xy: "setw 2 (CHR ''0'') (hex upper_hex (unat b)) = [x, y]"
    using setw_two [OF length_hex_word(1)] by blast
  have "read_hex [x, y] = unat b" unfolding xy [symmetric] by (simp add: read_hex_hex)
  then show ?case using Cons.IH by (simp add: xy)
qed simp

lemma HexStatus_read: "length (HexStatus s) = 10" "read_hex (drop 2 (HexStatus s)) = unat s"
  by (simp_all add: HexStatus_def length_setw length_hex_word read_hex_hex)

lemma HexStatus_last: "last (HexStatus s) \<noteq> CHR '')''"
proof -
  have "last (hex upper_hex n) \<noteq> CHR '')''" for n
  proof -
    have "upper_hex d \<noteq> CHR '')''" if "d < 16" for d
    proof -
      have "(48 :: nat) \<le> of_char (upper_hex d)" using that by (simp add: upper_hex_def)
      then show ?thesis by auto
    qed
    then show ?thesis by (cases "n < 16") (simp_all add: hex.simps [of _ n])
  qed
  moreover have "hex upper_hex n \<noteq> []" for n by (simp add: hex.simps [of _ n])
  ultimately show ?thesis by (simp add: HexStatus_def setw_def)
qed

theorem hex_output_exact:
  "unhex (HexBytes bs False) = bs \<and>
   length (FormatPointer p) = 18 \<and> take 2 (FormatPointer p) = ''0x'' \<and> read_hex (drop 2 (FormatPointer p)) = unat p \<and>
   status_code (FormatStatus s) = unat s"
proof -
  have "status_code (FormatStatus s) = unat s"
  proof (cases "StatusName s")
    case None
    then show ?thesis by (simp add: FormatStatus_def status_code_def HexStatus_last HexStatus_read)
  next
    case (Some n)
    have "take 8 (drop (length n + 4) (n @ '' ('' @ HexStatus s @ '')'')) = drop 2 (HexStatus s)"
      by (simp add: HexStatus_read)
    with Some show ?thesis by (simp add: FormatStatus_def status_code_def HexStatus_read)
  qed
  then show ?thesis
    by (simp add: HexBytes_def unhex_HexBytes FormatPointer_def length_setw length_hex_word read_hex_hex)
qed

end
