(* ===== verification/Trace_Correlator.thy ===== *)
theory Trace_Correlator
  imports Trace_Parser "HOL-Library.AList"
begin

section \<open>Correlating handles with paths\<close>

text \<open>
  \<open>src/apiscope/trace_correlator.cpp\<close>: finding fields in a validated event, the handle-to-path
  table of \<open>HandlePathTracker\<close>, and its three operations. The table is an association list with
  distinct keys. Its interface is the locale \<open>handle_table\<close>; the tracker's sequential guarantee
  (an annotation is always the newest path of its handle) is proved once against the interface
  and obtained by interpretation for the table of the code.
\<close>

subsection \<open>Finding fields\<close>

fun FindField_loop :: "nat \<Rightarrow> byte list \<Rightarrow> byte list \<Rightarrow> (byte \<times> byte list) option" where
  "FindField_loop 0 cursor name = None"
| "FindField_loop (Suc remaining) cursor name =
     (case read_field_header cursor of None \<Rightarrow> None
      | Some (field, cursor) \<Rightarrow>
          (let nl = unat (fh_nameLength field); vs = unat (fh_valueSize field)
           in if length cursor < nl + vs then None
              else if nl = length name \<and> memcmp_bytes (take nl cursor) name = 0
              then Some (fh_type field, take vs (drop nl cursor))
              else FindField_loop remaining (drop (nl + vs) cursor) name))"

definition FindField :: "trace_event \<Rightarrow> string \<Rightarrow> (byte \<times> byte list) option" where
  "FindField event name =
     FindField_loop (unat (h_fieldCount (header event)))
       (drop (unat (h_moduleNameLength (header event)) + unat (h_apiNameLength (header event)))
          (take (unat (h_size (header event)) - SIZEOF_EVENT_HEADER) (payload event)))
       (bytes_of name)"

definition ReadHandle :: "trace_event \<Rightarrow> string \<Rightarrow> u64 option" where
  "ReadHandle event name =
     (case FindField event name of None \<Rightarrow> None
      | Some (ty, value) \<Rightarrow>
          if ty \<noteq> tf_code TraceFieldPointer \<or> length value \<noteq> 8 then None else Some (of_le value))"

definition ReadWideString :: "trace_event \<Rightarrow> string \<Rightarrow> wstring option" where
  "ReadWideString event name =
     (case FindField event name of None \<Rightarrow> None
      | Some (ty, value) \<Rightarrow>
          if ty \<noteq> tf_code TraceFieldWideString then None else Some (wchars value))"

definition EventSucceeded :: "trace_event \<Rightarrow> bool" where
  "EventSucceeded event =
     (case FindField event ''result'' of None \<Rightarrow> True
      | Some (ty, value) \<Rightarrow>
          if ty \<noteq> tf_code TraceFieldStatus \<or> length value \<noteq> 4 then True
          else 0 \<le> sint (of_le value :: u32))"

definition AppendWideString :: "trace_event \<Rightarrow> string \<Rightarrow> wstring \<Rightarrow> bool \<times> trace_event" where
  "AppendWideString event name value =
     (let nameLength = length name;
          byteLength = length value * 2;
          byteLength = (if byteLength > TRACE_MAX_STRING_BYTES then TRACE_MAX_STRING_BYTES else byteLength);
          required = SIZEOF_FIELD_HEADER + nameLength + byteLength
      in if unat (h_size (header event)) + required > TRACE_MAX_EVENT_BYTES then (False, event)
         else
          (let cursor = unat (h_size (header event)) - SIZEOF_EVENT_HEADER;
               field = \<lparr>fh_type = tf_code TraceFieldWideString, fh_nameLength = of_nat nameLength,
                  fh_valueSize = of_nat byteLength\<rparr>;
               p = list_write (payload event) cursor (enc_field_header field);
               cursor = cursor + SIZEOF_FIELD_HEADER;
               p = list_write p cursor (bytes_of name);
               cursor = cursor + nameLength;
               p = list_write p cursor (take byteLength (wbytes value))
           in (True, event\<lparr>payload := p,
                header := (header event)\<lparr>h_size := of_nat (unat (h_size (header event)) + required),
                  h_fieldCount := h_fieldCount (header event) + 1\<rparr>\<rparr>)))"

definition FindObjectHandle :: "trace_event \<Rightarrow> u64 option" where
  "FindObjectHandle event =
     (case ReadHandle event ''file_handle'' of Some h \<Rightarrow> Some h
      | None \<Rightarrow> (case ReadHandle event ''key_handle'' of Some h \<Rightarrow> Some h
         | None \<Rightarrow> ReadHandle event ''handle''))"

subsection \<open>The tracker\<close>

type_synonym path_table = "(u64 \<times> wstring) list"

record HandlePathTracker =
  handlePaths :: path_table

definition MAX_TRACKED_HANDLES :: nat where
  "MAX_TRACKED_HANDLES = 65536"

definition wbackslash :: u16 where
  "wbackslash = 92"

definition resolve_relative :: "wstring \<Rightarrow> wstring \<Rightarrow> wstring" where
  "resolve_relative base path =
     (let baseSep = (base \<noteq> [] \<and> last base = wbackslash);
          relSep = (path \<noteq> [] \<and> hd path = wbackslash)
      in if baseSep \<and> relSep then base @ tl path
         else if \<not> baseSep \<and> \<not> relSep then (base @ [wbackslash]) @ path
         else base @ path)"

definition remember :: "path_table \<Rightarrow> u64 \<Rightarrow> wstring \<Rightarrow> path_table" where
  "remember t handle path =
     AList.update handle path (if length t \<ge> MAX_TRACKED_HANDLES then [] else t)"

definition Observe :: "HandlePathTracker \<Rightarrow> trace_event \<Rightarrow> HandlePathTracker" where
  "Observe s event =
     (case ReadWideString event ''path'' of None \<Rightarrow> s
      | Some path \<Rightarrow>
        if path = [] then s
        else (case FindObjectHandle event of None \<Rightarrow> s
         | Some handle \<Rightarrow>
           if handle = 0 then s
           else if \<not> EventSucceeded event then s
           else
            (let path = (case ReadHandle event ''root_directory'' of None \<Rightarrow> path
                 | Some rootDirectory \<Rightarrow>
                     if rootDirectory = 0 then path
                     else (case map_of (handlePaths s) rootDirectory of None \<Rightarrow> path
                       | Some base \<Rightarrow> resolve_relative base path))
             in s\<lparr>handlePaths := remember (handlePaths s) handle path\<rparr>)))"

definition Annotate :: "HandlePathTracker \<Rightarrow> trace_event \<Rightarrow> trace_event" where
  "Annotate s event =
     (if FindField event ''path'' \<noteq> None then event
      else (case FindObjectHandle event of None \<Rightarrow> event
       | Some handle \<Rightarrow>
         if handle = 0 then event
         else (case map_of (handlePaths s) handle of None \<Rightarrow> event
           | Some path \<Rightarrow> snd (AppendWideString event ''path'' path))))"

definition Evict :: "HandlePathTracker \<Rightarrow> trace_event \<Rightarrow> HandlePathTracker" where
  "Evict s event =
     (case ReadHandle event ''handle'' of None \<Rightarrow> s
      | Some handle \<Rightarrow>
        if handle \<noteq> 0 \<and> EventSucceeded event
        then s\<lparr>handlePaths := AList.delete handle (handlePaths s)\<rparr> else s)"

subsection \<open>Fields of a represented event\<close>

definition field_of :: "tlv list \<Rightarrow> string \<Rightarrow> (byte \<times> byte list) option" where
  "field_of fs name = map_of (map (\<lambda>f. (tlv_name f, (tlv_type f, tlv_value f))) fs) (bytes_of name)"

lemma FindField_loop_eq:
  "\<forall>f \<in> set fs. tlv_wf f \<Longrightarrow> FindField_loop (length fs) (enc_fields fs) nm =
     map_of (map (\<lambda>f. (tlv_name f, (tlv_type f, tlv_value f))) fs) nm"
proof (induction fs)
  case (Cons f fs)
  then have wf: "tlv_wf f" by simp
  have hit: "length (tlv_name f) = length nm \<and> memcmp_bytes (tlv_name f) nm = 0 \<longleftrightarrow> tlv_name f = nm"
    using memcmp_bytes_eq_0_iff [of "tlv_name f" nm] by auto
  have "FindField_loop (length (f # fs)) (enc_fields (f # fs)) nm =
      (if length (tlv_name f) = length nm \<and> memcmp_bytes (tlv_name f) nm = 0
       then Some (tlv_type f, tlv_value f) else FindField_loop (length fs) (enc_fields fs) nm)"
    by (simp add: codec_simps tlv_header_lengths [OF wf] Let_def)
  then show ?case using Cons by (simp only: hit) simp
qed simp

lemma FindField_eq:
  assumes "ev_repr e m a fs"
  shows "FindField e name = field_of fs name"
proof -
  obtain j where pl: "payload e = m @ a @ enc_fields fs @ j"
    using assms by (rule ev_repr_payload)
  have "take (unat (h_size (header e)) - 32) (payload e) = m @ a @ enc_fields fs"
    using assms by (simp add: ev_repr_def ev_size_def pl)
  then show ?thesis
    using assms by (simp add: FindField_def field_of_def ev_repr_def FindField_loop_eq)
qed

lemma field_of_None: "field_of fs name = None \<longleftrightarrow> bytes_of name \<notin> tlv_name ` set fs"
  by (force simp: field_of_def map_of_eq_None_iff)

text \<open>Appending a wide string to a represented event.\<close>

lemma AppendWideString_eq:
  assumes repr: "ev_repr e m a fs"
    and f: "f = Tlv 9 (bytes_of name) (take 512 (wbytes value))"
  shows "AppendWideString e name value =
     (if ev_size m a fs + length (enc_field f) > TRACE_MAX_EVENT_BYTES then (False, e)
      else (True, write_field e f))"
proof -
  define bl where "bl = min 512 (2 * length value)"
  have v: "take bl (wbytes value) = tlv_value f" "length (tlv_value f) = bl"
    by (auto simp: f bl_def min_def)
  have hdr: "\<lparr>fh_type = 9, fh_nameLength = of_nat (length name), fh_valueSize = of_nat bl\<rparr> = tlv_header f"
    using v by (simp add: tlv_header_def f)
  have size: "unat (h_size (header e)) = ev_size m a fs" using repr by (simp add: ev_repr_def)
  have enc: "length (enc_field f) = 4 + length name + bl" using v by (simp add: codec_simps) (simp add: f)
  have bl: "(if length value * 2 > TRACE_MAX_STRING_BYTES then TRACE_MAX_STRING_BYTES else length value * 2) = bl"
    by (simp add: bl_def)
  have three: "list_write (list_write (list_write (payload e) k (enc_field_header (tlv_header f)))
        (k + 4) (bytes_of name)) (k + 4 + length name) (tlv_value f)
      = list_write (payload e) k (enc_field f)"
    if "k + length (enc_field f) \<le> length (payload e)" for k
    using list_write_three [of "payload e" _ k "enc_field_header (tlv_header f)" "bytes_of name" "tlv_value f"]
      that by (simp add: enc_field_def codec_simps f)
  show ?thesis
  proof (cases "ev_size m a fs + length (enc_field f) > 1024")
    case True
    then show ?thesis using size enc unfolding AppendWideString_def Let_def bl by simp
  next
    case False
    then have "ev_size m a fs - 32 + length (enc_field f) \<le> length (payload e)"
      using repr by (simp add: ev_repr_def ev_size_def)
    from three [OF this] False show ?thesis
      using size enc hdr v unfolding AppendWideString_def Let_def bl by (simp add: write_field_def)
  qed
qed

subsection \<open>Annotation\<close>

definition annotation :: "HandlePathTracker \<Rightarrow> trace_event \<Rightarrow> wstring option" where
  "annotation s e =
     (if FindField e ''path'' \<noteq> None then None
      else do { h \<leftarrow> FindObjectHandle e; if h = 0 then None else map_of (handlePaths s) h })"

lemma Annotate_annotation:
  "Annotate s e = (case annotation s e of None \<Rightarrow> e
     | Some p \<Rightarrow> snd (AppendWideString e ''path'' p))"
  by (auto simp: Annotate_def annotation_def split: option.splits)

definition path_field :: "wstring \<Rightarrow> tlv" where
  "path_field p = Tlv 9 (bytes_of ''path'') (take 512 (wbytes p))"

definition annotated :: "byte list \<Rightarrow> byte list \<Rightarrow> tlv list \<Rightarrow> wstring option \<Rightarrow> tlv list" where
  "annotated m a fs p = (case p of None \<Rightarrow> fs
     | Some p \<Rightarrow> if ev_size m a fs + length (enc_field (path_field p)) > TRACE_MAX_EVENT_BYTES then fs
         else fs @ [path_field p])"

lemma path_field_ok:
  "tlv_wf (path_field p)" "value_ok 9 (tlv_value (path_field p))"
  "field_name_ok (string_of (tlv_name (path_field p)))"
  by (auto simp: path_field_def tlv_wf_def value_ok_def field_name_ok_def field_char_def is_lower_def
      min_def less_eq_char_def)

lemma Annotate_repr:
  assumes "ev_repr e m a fs"
  shows "ev_repr (Annotate s e) m a (annotated m a fs (annotation s e))"
    and "same_stamp e (Annotate s e)" "h_flags (header (Annotate s e)) = h_flags (header e)"
proof -
  note eq = AppendWideString_eq [OF assms, of "path_field p" "''path''" p for p]
  show "ev_repr (Annotate s e) m a (annotated m a fs (annotation s e))"
    using assms write_field_repr [OF assms path_field_ok(1)]
    by (simp add: Annotate_annotation annotated_def eq path_field_def split: option.split)
  show "same_stamp e (Annotate s e)" "h_flags (header (Annotate s e)) = h_flags (header e)"
    by (simp_all add: Annotate_annotation eq path_field_def split: option.split)
qed

lemma annotated_fields_ok:
  assumes "ev_repr e m a fs" "fields_ok fs"
  shows "fields_ok (annotated m a fs (annotation s e))"
proof -
  have "annotation s e \<noteq> None \<Longrightarrow> bytes_of ''path'' \<notin> tlv_name ` set fs"
    using FindField_eq [OF assms(1)] field_of_None [of fs "''path''"]
    by (simp add: annotation_def split: if_splits)
  then show ?thesis
    using assms(2) path_field_ok
    by (auto simp: annotated_def fields_ok_def path_field_def split: option.splits)
qed

subsection \<open>The table behind an interface\<close>

locale handle_table =
  fixes lookup :: "'t \<Rightarrow> u64 \<Rightarrow> wstring option"
    and put :: "'t \<Rightarrow> u64 \<Rightarrow> wstring \<Rightarrow> 't"
    and del :: "'t \<Rightarrow> u64 \<Rightarrow> 't"
    and entries :: "'t \<Rightarrow> nat"
    and ok :: "'t \<Rightarrow> bool"
    and cap :: nat
  assumes lookup_put: "ok t \<Longrightarrow> lookup (put t h p) h = Some p"
    and lookup_put_other: "ok t \<Longrightarrow> k \<noteq> h \<Longrightarrow> lookup (put t h p) k = Some q \<Longrightarrow> lookup t k = Some q"
    and lookup_del: "ok t \<Longrightarrow> lookup (del t h) h = None"
    and lookup_del_other: "ok t \<Longrightarrow> k \<noteq> h \<Longrightarrow> lookup (del t h) k = lookup t k"
    and ok_put: "ok t \<Longrightarrow> ok (put t h p)"
    and ok_del: "ok t \<Longrightarrow> ok (del t h)"
    and ok_cap: "ok t \<Longrightarrow> entries t \<le> cap"
begin

text \<open>One event: it may record a path and then close a handle.\<close>

definition step :: "'t \<Rightarrow> (u64 \<times> wstring) option \<Rightarrow> u64 option \<Rightarrow> 't" where
  "step t r c = (let t = (case r of None \<Rightarrow> t | Some (h, p) \<Rightarrow> put t h p)
     in case c of None \<Rightarrow> t | Some h \<Rightarrow> del t h)"

lemma step_ok: "ok t \<Longrightarrow> ok (step t r c)"
  by (auto simp: step_def ok_put ok_del split: option.splits)

lemma step_lookup:
  assumes "ok t" "lookup (step t r c) h = Some p"
  shows "c \<noteq> Some h" and "r = Some (h, p) \<or> ((\<forall>q. r \<noteq> Some (h, q)) \<and> lookup t h = Some p)"
proof -
  define t' where "t' = (case r of None \<Rightarrow> t | Some (h, p) \<Rightarrow> put t h p)"
  have "ok t'" using assms(1) by (auto simp: t'_def ok_put split: option.split)
  then show c: "c \<noteq> Some h"
    using assms(2) lookup_del by (auto simp: step_def Let_def simp flip: t'_def)
  then have "lookup t' h = Some p"
    using assms(2) lookup_del_other [OF \<open>ok t'\<close>, of h]
    by (cases c) (auto simp: step_def Let_def simp flip: t'_def)
  then show "r = Some (h, p) \<or> ((\<forall>q. r \<noteq> Some (h, q)) \<and> lookup t h = Some p)"
  proof (cases r)
    case (Some kq)
    obtain k q where kq: "kq = (k, q)" by (cases kq)
    show ?thesis
    proof (cases "k = h")
      case True
      then show ?thesis
        using \<open>lookup t' h = Some p\<close> lookup_put [OF assms(1)] by (simp add: t'_def Some kq)
    next
      case False
      then show ?thesis
        using \<open>lookup t' h = Some p\<close> lookup_put_other [OF assms(1), of h k q p]
        by (simp add: t'_def Some kq)
    qed
  qed (simp add: t'_def)
qed

end

definition table_ok :: "path_table \<Rightarrow> bool" where
  "table_ok t \<longleftrightarrow> distinct (map fst t) \<and> length t \<le> MAX_TRACKED_HANDLES"

lemma length_update_le: "length (AList.update k v t) \<le> Suc (length t)"
  by (induction t) auto

lemma remember_ok: "table_ok t \<Longrightarrow> table_ok (remember t h p)"
  using length_update_le [of h p t]
  by (auto simp: table_ok_def remember_def distinct_update MAX_TRACKED_HANDLES_def)

lemma delete_ok: "table_ok t \<Longrightarrow> table_ok (AList.delete h t)"
  using length_delete_le [of h t] by (auto simp: table_ok_def distinct_delete)

interpretation paths: handle_table map_of remember "\<lambda>t h. AList.delete h t" length table_ok MAX_TRACKED_HANDLES
proof unfold_locales
  fix t h k p q
  show "map_of (remember t h p) h = Some p" by (simp add: remember_def update_conv')
  show "k \<noteq> h \<Longrightarrow> map_of (remember t h p) k = Some q \<Longrightarrow> map_of t k = Some q"
    by (simp add: remember_def update_conv' split: if_splits)
qed (simp_all add: delete_conv' remember_ok delete_ok, simp add: table_ok_def)

subsection \<open>Runs of the tracker\<close>

text \<open>What one event makes the tracker record and close, and the tracker after a run.\<close>

definition records :: "HandlePathTracker \<Rightarrow> trace_event \<Rightarrow> (u64 \<times> wstring) option" where
  "records s e =
     do { path \<leftarrow> ReadWideString e ''path'';
          h \<leftarrow> FindObjectHandle e;
          if path = [] \<or> h = 0 \<or> \<not> EventSucceeded e then None
          else Some (h, case ReadHandle e ''root_directory'' of None \<Rightarrow> path
            | Some d \<Rightarrow> (case (if d = 0 then None else map_of (handlePaths s) d) of None \<Rightarrow> path
               | Some base \<Rightarrow> resolve_relative base path)) }"

definition closes :: "trace_event \<Rightarrow> u64 option" where
  "closes e = do { h \<leftarrow> ReadHandle e ''handle''; if h \<noteq> 0 \<and> EventSucceeded e then Some h else None }"

definition track :: "trace_event \<Rightarrow> HandlePathTracker \<Rightarrow> HandlePathTracker" where
  "track e s = Evict (Observe s e) (Annotate (Observe s e) e)"

lemma Observe_records:
  "Observe s e = (case records s e of None \<Rightarrow> s
     | Some (h, p) \<Rightarrow> s\<lparr>handlePaths := remember (handlePaths s) h p\<rparr>)"
  by (auto simp: Observe_def records_def split: option.splits)

lemma Evict_closes:
  "Evict s e = (case closes e of None \<Rightarrow> s
     | Some h \<Rightarrow> s\<lparr>handlePaths := AList.delete h (handlePaths s)\<rparr>)"
  by (auto simp: Evict_def closes_def split: option.splits)

lemma field_of_annotated:
  "n \<noteq> ''path'' \<Longrightarrow> field_of (annotated m a fs x) n = field_of fs n"
  by (auto simp: field_of_def annotated_def path_field_def map_add_def split: option.splits)

lemma closes_Annotate:
  assumes "ev_repr e m a fs"
  shows "closes (Annotate s e) = closes e"
proof -
  have "FindField (Annotate s e) n = FindField e n" if "n \<noteq> ''path''" for n
    using FindField_eq [OF Annotate_repr(1) [OF assms]] FindField_eq [OF assms]
      field_of_annotated [OF that] by simp
  then show ?thesis by (simp add: closes_def ReadHandle_def EventSucceeded_def)
qed

lemma track_step:
  assumes "ev_repr e m a fs"
  shows "handlePaths (track e s) = paths.step (handlePaths s) (records s e) (closes e)"
  by (auto simp: track_def Evict_closes closes_Annotate [OF assms] Observe_records paths.step_def
      Let_def split: option.split)

abbreviation run_track :: "trace_event list \<Rightarrow> HandlePathTracker \<Rightarrow> HandlePathTracker" where
  "run_track es s \<equiv> fold track es s"

lemma run_track_ok:
  assumes "\<forall>e \<in> set es. \<exists>m a fs. ev_repr e m a fs" "table_ok (handlePaths s)"
  shows "table_ok (handlePaths (run_track es s))"
  using assms
proof (induction es arbitrary: s)
  case (Cons e es)
  then obtain m a fs where "ev_repr e m a fs" by auto
  then have "table_ok (handlePaths (track e s))"
    using Cons.prems by (simp add: track_step paths.step_ok)
  with Cons show ?case by simp
qed simp

lemma valid_event_repr:
  "length (payload e) = PAYLOAD_BYTES \<Longrightarrow> IsValidTraceEvent e n \<Longrightarrow> \<exists>m a fs. ev_repr e m a fs"
  using IsValidTraceEvent_iff by blast

subsection \<open>Properties\<close>

text \<open>C21: Annotation never breaks an event. Annotating a valid event leaves a valid event with the
  same names, stamps and flags, whose fields are the original ones, followed by the path recorded for
  its handle (cut to 512 bytes) exactly when the event has no path of its own, names a known
  handle and has room; the annotated event never exceeds 1024 bytes.\<close>

theorem Annotate_keeps_valid:
  assumes "length (payload e) = PAYLOAD_BYTES"
    and "ParseTraceEvent e (unat (h_size (header e))) = Some (m, a, fs)"
  shows "ParseTraceEvent (Annotate s e) (unat (h_size (header (Annotate s e)))) =
       Some (m, a, annotated (bytes_of m) (bytes_of a) fs (annotation s e))
     \<and> unat (h_size (header (Annotate s e))) \<le> TRACE_MAX_EVENT_BYTES
     \<and> same_stamp e (Annotate s e) \<and> h_flags (header (Annotate s e)) = h_flags (header e)"
proof -
  have e: "ev_repr e (bytes_of m) (bytes_of a) fs" "ident_ok True m" "ident_ok False a" "fields_ok fs"
    using assms ParseTraceEvent_iff by blast+
  note r = Annotate_repr [OF e(1), of s]
  then have "length (payload (Annotate s e)) = PAYLOAD_BYTES"
    and le: "unat (h_size (header (Annotate s e))) \<le> TRACE_MAX_EVENT_BYTES"
    by (auto simp: ev_repr_def)
  then show ?thesis
    using r e annotated_fields_ok [OF e(1,4), of s] by (simp add: ParseTraceEvent_iff)
qed

lemma Annotate_keeps_valid_witness:
  "\<exists>fs. ParseTraceEvent (Annotate \<lparr>handlePaths = []\<rparr> \<lparr>header = zero_header\<lparr>h_magic := TRACE_EVENT_MAGIC,
       h_version := TRACE_EVENT_VERSION, h_size := 34, h_moduleNameLength := 1, h_apiNameLength := 1\<rparr>,
     payload = bytes_of ''ab'' @ replicate 990 0\<rparr>) 34 = Some (''a'', ''b'', fs)"
proof -
  let ?e = "\<lparr>header = zero_header\<lparr>h_magic := TRACE_EVENT_MAGIC, h_version := TRACE_EVENT_VERSION,
     h_size := 34, h_moduleNameLength := 1, h_apiNameLength := 1\<rparr>, payload = bytes_of ''ab'' @ replicate 990 0\<rparr>"
  have "ident_ok True ''a''" "ident_ok False ''b''" by code_simp+
  then have p: "ParseTraceEvent ?e (unat (h_size (header ?e))) = Some (''a'', ''b'', [])"
    by (subst ParseTraceEvent_iff) (simp_all add: ev_repr_def ev_size_def zero_header_def fields_ok_def)
  have "annotation \<lparr>handlePaths = []\<rparr> ?e = None"
    by (auto simp: annotation_def bind_eq_None_conv)
  then have "Annotate \<lparr>handlePaths = []\<rparr> ?e = ?e" by (simp add: Annotate_annotation)
  then show ?thesis using Annotate_keeps_valid [OF _ p, of "\<lparr>handlePaths = []\<rparr>"] by auto
qed

text \<open>C20: A path is always the newest one of its handle. After any run of valid events from an
  empty tracker, a path in the table of a handle was recorded by a successful open of exactly
  that handle, and no later event recorded another path for the handle or closed it: a reused
  handle value is never labelled with the path of its former owner.\<close>

theorem tracked_path_newest:
  assumes "\<forall>e \<in> set es. length (payload e) = PAYLOAD_BYTES \<and> IsValidTraceEvent e (unat (h_size (header e)))"
    and "map_of (handlePaths (run_track es \<lparr>handlePaths = []\<rparr>)) h = Some p"
  shows "\<exists>pre e post. es = pre @ e # post
     \<and> records (run_track pre \<lparr>handlePaths = []\<rparr>) e = Some (h, p) \<and> closes e \<noteq> Some h
     \<and> (\<forall>us x vs. post = us @ x # vs \<longrightarrow> closes x \<noteq> Some h \<and>
          (\<forall>q. records (run_track (pre @ e # us) \<lparr>handlePaths = []\<rparr>) x \<noteq> Some (h, q)))"
  using assms
proof (induction es rule: rev_induct)
  case (snoc y es)
  let ?s = "run_track es \<lparr>handlePaths = []\<rparr>"
  have repr: "\<forall>e \<in> set (es @ [y]). \<exists>m a fs. ev_repr e m a fs"
    using snoc.prems(1) valid_event_repr by blast
  then obtain m a fs where y: "ev_repr y m a fs" by auto
  have ok: "table_ok (handlePaths ?s)"
    using run_track_ok [of es "\<lparr>handlePaths = []\<rparr>"] repr by (simp add: table_ok_def)
  have "map_of (paths.step (handlePaths ?s) (records ?s y) (closes y)) h = Some p"
    using snoc.prems(2) by (simp add: track_step [OF y])
  from paths.step_lookup [OF ok this] consider
      "closes y \<noteq> Some h" "records ?s y = Some (h, p)"
    | "closes y \<noteq> Some h" "\<forall>q. records ?s y \<noteq> Some (h, q)" "map_of (handlePaths ?s) h = Some p"
    by blast
  then show ?case
  proof cases
    case 1
    then show ?thesis by (intro exI [of _ es] exI [of _ y] exI [of _ "[]"]) simp
  next
    case 2
    with snoc obtain pre e post where *: "es = pre @ e # post"
      "records (run_track pre \<lparr>handlePaths = []\<rparr>) e = Some (h, p)" "closes e \<noteq> Some h"
      "\<forall>us x vs. post = us @ x # vs \<longrightarrow> closes x \<noteq> Some h \<and>
          (\<forall>q. records (run_track (pre @ e # us) \<lparr>handlePaths = []\<rparr>) x \<noteq> Some (h, q))"
      by auto
    have "closes x \<noteq> Some h \<and> (\<forall>q. records (run_track (pre @ e # us) \<lparr>handlePaths = []\<rparr>) x \<noteq> Some (h, q))"
      if "post @ [y] = us @ x # vs" for us x vs
    proof (cases vs rule: rev_cases)
      case Nil
      then show ?thesis using that 2 *(1) by simp
    next
      case (snoc ws w)
      from *(4) have "post = us @ x # ws \<longrightarrow> closes x \<noteq> Some h \<and>
          (\<forall>q. records (run_track (pre @ e # us) \<lparr>handlePaths = []\<rparr>) x \<noteq> Some (h, q))" by blast
      then show ?thesis using that snoc by simp
    qed
    with * show ?thesis by (intro exI [of _ pre] exI [of _ e] exI [of _ "post @ [y]"]) simp
  qed
qed simp

lemma sample_open:
  obtains e where "length (payload e) = PAYLOAD_BYTES" "IsValidTraceEvent e (unat (h_size (header e)))"
    "handlePaths (track e \<lparr>handlePaths = []\<rparr>) = [(4, [99])]"
proof -
  let ?ops = "[OpWideString ''path'' (Some [99]) 1, OpPointer ''file_handle'' 4]"
  let ?fs = "[Tlv 9 (bytes_of ''path'') [99, 0], Tlv 1 (bytes_of ''file_handle'') [4, 0, 0, 0, 0, 0, 0, 0]]"
  have ids: "ident_ok True ''a''" "ident_ok False ''b''" "list_all op_pre ?ops" by code_simp+
  have built: "fst (built None ''a'' ''b'' ?ops) = ?fs" by code_simp
  obtain e where "ev_state e (bytes_of ''a'') (bytes_of ''b'') (built None ''a'' ''b'' ?ops)"
    by (rule build_event [OF ids])
  then have e: "ev_repr e (bytes_of ''a'') (bytes_of ''b'') ?fs"
    using built by (simp only: ev_state_def)
  have len: "length (payload e) = PAYLOAD_BYTES" using e by (simp add: ev_repr_def)
  moreover have "IsValidTraceEvent e (unat (h_size (header e)))"
    using e ids built_fields_ok [of None "''a''" "''b''" ?ops] built
    by (subst IsValidTraceEvent_iff [OF len]) metis
  moreover have "handlePaths (track e \<lparr>handlePaths = []\<rparr>) = [(4, [99])]"
  proof -
    have f: "FindField e n = field_of ?fs n" for n using e by (rule FindField_eq)
    have "field_of ?fs ''path'' = Some (9, [99, 0])" "field_of ?fs ''result'' = None"
      "field_of ?fs ''root_directory'' = None" "field_of ?fs ''handle'' = None"
      "field_of ?fs ''file_handle'' = Some (1, [4, 0, 0, 0, 0, 0, 0, 0])" by code_simp+
    moreover have "of_le [4, 0, 0, 0, 0, 0, 0, 0] = (4 :: u64)" "of_le [99, 0] = (99 :: u16)" by code_simp+
    ultimately have "records \<lparr>handlePaths = []\<rparr> e = Some (4, [99])" "closes e = None"
      by (simp_all add: records_def closes_def ReadWideString_def ReadHandle_def FindObjectHandle_def
          EventSucceeded_def f)
    then show ?thesis
      by (simp add: track_step [OF e] paths.step_def remember_def MAX_TRACKED_HANDLES_def)
  qed
  ultimately show ?thesis by (rule that)
qed

lemma tracked_path_newest_witness:
  "\<exists>es pre e post. map_of (handlePaths (run_track es \<lparr>handlePaths = []\<rparr>)) 4 = Some [99] \<and> es = pre @ e # post
     \<and> records (run_track pre \<lparr>handlePaths = []\<rparr>) e = Some (4, [99])"
proof -
  obtain e where e: "length (payload e) = PAYLOAD_BYTES" "IsValidTraceEvent e (unat (h_size (header e)))"
    "handlePaths (track e \<lparr>handlePaths = []\<rparr>) = [(4, [99])]" by (rule sample_open)
  then have 4: "map_of (handlePaths (run_track [e] \<lparr>handlePaths = []\<rparr>)) 4 = Some [99]" by simp
  have "\<forall>e \<in> set [e]. length (payload e) = PAYLOAD_BYTES \<and> IsValidTraceEvent e (unat (h_size (header e)))"
    using e by simp
  from tracked_path_newest [OF this 4] 4 show ?thesis by blast
qed

text \<open>The table stays small. After any run of valid events the tracker holds at most 65536
  paths, one per handle.\<close>

theorem tracker_bounded:
  assumes "\<forall>e \<in> set es. length (payload e) = PAYLOAD_BYTES \<and> IsValidTraceEvent e (unat (h_size (header e)))"
  shows "length (handlePaths (run_track es \<lparr>handlePaths = []\<rparr>)) \<le> MAX_TRACKED_HANDLES
     \<and> distinct (map fst (handlePaths (run_track es \<lparr>handlePaths = []\<rparr>)))"
proof -
  have "\<forall>e \<in> set es. \<exists>m a fs. ev_repr e m a fs" using assms valid_event_repr by blast
  from run_track_ok [OF this, of "\<lparr>handlePaths = []\<rparr>"] show ?thesis by (simp add: table_ok_def)
qed

lemma tracker_bounded_witness:
  "\<exists>es. length (handlePaths (run_track es \<lparr>handlePaths = []\<rparr>)) \<le> MAX_TRACKED_HANDLES \<and> es \<noteq> []"
proof -
  obtain e where "length (payload e) = PAYLOAD_BYTES" "IsValidTraceEvent e (unat (h_size (header e)))"
    by (rule sample_open)
  then show ?thesis using tracker_bounded [of "[e]"] by (intro exI [of _ "[e]"]) simp
qed

text \<open>A relative open is joined with one separator: whatever separators the directory path
  ends and the relative path starts with, the resolved path has exactly one between them.\<close>

theorem resolve_relative_one_separator:
  "resolve_relative base path =
     (if base \<noteq> [] \<and> last base = wbackslash then butlast base else base) @ [wbackslash] @
     (if path \<noteq> [] \<and> hd path = wbackslash then tl path else path)"
  by (cases base rule: rev_cases; cases path) (auto simp: resolve_relative_def Let_def)

end
