(* ===== verification/Trace_Ring.thy ===== *)
theory Trace_Ring
  imports Trace_Transport
begin

section \<open>The shared ring, one operation at a time\<close>

text \<open>
  \<open>src/include/trace_ring.h\<close>, \<open>EmitTraceEvent\<close> (\<open>src/apiscope-hooks/trace_transport.cpp\<close>),
  \<open>CreateSharedRing\<close> and \<open>TryReadRing\<close> (\<open>src/apiscope/trace_session.cpp\<close>), each run without
  interruption; \<open>Trace_Ring_Steps\<close> interleaves them. Positions are signed 64-bit integers:
  integers whose every arithmetic result is wrapped by \<open>s64\<close>. The interface is the locale
  \<open>bounded_queue\<close>; the ring is its interpretation, as long as fewer than \<open>2 ^ 62\<close> events are
  published.
\<close>

definition s64 :: "int \<Rightarrow> int" where
  "s64 x = signed_take_bit 63 x"

lemma s64_id [simp]: "- (2 ^ 63) \<le> x \<Longrightarrow> x < 2 ^ 63 \<Longrightarrow> s64 x = x"
  by (simp add: s64_def signed_take_bit_int_eq_self)

definition TRACE_RING_MAGIC :: u32 where
  "TRACE_RING_MAGIC = 0x474E4952"

definition TRACE_RING_VERSION :: u16 where
  "TRACE_RING_VERSION = 1"

definition TRACE_RING_CAPACITY :: int where
  "TRACE_RING_CAPACITY = 16384"

record ring_slot =
  slot_sequence :: int
  slot_event :: trace_event

record trace_ring =
  ring_magic :: u32
  ring_version :: u16
  ring_capacity :: u32
  ring_eventSize :: u32
  enqueuePosition :: int
  dequeuePosition :: int
  eventSequence :: u32
  droppedEvents :: u32
  wakePending :: u32
  slots :: "nat \<Rightarrow> ring_slot"

text \<open>\<open>(uint64_t)position & (TRACE_RING_CAPACITY - 1)\<close>\<close>

definition slot_index :: "int \<Rightarrow> nat" where
  "slot_index position = nat (position mod TRACE_RING_CAPACITY)"

definition init_ring :: trace_ring where
  "init_ring = \<lparr>ring_magic = TRACE_RING_MAGIC, ring_version = TRACE_RING_VERSION,
     ring_capacity = of_int TRACE_RING_CAPACITY, ring_eventSize = of_nat TRACE_MAX_EVENT_BYTES,
     enqueuePosition = 0, dequeuePosition = 0, eventSequence = 0, droppedEvents = 0, wakePending = 0,
     slots = (\<lambda>index. \<lparr>slot_sequence = int index, slot_event = zero_event\<rparr>)\<rparr>"

definition ring_ok :: "trace_ring \<Rightarrow> bool" where
  "ring_ok ring \<longleftrightarrow> ring_magic ring = TRACE_RING_MAGIC \<and> ring_version ring = TRACE_RING_VERSION \<and>
     ring_capacity ring = of_int TRACE_RING_CAPACITY \<and>
     ring_eventSize ring = of_nat TRACE_MAX_EVENT_BYTES"

definition event_ok :: "trace_event \<Rightarrow> bool" where
  "event_ok event \<longleftrightarrow> h_magic (header event) = TRACE_EVENT_MAGIC \<and>
     h_version (header event) = TRACE_EVENT_VERSION \<and>
     \<not> unat (h_size (header event)) < SIZEOF_EVENT_HEADER + TraceNameBytes event \<and>
     \<not> unat (h_size (header event)) > TRACE_MAX_EVENT_BYTES"

text \<open>Copying \<open>event->header.size\<close> bytes over a slot's event leaves the old bytes behind them.\<close>

definition copy_event :: "trace_event \<Rightarrow> trace_event \<Rightarrow> trace_event" where
  "copy_event old event =
     (let k = unat (h_size (header event)) - SIZEOF_EVENT_HEADER
      in \<lparr>header = header event, payload = take k (payload event) @ drop k (payload old)\<rparr>)"

definition set_slot :: "int \<Rightarrow> (ring_slot \<Rightarrow> ring_slot) \<Rightarrow> trace_ring \<Rightarrow> trace_ring" where
  "set_slot position f ring =
     ring\<lparr>slots := (slots ring)(slot_index position := f (slots ring (slot_index position)))\<rparr>"

text \<open>
  \<open>setEvent\<close> is \<open>None\<close> when the wake event or \<open>NtSetEvent\<close> is not configured, else the status the
  call returns. The result \<open>None\<close> is a claim loop that only another thread can release.
\<close>

definition EmitTraceEvent :: "u32 option \<Rightarrow> trace_ring option \<Rightarrow> trace_event option \<Rightarrow>
    (bool \<times> trace_event option \<times> trace_ring option) option" where
  "EmitTraceEvent setEvent TransportRing event =
     (case (TransportRing, event) of
        (Some ring, Some e) \<Rightarrow>
          if \<not> ring_ok ring \<or> \<not> event_ok e then Some (False, event, TransportRing)
          else
           (let ring = ring\<lparr>eventSequence := eventSequence ring + 1\<rparr>;
                e = e\<lparr>header := (header e)\<lparr>h_sequence := eventSequence ring\<rparr>\<rparr>;
                position = enqueuePosition ring;
                difference = s64 (slot_sequence (slots ring (slot_index position)) - position)
            in if difference < 0
               then Some (False, Some e, Some (ring\<lparr>droppedEvents := droppedEvents ring + 1\<rparr>))
               else if difference \<noteq> 0 then None
               else
                (let ring = ring\<lparr>enqueuePosition := s64 (position + 1)\<rparr>;
                     ring = set_slot position (\<lambda>s. s\<lparr>slot_event := copy_event (slot_event s) e\<rparr>) ring;
                     ring = set_slot position (\<lambda>s. s\<lparr>slot_sequence := s64 (position + 1)\<rparr>) ring
                 in case setEvent of None \<Rightarrow> Some (True, Some e, Some ring)
                  | Some status \<Rightarrow>
                     (let old = wakePending ring; ring = ring\<lparr>wakePending := 1\<rparr>
                      in if old = 0 \<and> \<not> NT_SUCCESS status
                         then Some (True, Some e, Some (ring\<lparr>wakePending := 0\<rparr>))
                         else Some (True, Some e, Some ring))))
      | _ \<Rightarrow> Some (False, event, TransportRing))"

definition TryReadRing :: "trace_ring option \<Rightarrow> trace_event option \<times> trace_ring option" where
  "TryReadRing localRing =
     (case localRing of None \<Rightarrow> (None, None)
      | Some ring \<Rightarrow>
         (let position = dequeuePosition ring;
              slot = slots ring (slot_index position)
          in if slot_sequence slot \<noteq> s64 (position + 1) then (None, Some ring)
             else
              (let ring = set_slot position
                     (\<lambda>s. s\<lparr>slot_sequence := s64 (position + TRACE_RING_CAPACITY)\<rparr>) ring
               in (Some (slot_event slot), Some (ring\<lparr>dequeuePosition := s64 (position + 1)\<rparr>)))))"

subsection \<open>What is copied is all the parser looks at\<close>

definition event_view :: "trace_event \<Rightarrow> event_header \<times> byte list" where
  "event_view e = (header e, take (unat (h_size (header e)) - SIZEOF_EVENT_HEADER) (payload e))"

lemma event_view_copy [simp]:
  "unat (h_size (header e)) - SIZEOF_EVENT_HEADER \<le> length (payload e) \<Longrightarrow> event_view (copy_event old e) = event_view e"
  by (simp add: event_view_def copy_event_def Let_def)

subsection \<open>Bounded queues\<close>

locale bounded_queue =
  fixes put :: "'q \<Rightarrow> 'a \<Rightarrow> 'v option \<times> 'q"
    and get :: "'q \<Rightarrow> 'v option \<times> 'q"
    and items :: "'q \<Rightarrow> 'v list"
    and inv :: "'q \<Rightarrow> bool"
    and budget :: "'q \<Rightarrow> nat"
    and cap :: nat
    and fits :: "'a \<Rightarrow> bool"
  assumes put_inv: "inv q \<Longrightarrow> fits x \<Longrightarrow> 0 < budget q \<Longrightarrow> inv (snd (put q x)) \<and> budget q \<le> Suc (budget (snd (put q x)))"
    and get_inv: "inv q \<Longrightarrow> inv (snd (get q)) \<and> budget (snd (get q)) = budget q"
    and put_items: "inv q \<Longrightarrow> fits x \<Longrightarrow> 0 < budget q \<Longrightarrow> items (snd (put q x)) =
       (case fst (put q x) of None \<Rightarrow> items q | Some v \<Rightarrow> items q @ [v])"
    and put_full: "inv q \<Longrightarrow> fits x \<Longrightarrow> 0 < budget q \<Longrightarrow> fst (put q x) = None \<longleftrightarrow> length (items q) = cap"
    and get_items: "inv q \<Longrightarrow> items q = (case fst (get q) of None \<Rightarrow> [] | Some v \<Rightarrow> v # items (snd (get q)))"
    and get_none: "inv q \<Longrightarrow> fst (get q) = None \<Longrightarrow> items (snd (get q)) = []"
    and items_cap: "inv q \<Longrightarrow> length (items q) \<le> cap"
begin

text \<open>A run of operations: what was accepted, what was read, and the queue after it.\<close>

fun run :: "'a option list \<Rightarrow> 'q \<Rightarrow> 'v list \<times> 'v list \<times> 'q" where
  "run [] q = ([], [], q)"
| "run (Some x # ops) q =
     (let (v, q') = put q x; (acc, out, q'') = run ops q'
      in ((case v of None \<Rightarrow> acc | Some v \<Rightarrow> v # acc), out, q''))"
| "run (None # ops) q =
     (let (v, q') = get q; (acc, out, q'') = run ops q'
      in (acc, (case v of None \<Rightarrow> out | Some v \<Rightarrow> v # out), q''))"

lemma run_fifo:
  assumes "inv q" "length ops \<le> budget q" "\<forall>x. Some x \<in> set ops \<longrightarrow> fits x"
    and "run ops q = (acc, out, q')"
  shows "items q @ acc = out @ items q' \<and> length (items q') \<le> cap"
  using assms
proof (induction ops arbitrary: q acc out)
  case (Cons x ops)
  show ?case
  proof (cases x)
    case (Some y)
    obtain v q1 where p: "put q y = (v, q1)" by fastforce
    obtain acc1 out1 where r: "run ops q1 = (acc1, out1, q')"
      using Cons.prems(4) Some p by (auto split: prod.splits)
    have b: "0 < budget q" and f: "fits y" using Cons.prems Some by auto
    have "inv q1" "length ops \<le> budget q1"
      using put_inv [OF Cons.prems(1) f b] p Cons.prems(2) by auto
    with Cons.IH r Cons.prems(3) have "items q1 @ acc1 = out1 @ items q'" "length (items q') \<le> cap" by simp_all
    moreover have "items q1 = (case v of None \<Rightarrow> items q | Some v \<Rightarrow> items q @ [v])"
      using put_items [OF Cons.prems(1) f b] p by simp
    moreover have "acc = (case v of None \<Rightarrow> acc1 | Some v \<Rightarrow> v # acc1)" "out = out1"
      using Cons.prems(4) Some p r by auto
    ultimately show ?thesis by (auto split: option.splits)
  next
    case None
    obtain v q1 where p: "get q = (v, q1)" by fastforce
    obtain acc1 out1 where r: "run ops q1 = (acc1, out1, q')"
      using Cons.prems(4) None p by (auto split: prod.splits)
    have "inv q1" "length ops \<le> budget q1"
      using get_inv [OF Cons.prems(1)] p Cons.prems(2) by auto
    with Cons.IH r Cons.prems(3) have "items q1 @ acc1 = out1 @ items q'" "length (items q') \<le> cap" by simp_all
    moreover have "items q = (case v of None \<Rightarrow> [] | Some v \<Rightarrow> v # items q1)" "v = None \<Longrightarrow> items q1 = []"
      using get_items [OF Cons.prems(1)] get_none [OF Cons.prems(1)] unfolding p fst_conv snd_conv by simp_all
    moreover have "out = (case v of None \<Rightarrow> out1 | Some v \<Rightarrow> v # out1)" "acc = acc1"
      using Cons.prems(4) None p r by auto
    ultimately show ?thesis by (auto split: option.splits)
  qed
qed (simp add: items_cap)

end

subsection \<open>The ring is a bounded queue\<close>

lemma slot_index_eq:
  assumes "\<bar>p - q\<bar> < TRACE_RING_CAPACITY"
  shows "slot_index p = slot_index q \<longleftrightarrow> p = q"
proof
  assume "slot_index p = slot_index q"
  then have "p mod TRACE_RING_CAPACITY = q mod TRACE_RING_CAPACITY"
    by (simp add: slot_index_def TRACE_RING_CAPACITY_def eq_nat_nat_iff)
  then have "TRACE_RING_CAPACITY dvd p - q" by (simp add: mod_eq_dvd_iff)
  with assms show "p = q" using zdvd_imp_le [of TRACE_RING_CAPACITY "\<bar>p - q\<bar>"] by fastforce
qed simp

lemma slot_index_wrap [simp]: "slot_index (p + TRACE_RING_CAPACITY) = slot_index p"
  by (simp add: slot_index_def)

definition ring_inv :: "trace_ring \<Rightarrow> bool" where
  "ring_inv r \<longleftrightarrow> ring_ok r \<and> 0 \<le> dequeuePosition r \<and> dequeuePosition r \<le> enqueuePosition r \<and>
     enqueuePosition r \<le> dequeuePosition r + TRACE_RING_CAPACITY \<and> enqueuePosition r \<le> 2 ^ 62 \<and>
     (\<forall>p. dequeuePosition r \<le> p \<and> p < enqueuePosition r \<longrightarrow>
        slot_sequence (slots r (slot_index p)) = p + 1) \<and>
     (\<forall>p. enqueuePosition r \<le> p \<and> p < dequeuePosition r + TRACE_RING_CAPACITY \<longrightarrow>
        slot_sequence (slots r (slot_index p)) = p)"

definition ring_items :: "trace_ring \<Rightarrow> (event_header \<times> byte list) list" where
  "ring_items r = map (\<lambda>p. event_view (slot_event (slots r (slot_index p))))
     [dequeuePosition r..enqueuePosition r - 1]"

definition ring_budget :: "trace_ring \<Rightarrow> nat" where
  "ring_budget r = nat (2 ^ 62 - enqueuePosition r)"

definition ring_put :: "u32 option \<Rightarrow> trace_ring \<Rightarrow> trace_event \<Rightarrow> (event_header \<times> byte list) option \<times> trace_ring" where
  "ring_put setEvent r e = (case EmitTraceEvent setEvent (Some r) (Some e) of
     Some (ok, Some e', Some r') \<Rightarrow> (if ok then Some (event_view e') else None, r') | _ \<Rightarrow> (None, r))"

definition ring_get :: "trace_ring \<Rightarrow> (event_header \<times> byte list) option \<times> trace_ring" where
  "ring_get r = (case TryReadRing (Some r) of (e, Some r') \<Rightarrow> (map_option event_view e, r') | _ \<Rightarrow> (None, r))"

definition event_fits :: "trace_event \<Rightarrow> bool" where
  "event_fits e \<longleftrightarrow> event_ok e \<and> length (payload e) = PAYLOAD_BYTES"

lemma ring_inv_init: "ring_inv init_ring"
  by (auto simp: ring_inv_def init_ring_def ring_ok_def TRACE_RING_CAPACITY_def slot_index_def)

lemma ring_items_init: "ring_items init_ring = []"
  by (simp add: ring_items_def init_ring_def)

lemma length_ring_items: "ring_inv r \<Longrightarrow> length (ring_items r) = nat (enqueuePosition r - dequeuePosition r)"
  by (simp add: ring_items_def)

lemma slots_set_slot [simp]:
  "slots (set_slot q f r) (slot_index p) =
     (if slot_index p = slot_index q then f (slots r (slot_index p)) else slots r (slot_index p))"
  by (simp add: set_slot_def)

lemma set_slot_frame [simp]:
  "enqueuePosition (set_slot q f r) = enqueuePosition r" "dequeuePosition (set_slot q f r) = dequeuePosition r"
  "ring_ok (set_slot q f r) = ring_ok r" "wakePending (set_slot q f r) = wakePending r"
  "eventSequence (set_slot q f r) = eventSequence r" "droppedEvents (set_slot q f r) = droppedEvents r"
  by (simp_all add: set_slot_def ring_ok_def)

definition stamp :: "trace_ring \<Rightarrow> trace_event \<Rightarrow> trace_event" where
  "stamp r e = e\<lparr>header := (header e)\<lparr>h_sequence := eventSequence r + 1\<rparr>\<rparr>"

lemma stamp_fits: "event_fits e \<Longrightarrow> event_fits (stamp r e)"
  by (simp add: event_fits_def event_ok_def stamp_def TraceNameBytes_def)

text \<open>
  The two outcomes of an uninterrupted publish: dropped when the ring holds 16384 events, and
  stored in the slot of the claimed position otherwise.
\<close>

definition published :: "trace_ring \<Rightarrow> trace_event \<Rightarrow> trace_ring" where
  "published r e = set_slot (enqueuePosition r)
     (\<lambda>s. s\<lparr>slot_event := copy_event (slot_event s) (stamp r e), slot_sequence := enqueuePosition r + 1\<rparr>)
     (r\<lparr>eventSequence := eventSequence r + 1, enqueuePosition := enqueuePosition r + 1\<rparr>)"

lemma EmitTraceEvent_cases:
  assumes inv: "ring_inv r" and e: "event_ok e" and room: "enqueuePosition r < 2 ^ 62"
  shows "\<exists>w. EmitTraceEvent setEvent (Some r) (Some e) =
     (if enqueuePosition r = dequeuePosition r + TRACE_RING_CAPACITY
      then Some (False, Some (stamp r e),
        Some (r\<lparr>eventSequence := eventSequence r + 1, droppedEvents := droppedEvents r + 1\<rparr>))
      else Some (True, Some (stamp r e), Some ((published r e)\<lparr>wakePending := w\<rparr>)))"
proof -
  let ?p = "enqueuePosition r"
  have ok: "ring_ok r" and b: "0 \<le> ?p" "0 \<le> dequeuePosition r" using inv by (auto simp: ring_inv_def)
  have okseq: "ring_ok (r\<lparr>eventSequence := k\<rparr>) = ring_ok r" for k by (simp add: ring_ok_def)
  show ?thesis
  proof (cases "?p = dequeuePosition r + TRACE_RING_CAPACITY")
    case True
    have "slot_sequence (slots r (slot_index (dequeuePosition r))) = dequeuePosition r + 1"
      using inv True by (auto simp: ring_inv_def TRACE_RING_CAPACITY_def)
    with True have "slot_sequence (slots r (slot_index ?p)) - ?p = 1 - TRACE_RING_CAPACITY" by simp
    with ok e True show ?thesis
      by (simp add: EmitTraceEvent_def Let_def stamp_def TRACE_RING_CAPACITY_def)
  next
    case False
    then have seq: "slot_sequence (slots r (slot_index ?p)) = ?p"
      using inv by (auto simp: ring_inv_def)
    let ?w = "case setEvent of None \<Rightarrow> wakePending r
      | Some status \<Rightarrow> if wakePending r = 0 \<and> \<not> NT_SUCCESS status then 0 else 1"
    have "EmitTraceEvent setEvent (Some r) (Some e) =
      Some (True, Some (stamp r e), Some ((published r e)\<lparr>wakePending := ?w\<rparr>))"
      using ok e seq b room
      by (simp add: EmitTraceEvent_def Let_def okseq stamp_def published_def set_slot_def
          split: option.split)
    with False show ?thesis by auto
  qed
qed


lemma published_inv:
  assumes inv: "ring_inv r" and room: "enqueuePosition r < 2 ^ 62"
    and free: "enqueuePosition r < dequeuePosition r + TRACE_RING_CAPACITY"
  shows "ring_inv ((published r e)\<lparr>wakePending := w\<rparr>)"
proof -
  have near: "slot_index p = slot_index (enqueuePosition r) \<longleftrightarrow> p = enqueuePosition r"
    if "dequeuePosition r \<le> p" "p < dequeuePosition r + TRACE_RING_CAPACITY" for p
    by (rule slot_index_eq) (use inv that free in \<open>auto simp: ring_inv_def\<close>)
  show ?thesis
    using inv room free near
    by (auto simp: ring_inv_def published_def ring_ok_def set_slot_def)
qed

lemma published_items:
  assumes inv: "ring_inv r" and e: "event_fits e"
    and free: "enqueuePosition r < dequeuePosition r + TRACE_RING_CAPACITY"
  shows "ring_items ((published r e)\<lparr>wakePending := w\<rparr>) = ring_items r @ [event_view (stamp r e)]"
proof -
  let ?p = "enqueuePosition r"
  have k: "unat (h_size (header (stamp r e))) - SIZEOF_EVENT_HEADER \<le> length (payload (stamp r e))"
    using stamp_fits [OF e, of r] by (auto simp: event_fits_def event_ok_def)
  have "[dequeuePosition r..?p] = [dequeuePosition r..?p - 1] @ [?p]"
    using inv by (subst upto_rec2) (auto simp: ring_inv_def)
  moreover have "slot_index p \<noteq> slot_index ?p" if "p \<in> set [dequeuePosition r..?p - 1]" for p
    using slot_index_eq [where p = p and q = "?p"] inv that free by (auto simp: ring_inv_def)
  ultimately show ?thesis
    by (simp add: ring_items_def published_def set_slot_def event_view_copy [OF k])
qed

lemma TryReadRing_cases:
  assumes inv: "ring_inv r"
  shows "TryReadRing (Some r) =
     (if enqueuePosition r = dequeuePosition r then (None, Some r)
      else (Some (slot_event (slots r (slot_index (dequeuePosition r)))),
        Some ((set_slot (dequeuePosition r)
           (\<lambda>s. s\<lparr>slot_sequence := dequeuePosition r + TRACE_RING_CAPACITY\<rparr>) r)
           \<lparr>dequeuePosition := dequeuePosition r + 1\<rparr>)))"
proof -
  have "0 \<le> dequeuePosition r" "dequeuePosition r \<le> enqueuePosition r" "enqueuePosition r \<le> 2 ^ 62"
    using inv by (auto simp: ring_inv_def)
  moreover have "slot_sequence (slots r (slot_index (dequeuePosition r))) =
      (if enqueuePosition r = dequeuePosition r then dequeuePosition r else dequeuePosition r + 1)"
    using inv by (auto simp: ring_inv_def TRACE_RING_CAPACITY_def)
  ultimately show ?thesis
    by (auto simp: TryReadRing_def Let_def TRACE_RING_CAPACITY_def)
qed

lemma get_inv_items:
  assumes inv: "ring_inv r" and ne: "enqueuePosition r \<noteq> dequeuePosition r"
    and r': "r' = (set_slot (dequeuePosition r)
           (\<lambda>s. s\<lparr>slot_sequence := dequeuePosition r + TRACE_RING_CAPACITY\<rparr>) r)
           \<lparr>dequeuePosition := dequeuePosition r + 1\<rparr>"
  shows "ring_inv r'" "ring_budget r' = ring_budget r"
    and "ring_items r = event_view (slot_event (slots r (slot_index (dequeuePosition r)))) # ring_items r'"
proof -
  let ?d = "dequeuePosition r"
  have lt: "?d < enqueuePosition r" using inv ne by (auto simp: ring_inv_def)
  have near: "slot_index p = slot_index ?d \<longleftrightarrow> p = ?d \<or> p = ?d + TRACE_RING_CAPACITY"
    if "?d \<le> p" "p < ?d + 1 + TRACE_RING_CAPACITY" for p
  proof (cases "p = ?d + TRACE_RING_CAPACITY")
    case False
    then show ?thesis using slot_index_eq [where p = p and q = "?d"] that by auto
  qed simp
  show "ring_inv r'"
    using inv lt near by (auto simp: r' ring_inv_def ring_ok_def set_slot_def)
  show "ring_budget r' = ring_budget r" by (simp add: r' ring_budget_def set_slot_def)
  have "[?d..enqueuePosition r - 1] = ?d # [?d + 1..enqueuePosition r - 1]"
    using lt by (simp add: upto_rec1)
  moreover have "slot_index p \<noteq> slot_index ?d" if "p \<in> set [?d + 1..enqueuePosition r - 1]" for p
    using near [of p] inv that by (auto simp: ring_inv_def)
  ultimately show "ring_items r = event_view (slot_event (slots r (slot_index ?d))) # ring_items r'"
    by (simp add: ring_items_def r' set_slot_def)
qed

lemma ring_put_cases:
  assumes "ring_inv r" "event_fits e" "0 < ring_budget r"
  shows "\<exists>w. ring_put st r e = (if enqueuePosition r = dequeuePosition r + TRACE_RING_CAPACITY
     then (None, r\<lparr>eventSequence := eventSequence r + 1, droppedEvents := droppedEvents r + 1\<rparr>)
     else (Some (event_view (stamp r e)), (published r e)\<lparr>wakePending := w\<rparr>))"
  using EmitTraceEvent_cases [OF assms(1), of e st] assms(2,3)
  by (auto simp: ring_put_def event_fits_def ring_budget_def)

lemma ring_get_cases:
  "ring_inv r \<Longrightarrow> ring_get r =
     (if enqueuePosition r = dequeuePosition r then (None, r)
      else (Some (event_view (slot_event (slots r (slot_index (dequeuePosition r))))),
        (set_slot (dequeuePosition r)
           (\<lambda>s. s\<lparr>slot_sequence := dequeuePosition r + TRACE_RING_CAPACITY\<rparr>) r)
           \<lparr>dequeuePosition := dequeuePosition r + 1\<rparr>))"
  by (simp add: ring_get_def TryReadRing_cases)

lemma ring_inv_counters:
  "ring_inv (r\<lparr>eventSequence := k, droppedEvents := d\<rparr>) = ring_inv r"
  "ring_items (r\<lparr>eventSequence := k, droppedEvents := d\<rparr>) = ring_items r"
  by (simp_all add: ring_inv_def ring_items_def ring_ok_def)

interpretation ring: bounded_queue "ring_put st" ring_get ring_items ring_inv ring_budget 16384 event_fits
proof unfold_locales
  fix q :: trace_ring and x :: trace_event
  assume q: "ring_inv q" and x: "event_fits x" and b: "0 < ring_budget q"
  obtain w where put: "ring_put st q x = (if enqueuePosition q = dequeuePosition q + TRACE_RING_CAPACITY
     then (None, q\<lparr>eventSequence := eventSequence q + 1, droppedEvents := droppedEvents q + 1\<rparr>)
     else (Some (event_view (stamp q x)), (published q x)\<lparr>wakePending := w\<rparr>))"
    using ring_put_cases [OF q x b] by blast
  have room: "enqueuePosition q < 2 ^ 62" using b by (simp add: ring_budget_def)
  have free: "enqueuePosition q < dequeuePosition q + TRACE_RING_CAPACITY"
    if "enqueuePosition q \<noteq> dequeuePosition q + TRACE_RING_CAPACITY"
    using that q by (auto simp: ring_inv_def)
  have "ring_budget q \<le> Suc (ring_budget ((published q x)\<lparr>wakePending := v\<rparr>))" for v
    using room by (simp add: ring_budget_def published_def set_slot_def)
  moreover have "ring_budget (q\<lparr>eventSequence := k, droppedEvents := d\<rparr>) = ring_budget q" for k d
    by (simp add: ring_budget_def)
  ultimately show "ring_inv (snd (ring_put st q x)) \<and> ring_budget q \<le> Suc (ring_budget (snd (ring_put st q x)))"
    using q free published_inv [OF q room] by (simp add: put ring_inv_counters)
  show "ring_items (snd (ring_put st q x)) =
       (case fst (ring_put st q x) of None \<Rightarrow> ring_items q | Some v \<Rightarrow> ring_items q @ [v])"
    using free published_items [OF q x] by (simp add: put ring_inv_counters)
  show "fst (ring_put st q x) = None \<longleftrightarrow> length (ring_items q) = 16384"
    using q by (auto simp: put length_ring_items TRACE_RING_CAPACITY_def ring_inv_def)
next
  fix q :: trace_ring assume q: "ring_inv q"
  note get = ring_get_cases [OF q]
  have empty: "ring_items q = []" if "enqueuePosition q = dequeuePosition q"
    using that by (simp add: ring_items_def)
  show "ring_inv (snd (ring_get q)) \<and> ring_budget (snd (ring_get q)) = ring_budget q"
    using q get_inv_items(1,2) [OF q _ refl] by (simp add: get)
  show "ring_items q = (case fst (ring_get q) of None \<Rightarrow> [] | Some v \<Rightarrow> v # ring_items (snd (ring_get q)))"
    using empty get_inv_items(3) [OF q _ refl] by (simp add: get)
  show "fst (ring_get q) = None \<Longrightarrow> ring_items (snd (ring_get q)) = []"
    using empty by (simp add: get split: if_splits)
  show "length (ring_items q) \<le> 16384"
    using q by (auto simp: length_ring_items ring_inv_def TRACE_RING_CAPACITY_def)
qed

lemma EmitTraceEvent_outcome:
  assumes "ring_inv r" "event_fits e" "enqueuePosition r < 2 ^ 62"
  shows "\<exists>ok r'. EmitTraceEvent setEvent (Some r) (Some e) = Some (ok, Some (stamp r e), Some r') \<and>
     (ok \<longleftrightarrow> length (ring_items r) < 16384) \<and>
     droppedEvents r' = (if ok then droppedEvents r else droppedEvents r + 1) \<and>
     ring_items r' = (if ok then ring_items r @ [event_view (stamp r e)] else ring_items r)"
proof -
  have "event_ok e" using assms(2) by (simp add: event_fits_def)
  from EmitTraceEvent_cases [OF assms(1) this assms(3), of setEvent] obtain w where
    w: "EmitTraceEvent setEvent (Some r) (Some e) =
     (if enqueuePosition r = dequeuePosition r + TRACE_RING_CAPACITY
      then Some (False, Some (stamp r e),
        Some (r\<lparr>eventSequence := eventSequence r + 1, droppedEvents := droppedEvents r + 1\<rparr>))
      else Some (True, Some (stamp r e), Some ((published r e)\<lparr>wakePending := w\<rparr>)))" ..
  have len: "length (ring_items r) < 16384 \<longleftrightarrow> enqueuePosition r \<noteq> dequeuePosition r + TRACE_RING_CAPACITY"
    using assms(1) by (auto simp: length_ring_items TRACE_RING_CAPACITY_def ring_inv_def)
  show ?thesis
  proof (cases "enqueuePosition r = dequeuePosition r + TRACE_RING_CAPACITY")
    case True
    then show ?thesis using w len by (auto simp: ring_inv_counters)
  next
    case False
    then have "enqueuePosition r < dequeuePosition r + TRACE_RING_CAPACITY"
      using assms(1) by (auto simp: ring_inv_def)
    from published_items [OF assms(1,2) this] False show ?thesis
      using w len by (auto simp: published_def set_slot_def)
  qed
qed

subsection \<open>Properties\<close>

text \<open>C25: The shared ring is a bounded first-in first-out queue. From the ring the session creates,
  run any sequence of uninterrupted publishes and reads (fewer than \<open>2 ^ 62\<close>), whatever the wake-up
  call returns: the events read are exactly the first of the accepted ones, in order and byte
  for byte (header and used payload), the rest are still queued, and never more than 16384 are.\<close>

theorem ring_is_fifo:
  assumes "int (length ops) \<le> 2 ^ 62" "\<forall>e. Some e \<in> set ops \<longrightarrow> event_fits e"
    and "ring.run setEvent ops init_ring = (accepted, received, r)"
  shows "accepted = received @ ring_items r \<and> length (ring_items r) \<le> 16384"
proof -
  have "length ops \<le> ring_budget init_ring"
    using assms(1) by (simp add: ring_budget_def init_ring_def le_nat_iff)
  from ring.run_fifo [OF ring_inv_init this assms(2,3)] show ?thesis by (simp add: ring_items_init)
qed

definition bare_event :: trace_event where
  "bare_event = zero_event\<lparr>header := zero_header\<lparr>h_magic := TRACE_EVENT_MAGIC,
     h_version := TRACE_EVENT_VERSION, h_size := 32\<rparr>\<rparr>"

lemma bare_event_fits: "event_fits bare_event"
  by (simp add: event_fits_def event_ok_def bare_event_def zero_event_def zero_header_def TraceNameBytes_def)

lemma ring_is_fifo_witness:
  "\<exists>accepted received r. ring.run None [Some bare_event, None] init_ring = (accepted, received, r)
     \<and> accepted = received @ ring_items r"
proof -
  obtain a b c where "ring.run None [Some bare_event, None] init_ring = (a, b, c)"
    by (metis prod_cases3)
  then show ?thesis using ring_is_fifo [of "[Some bare_event, None]" None a b c] bare_event_fits by auto
qed

text \<open>An event is dropped only when the ring is full. On a reachable ring a publish of a
  well-formed event always returns: it fails exactly when 16384 events are queued, and then it
  leaves the queue alone and counts the drop; otherwise it succeeds and counts none.\<close>

theorem drop_only_when_full:
  assumes "ring_inv r" "event_fits e" "enqueuePosition r < 2 ^ 62"
  shows "\<exists>ok r'. EmitTraceEvent setEvent (Some r) (Some e) = Some (ok, Some (stamp r e), Some r') \<and>
     (ok \<longleftrightarrow> length (ring_items r) < 16384) \<and>
     droppedEvents r' = (if ok then droppedEvents r else droppedEvents r + 1) \<and>
     ring_items r' = (if ok then ring_items r @ [event_view (stamp r e)] else ring_items r)"
  using assms by (rule EmitTraceEvent_outcome)

lemma drop_only_when_full_witness:
  "\<exists>r'. EmitTraceEvent None (Some init_ring) (Some bare_event) = Some (True, Some (stamp init_ring bare_event), Some r')"
proof -
  have "enqueuePosition init_ring < 2 ^ 62" by (simp add: init_ring_def)
  from drop_only_when_full [OF ring_inv_init bare_event_fits this, of None] show ?thesis
    by (auto simp: ring_items_init)
qed

end
