(* ===== verification/Trace_Ring_Steps.thy ===== *)
theory Trace_Ring_Steps
  imports Trace_Ring
begin

section \<open>The shared ring under every interleaving\<close>

text \<open>
  Any number of hooked threads publish while the reader thread of the session consumes. Every
  interlocked access, every copy and every wake-up call of \<open>EmitTraceEvent\<close>, \<open>TryReadRing\<close> and
  \<open>ReaderLoop\<close> is one step of the relation \<open>ring_step\<close>; a thread's program counter holds its
  local variables. \<open>claimed\<close> and \<open>received\<close> record the events whose claim succeeded and the
  events the reader delivered; \<open>wakeFailed\<close> records a failed wake-up call. States are reached with
  fewer than \<open>2 ^ 62\<close> claims, so no 64-bit position wraps.
\<close>

datatype prod_pc =
    PIdle
  | PStart trace_event
  | PPos trace_event int
  | PSeq trace_event int int
  | PClaimed trace_event int
  | PCopied trace_event int
  | PPublished
  | PWaking
  | PUnwake

text \<open>\<open>Some n\<close> is a batch that has read \<open>n\<close> events, \<open>None\<close> the second look before waiting.\<close>

datatype reader_pc =
    RTry "nat option"
  | RPos "nat option" int
  | RHit "nat option" int
  | RCopied "nat option" int trace_event
  | RReleased "nat option" int trace_event
  | RClear
  | RWait
  | RStopped
  | RFailed

record ring_sys =
  ring :: trace_ring
  prods :: "nat \<Rightarrow> prod_pc"
  reader :: reader_pc
  signaled :: bool
  stopSignal :: bool
  stopping :: bool
  claimed :: "trace_event list"
  received :: "trace_event list"
  wakeFailed :: bool

definition TRACE_RING_READ_BATCH :: nat where
  "TRACE_RING_READ_BATCH = 256"

definition seq_at :: "ring_sys \<Rightarrow> int \<Rightarrow> int" where
  "seq_at s p = slot_sequence (slots (ring s) (slot_index p))"

definition set_prod :: "nat \<Rightarrow> prod_pc \<Rightarrow> ring_sys \<Rightarrow> ring_sys" where
  "set_prod t pc s = s\<lparr>prods := (prods s)(t := pc)\<rparr>"

inductive emit_step :: "bool \<Rightarrow> nat \<Rightarrow> ring_sys \<Rightarrow> ring_sys \<Rightarrow> bool" for wake :: bool and t :: nat where
  emit: "prods s t = PIdle \<Longrightarrow> ring_ok (ring s) \<Longrightarrow> event_fits e \<Longrightarrow>
    emit_step wake t s (set_prod t (PStart (stamp (ring s) e))
      (s\<lparr>ring := (ring s)\<lparr>eventSequence := eventSequence (ring s) + 1\<rparr>\<rparr>))"
| load_position: "prods s t = PStart e \<Longrightarrow>
    emit_step wake t s (set_prod t (PPos e (enqueuePosition (ring s))) s)"
| load_sequence: "prods s t = PPos e p \<Longrightarrow>
    emit_step wake t s (set_prod t (PSeq e p (seq_at s p)) s)"
| drop: "prods s t = PSeq e p q \<Longrightarrow> s64 (q - p) < 0 \<Longrightarrow>
    emit_step wake t s (set_prod t PIdle
      (s\<lparr>ring := (ring s)\<lparr>droppedEvents := droppedEvents (ring s) + 1\<rparr>\<rparr>))"
| retry: "prods s t = PSeq e p q \<Longrightarrow> s64 (q - p) > 0 \<Longrightarrow> emit_step wake t s (set_prod t (PStart e) s)"
| cas_fail: "prods s t = PSeq e p q \<Longrightarrow> s64 (q - p) = 0 \<Longrightarrow> enqueuePosition (ring s) \<noteq> p \<Longrightarrow>
    emit_step wake t s (set_prod t (PStart e) s)"
| cas_ok: "prods s t = PSeq e p q \<Longrightarrow> s64 (q - p) = 0 \<Longrightarrow> enqueuePosition (ring s) = p \<Longrightarrow>
    emit_step wake t s (set_prod t (PClaimed e p)
      (s\<lparr>ring := (ring s)\<lparr>enqueuePosition := s64 (p + 1)\<rparr>, claimed := claimed s @ [e]\<rparr>))"
| copy: "prods s t = PClaimed e p \<Longrightarrow>
    emit_step wake t s (set_prod t (PCopied e p)
      (s\<lparr>ring := set_slot p (\<lambda>sl. sl\<lparr>slot_event := copy_event (slot_event sl) e\<rparr>) (ring s)\<rparr>))"
| publish: "prods s t = PCopied e p \<Longrightarrow>
    emit_step wake t s (set_prod t PPublished
      (s\<lparr>ring := set_slot p (\<lambda>sl. sl\<lparr>slot_sequence := s64 (p + 1)\<rparr>) (ring s)\<rparr>))"
| wake_unconfigured: "prods s t = PPublished \<Longrightarrow> \<not> wake \<Longrightarrow> emit_step wake t s (set_prod t PIdle s)"
| wake_pending: "prods s t = PPublished \<Longrightarrow> wake \<Longrightarrow> wakePending (ring s) \<noteq> 0 \<Longrightarrow>
    emit_step wake t s (set_prod t PIdle (s\<lparr>ring := (ring s)\<lparr>wakePending := 1\<rparr>\<rparr>))"
| wake_first: "prods s t = PPublished \<Longrightarrow> wake \<Longrightarrow> wakePending (ring s) = 0 \<Longrightarrow>
    emit_step wake t s (set_prod t PWaking (s\<lparr>ring := (ring s)\<lparr>wakePending := 1\<rparr>\<rparr>))"
| set_event: "prods s t = PWaking \<Longrightarrow> emit_step wake t s (set_prod t PIdle (s\<lparr>signaled := True\<rparr>))"
| set_event_fails: "prods s t = PWaking \<Longrightarrow> emit_step wake t s (set_prod t PUnwake (s\<lparr>wakeFailed := True\<rparr>))"
| unwake: "prods s t = PUnwake \<Longrightarrow>
    emit_step wake t s (set_prod t PIdle (s\<lparr>ring := (ring s)\<lparr>wakePending := 0\<rparr>\<rparr>))"

inductive read_step :: "ring_sys \<Rightarrow> ring_sys \<Rightarrow> bool" where
  r_load: "reader s = RTry m \<Longrightarrow> read_step s (s\<lparr>reader := RPos m (dequeuePosition (ring s))\<rparr>)"
| r_miss: "reader s = RPos (Some n) p \<Longrightarrow> seq_at s p \<noteq> s64 (p + 1) \<Longrightarrow>
    read_step s (s\<lparr>reader := (if n \<noteq> 0 then RTry (Some 0) else RClear)\<rparr>)"
| r_miss_again: "reader s = RPos None p \<Longrightarrow> seq_at s p \<noteq> s64 (p + 1) \<Longrightarrow>
    read_step s (s\<lparr>reader := (if stopping s then RStopped else RWait)\<rparr>)"
| r_hit: "reader s = RPos m p \<Longrightarrow> seq_at s p = s64 (p + 1) \<Longrightarrow> read_step s (s\<lparr>reader := RHit m p\<rparr>)"
| r_copy: "reader s = RHit m p \<Longrightarrow>
    read_step s (s\<lparr>reader := RCopied m p (slot_event (slots (ring s) (slot_index p)))\<rparr>)"
| r_release: "reader s = RCopied m p e \<Longrightarrow>
    read_step s (s\<lparr>ring := set_slot p (\<lambda>sl. sl\<lparr>slot_sequence := s64 (p + TRACE_RING_CAPACITY)\<rparr>) (ring s),
      reader := RReleased m p e\<rparr>)"
| r_advance: "reader s = RReleased m p e \<Longrightarrow>
    read_step s (s\<lparr>ring := (ring s)\<lparr>dequeuePosition := s64 (p + 1)\<rparr>, received := received s @ [e],
      reader := RTry (case m of Some n \<Rightarrow> if Suc n < TRACE_RING_READ_BATCH then Some (Suc n) else Some 0
        | None \<Rightarrow> Some 0)\<rparr>)"
| r_clear: "reader s = RClear \<Longrightarrow>
    read_step s (s\<lparr>ring := (ring s)\<lparr>wakePending := 0\<rparr>, reader := RTry None\<rparr>)"
| r_wake: "reader s = RWait \<Longrightarrow> signaled s \<Longrightarrow>
    read_step s (s\<lparr>signaled := False, reader := RTry (Some 0)\<rparr>)"
| r_stop: "reader s = RWait \<Longrightarrow> \<not> signaled s \<Longrightarrow> stopSignal s \<Longrightarrow>
    read_step s (s\<lparr>stopping := True, reader := RTry (Some 0)\<rparr>)"
| r_fail: "reader s = RWait \<Longrightarrow> read_step s (s\<lparr>reader := RFailed\<rparr>)"

inductive ring_step :: "bool \<Rightarrow> ring_sys \<Rightarrow> ring_sys \<Rightarrow> bool" for wake :: bool where
  produce: "emit_step wake t s s' \<Longrightarrow> ring_step wake s s'"
| consume: "read_step s s' \<Longrightarrow> ring_step wake s s'"
| stop: "ring_step wake s (s\<lparr>stopSignal := True\<rparr>)"

definition init_sys :: ring_sys where
  "init_sys = \<lparr>ring = init_ring, prods = (\<lambda>_. PIdle), reader = RTry (Some 0), signaled = False,
     stopSignal = False, stopping = False, claimed = [], received = [], wakeFailed = False\<rparr>"

inductive ring_reach :: "bool \<Rightarrow> ring_sys \<Rightarrow> bool" for wake :: bool where
  start: "ring_reach wake init_sys"
| step: "ring_reach wake s \<Longrightarrow> ring_step wake s s' \<Longrightarrow> enqueuePosition (ring s') \<le> 2 ^ 62 \<Longrightarrow>
    ring_reach wake s'"

subsection \<open>The core of the invariant\<close>

text \<open>
  \<open>d\<close> is the dequeue position, \<open>h\<close> the head (one more than \<open>d\<close> between releasing a slot and
  advancing), \<open>n\<close> the enqueue position; \<open>own t\<close> is the position and event a producer holds and
  whether it has been copied.
\<close>

definition core :: "int \<Rightarrow> int \<Rightarrow> int \<Rightarrow> (int \<Rightarrow> int) \<Rightarrow> (int \<Rightarrow> event_header \<times> byte list) \<Rightarrow>
    (nat \<Rightarrow> (int \<times> trace_event \<times> bool) option) \<Rightarrow> trace_event list \<Rightarrow> trace_event list \<Rightarrow> bool" where
  "core d h n seq view own clm rcv \<longleftrightarrow>
     0 \<le> d \<and> d \<le> h \<and> h \<le> n \<and> n \<le> h + TRACE_RING_CAPACITY \<and> n \<le> 2 ^ 62 \<and>
     length clm = nat n \<and> length rcv = nat d \<and>
     (\<forall>i < nat d. event_view (rcv ! i) = event_view (clm ! i)) \<and>
     (\<forall>t p e b. own t = Some (p, e, b) \<longrightarrow> h \<le> p \<and> p < n \<and> clm ! nat p = e \<and> event_fits e \<and>
        seq p = p \<and> (b \<longrightarrow> view p = event_view e)) \<and>
     (\<forall>t t' p e b e' b'. own t = Some (p, e, b) \<and> own t' = Some (p, e', b') \<longrightarrow> t = t') \<and>
     (\<forall>p. h \<le> p \<and> p < n \<longrightarrow> (seq p = p \<and> (\<exists>t e b. own t = Some (p, e, b))) \<or>
        (seq p = p + 1 \<and> view p = event_view (clm ! nat p))) \<and>
     (\<forall>p. n \<le> p \<and> p < h + TRACE_RING_CAPACITY \<longrightarrow> seq p = p)"

lemma core_bounds:
  "core d h n seq view own clm rcv \<Longrightarrow> 0 \<le> d \<and> d \<le> h \<and> h \<le> n \<and> n \<le> h + TRACE_RING_CAPACITY \<and> n \<le> 2 ^ 62 \<and>
     length clm = nat n \<and> length rcv = nat d"
  by (simp add: core_def)

lemma core_own:
  "core d h n seq view own clm rcv \<Longrightarrow> own t = Some (p, e, b) \<Longrightarrow>
   h \<le> p \<and> p < n \<and> clm ! nat p = e \<and> event_fits e \<and> seq p = p \<and> (b \<longrightarrow> view p = event_view e)"
  unfolding core_def by blast

lemma core_own_unique:
  "core d h n seq view own clm rcv \<Longrightarrow> own t = Some (p, e, b) \<Longrightarrow> own t' = Some (p, e', b') \<Longrightarrow> t = t'"
  unfolding core_def by blast

lemma core_slot:
  assumes "core d h n seq view own clm rcv" "h \<le> p" "p < n"
  obtains t e b where "seq p = p" "own t = Some (p, e, b)"
    | "seq p = p + 1" "view p = event_view (clm ! nat p)"
  using assms unfolding core_def by blast

lemma core_slot_cases:
  "core d h n seq view own clm rcv \<Longrightarrow> h \<le> p \<Longrightarrow> p < n \<Longrightarrow>
   (seq p = p \<and> (\<exists>t e b. own t = Some (p, e, b))) \<or> (seq p = p + 1 \<and> view p = event_view (clm ! nat p))"
  unfolding core_def by blast

lemma core_free:
  "core d h n seq view own clm rcv \<Longrightarrow> n \<le> p \<Longrightarrow> p < h + TRACE_RING_CAPACITY \<Longrightarrow> seq p = p"
  unfolding core_def by blast

lemma core_received:
  "core d h n seq view own clm rcv \<Longrightarrow> i < nat d \<Longrightarrow> event_view (rcv ! i) = event_view (clm ! i)"
  unfolding core_def by blast

lemma coreI:
  assumes "0 \<le> d" "d \<le> h" "h \<le> n" "n \<le> h + TRACE_RING_CAPACITY" "n \<le> 2 ^ 62"
    "length clm = nat n" "length rcv = nat d"
    "\<And>i. i < nat d \<Longrightarrow> event_view (rcv ! i) = event_view (clm ! i)"
    "\<And>t p e b. own t = Some (p, e, b) \<Longrightarrow> h \<le> p \<and> p < n \<and> clm ! nat p = e \<and> event_fits e \<and>
        seq p = p \<and> (b \<longrightarrow> view p = event_view e)"
    "\<And>t t' p e b e' b'. own t = Some (p, e, b) \<Longrightarrow> own t' = Some (p, e', b') \<Longrightarrow> t = t'"
    "\<And>p. h \<le> p \<Longrightarrow> p < n \<Longrightarrow> (seq p = p \<and> (\<exists>t e b. own t = Some (p, e, b))) \<or>
        (seq p = p + 1 \<and> view p = event_view (clm ! nat p))"
    "\<And>p. n \<le> p \<Longrightarrow> p < h + TRACE_RING_CAPACITY \<Longrightarrow> seq p = p"
  shows "core d h n seq view own clm rcv"
  using assms unfolding core_def by blast

abbreviation upd_at :: "(int \<Rightarrow> 'b) \<Rightarrow> int \<Rightarrow> 'b \<Rightarrow> int \<Rightarrow> 'b" where
  "upd_at f p v \<equiv> (\<lambda>q. if slot_index q = slot_index p then v else f q)"

lemma core_claim:
  assumes c: "core d h n seq view own clm rcv" and "n < h + TRACE_RING_CAPACITY" "n < 2 ^ 62"
    and o: "own t = None" and e: "event_fits e"
  shows "core d h (n + 1) seq view (own(t \<mapsto> (n, e, False))) (clm @ [e]) rcv"
proof -
  have len: "length clm = nat n" "0 \<le> n" using c by (auto simp: core_def)
  have nth: "(clm @ [e]) ! nat p = (if p = n then e else clm ! nat p)" if "0 \<le> p" "p \<le> n" for p
    using that len by (auto simp: nth_append)
  note b = core_bounds [OF c]
  show ?thesis
  proof (rule coreI)
    fix p assume p: "h \<le> p" "p < n + 1"
    show "seq p = p \<and> (\<exists>ta ea b. (own(t \<mapsto> (n, e, False))) ta = Some (p, ea, b)) \<or>
         seq p = p + 1 \<and> view p = event_view ((clm @ [e]) ! nat p)"
    proof (cases "p = n")
      case True
      then have "seq p = p" using core_free [OF c, of n] assms(2) by simp
      then show ?thesis using True by auto
    next
      case False
      with p have "p < n" by simp
      with c p(1) show ?thesis
      proof (cases rule: core_slot)
        case (1 u e' b)
        then have "(own(t \<mapsto> (n, e, False))) u = Some (p, e', b)" using o by auto
        with 1 show ?thesis by blast
      next
        case 2
        then show ?thesis using nth [of p] p b False by simp
      qed
    qed
  next
    fix i assume i: "i < nat d"
    then have "i < length clm" using b by auto
    then show "event_view (rcv ! i) = event_view ((clm @ [e]) ! i)"
      using core_received [OF c i] by (simp add: nth_append)
  next
    fix u p e' b' assume u: "(own(t \<mapsto> (n, e, False))) u = Some (p, e', b')"
    show "h \<le> p \<and> p < n + 1 \<and> (clm @ [e]) ! nat p = e' \<and> event_fits e' \<and> seq p = p \<and> (b' \<longrightarrow> view p = event_view e')"
    proof (cases "u = t")
      case True
      then show ?thesis using u e b core_free [OF c, of n] assms(2) len by (auto simp: nth_append)
    next
      case False
      then have "own u = Some (p, e', b')" using u by simp
      from core_own [OF c this] show ?thesis using nth [of p] b by auto
    qed
  next
    fix u u' p e1 b1 e2 b2
    assume "(own(t \<mapsto> (n, e, False))) u = Some (p, e1, b1)" "(own(t \<mapsto> (n, e, False))) u' = Some (p, e2, b2)"
    then show "u = u'"
      using core_own [OF c, of _ p] core_own_unique [OF c] by (fastforce split: if_splits)
  next
    fix p assume "n + 1 \<le> p" "p < h + TRACE_RING_CAPACITY"
    then show "seq p = p" using core_free [OF c, of p] by simp
  qed (use b assms(2,3) in auto)
qed

lemma window_index:
  "h \<le> p \<Longrightarrow> p < h + TRACE_RING_CAPACITY \<Longrightarrow> h \<le> q \<Longrightarrow> q < h + TRACE_RING_CAPACITY \<Longrightarrow>
   slot_index p = slot_index q \<longleftrightarrow> p = q"
  by (rule slot_index_eq) simp

lemma core_copy:
  assumes c: "core d h n seq view own clm rcv" and o: "own t = Some (p, e, b0)"
  shows "core d h n seq (upd_at view p (event_view e)) (own(t \<mapsto> (p, e, True))) clm rcv"
proof (rule coreI)
  note b = core_bounds [OF c]
  note own = core_own [OF c o]
  have near: "slot_index q = slot_index p \<longleftrightarrow> q = p" if "h \<le> q" "q < n" for q
    using window_index [of h q p] that own b by simp
  fix q assume q: "h \<le> q" "q < n"
  from c q show "seq q = q \<and> (\<exists>ta ea b. (own(t \<mapsto> (p, e, True))) ta = Some (q, ea, b)) \<or>
      seq q = q + 1 \<and> upd_at view p (event_view e) q = event_view (clm ! nat q)"
  proof (cases rule: core_slot)
    case (1 u e' b')
    then show ?thesis
    proof (cases "u = t")
      case True
      then show ?thesis using 1 o by auto
    next
      case False
      then have "(own(t \<mapsto> (p, e, True))) u = Some (q, e', b')" using 1 by simp
      then show ?thesis using 1 by blast
    qed
  next
    case 2
    then have "q \<noteq> p" using own by auto
    then show ?thesis using 2 near q by simp
  qed
next
  note b = core_bounds [OF c]
  fix u q e' b' assume u: "(own(t \<mapsto> (p, e, True))) u = Some (q, e', b')"
  show "h \<le> q \<and> q < n \<and> clm ! nat q = e' \<and> event_fits e' \<and> seq q = q \<and>
      (b' \<longrightarrow> upd_at view p (event_view e) q = event_view e')"
  proof (cases "u = t")
    case True
    then show ?thesis using u core_own [OF c o] by auto
  next
    case False
    then have u: "own u = Some (q, e', b')" using u by simp
    then have "q \<noteq> p" using core_own_unique [OF c u, of t e b0] o False by auto
    then have "slot_index q \<noteq> slot_index p"
      using window_index [of h q p] core_own [OF c u] core_own [OF c o] b by auto
    then show ?thesis using core_own [OF c u] by simp
  qed
next
  fix u u' q e1 b1 e2 b2
  assume "(own(t \<mapsto> (p, e, True))) u = Some (q, e1, b1)" "(own(t \<mapsto> (p, e, True))) u' = Some (q, e2, b2)"
  then show "u = u'" using core_own_unique [OF c] o by (auto split: if_splits)
qed (use core_bounds [OF c] core_received [OF c] core_free [OF c] in auto)

lemma core_publish:
  assumes c: "core d h n seq view own clm rcv" and o: "own t = Some (p, e, True)"
  shows "core d h n (upd_at seq p (p + 1)) view (own(t := None)) clm rcv"
proof (rule coreI)
  note b = core_bounds [OF c]
  note own = core_own [OF c o]
  have near: "slot_index q = slot_index p \<longleftrightarrow> q = p" if "h \<le> q" "q < h + TRACE_RING_CAPACITY" for q
    using window_index [of h q p] that own b by simp
  {
    fix q assume q: "h \<le> q" "q < n"
    from c q show "upd_at seq p (p + 1) q = q \<and> (\<exists>ta ea b. (own(t := None)) ta = Some (q, ea, b)) \<or>
        upd_at seq p (p + 1) q = q + 1 \<and> view q = event_view (clm ! nat q)"
    proof (cases rule: core_slot)
      case (1 u e' b')
      show ?thesis
      proof (cases "q = p")
        case True
        then show ?thesis using own by simp
      next
        case False
        then have "u \<noteq> t" using 1 o by auto
        then have "(own(t := None)) u = Some (q, e', b')" using 1 by simp
        moreover have "upd_at seq p (p + 1) q = q" using 1 False near q b by simp
        ultimately show ?thesis by blast
      qed
    next
      case 2
      then have "q \<noteq> p" using own by auto
      then show ?thesis using 2 near q b by simp
    qed
  next
    fix u q e' b' assume "(own(t := None)) u = Some (q, e', b')"
    then have u: "own u = Some (q, e', b')" "u \<noteq> t" by (auto split: if_splits)
    then have "q \<noteq> p" using core_own_unique [OF c u(1), of t e True] o u(2) by auto
    then show "h \<le> q \<and> q < n \<and> clm ! nat q = e' \<and> event_fits e' \<and> upd_at seq p (p + 1) q = q \<and>
        (b' \<longrightarrow> view q = event_view e')"
      using core_own [OF c u(1)] near b by auto
  next
    fix u u' q e1 b1 e2 b2
    assume "(own(t := None)) u = Some (q, e1, b1)" "(own(t := None)) u' = Some (q, e2, b2)"
    then show "u = u'" using core_own_unique [OF c] by (auto split: if_splits)
  next
    fix q assume q: "n \<le> q" "q < h + TRACE_RING_CAPACITY"
    then show "upd_at seq p (p + 1) q = q" using core_free [OF c q] near own b by auto
  }
qed (use core_bounds [OF c] core_received [OF c] in auto)

lemma core_release:
  assumes c: "core d d n seq view own clm rcv" and pub: "seq d = d + 1"
  shows "d < n" "core d (d + 1) n (upd_at seq d (d + TRACE_RING_CAPACITY)) view own clm rcv"
proof -
  note b = core_bounds [OF c]
  have N: "0 < TRACE_RING_CAPACITY" by (simp add: TRACE_RING_CAPACITY_def)
  show lt: "d < n"
    using core_free [OF c, of d] pub b N by (cases "d = n") auto
  have near: "slot_index q = slot_index d \<longleftrightarrow> q = d" if "d \<le> q" "q < d + TRACE_RING_CAPACITY" for q
    using window_index [of d q d] that N by simp
  have notd: "q \<noteq> d" if "own t = Some (q, e, b)" for t q e b
    using core_own [OF c that] pub by auto
  show "core d (d + 1) n (upd_at seq d (d + TRACE_RING_CAPACITY)) view own clm rcv"
  proof (rule coreI)
    fix q assume q: "d + 1 \<le> q" "q < n"
    then have dq: "d \<le> q" and ne: "slot_index q \<noteq> slot_index d" using near [of q] b by auto
    show "upd_at seq d (d + TRACE_RING_CAPACITY) q = q \<and> (\<exists>t e b. own t = Some (q, e, b)) \<or>
        upd_at seq d (d + TRACE_RING_CAPACITY) q = q + 1 \<and> view q = event_view (clm ! nat q)"
      unfolding if_not_P [OF ne] by (rule core_slot_cases [OF c dq q(2)])
  next
    fix t q e b' assume o: "own t = Some (q, e, b')"
    then show "d + 1 \<le> q \<and> q < n \<and> clm ! nat q = e \<and> event_fits e \<and>
        upd_at seq d (d + TRACE_RING_CAPACITY) q = q \<and> (b' \<longrightarrow> view q = event_view e)"
      using core_own [OF c o] notd [OF o] near [of q] b by auto
  next
    fix q assume q: "n \<le> q" "q < d + 1 + TRACE_RING_CAPACITY"
    show "upd_at seq d (d + TRACE_RING_CAPACITY) q = q"
    proof (cases "q = d + TRACE_RING_CAPACITY")
      case False
      then have "slot_index q \<noteq> slot_index d" using near [of q] q lt by auto
      then show ?thesis using core_free [OF c, of q] q False by simp
    qed simp
  qed (use b lt core_received [OF c] core_own_unique [OF c] in auto)
qed

lemma core_advance:
  assumes c: "core d (d + 1) n seq view own clm rcv" and e: "event_view e = event_view (clm ! nat d)"
  shows "core (d + 1) (d + 1) n seq view own clm (rcv @ [e])"
proof (rule coreI)
  note b = core_bounds [OF c]
  fix i assume "i < nat (d + 1)"
  then have "i < nat d \<or> i = nat d" using b by auto
  then show "event_view ((rcv @ [e]) ! i) = event_view (clm ! i)"
    using core_received [OF c] b e by (auto simp: nth_append)
next
  fix p assume "d + 1 \<le> p" "p < n"
  with c show "seq p = p \<and> (\<exists>t e b. own t = Some (p, e, b)) \<or> seq p = p + 1 \<and> view p = event_view (clm ! nat p)"
    by (rule core_slot_cases)
qed (use core_bounds [OF c] core_own [OF c] core_own_unique [OF c] core_free [OF c] in auto)

subsection \<open>The invariant of the system\<close>

fun pc_own :: "prod_pc \<Rightarrow> (int \<times> trace_event \<times> bool) option" where
  "pc_own (PClaimed e p) = Some (p, e, False)"
| "pc_own (PCopied e p) = Some (p, e, True)"
| "pc_own _ = None"

definition own :: "ring_sys \<Rightarrow> nat \<Rightarrow> (int \<times> trace_event \<times> bool) option" where
  "own s = pc_own \<circ> prods s"

definition view_at :: "ring_sys \<Rightarrow> int \<Rightarrow> event_header \<times> byte list" where
  "view_at s p = event_view (slot_event (slots (ring s) (slot_index p)))"

definition head_pos :: "ring_sys \<Rightarrow> int" where
  "head_pos s = (case reader s of RReleased m p e \<Rightarrow> dequeuePosition (ring s) + 1
     | _ \<Rightarrow> dequeuePosition (ring s))"

abbreviation enq :: "ring_sys \<Rightarrow> int" where
  "enq s \<equiv> enqueuePosition (ring s)"

abbreviation deq :: "ring_sys \<Rightarrow> int" where
  "deq s \<equiv> dequeuePosition (ring s)"

definition core_inv :: "ring_sys \<Rightarrow> bool" where
  "core_inv s \<longleftrightarrow> core (deq s) (head_pos s) (enq s) (seq_at s) (view_at s) (own s) (claimed s) (received s)"

fun pc_inv :: "ring_sys \<Rightarrow> prod_pc \<Rightarrow> bool" where
  "pc_inv s (PStart e) \<longleftrightarrow> event_fits e"
| "pc_inv s (PPos e p) \<longleftrightarrow> event_fits e \<and> 0 \<le> p \<and> p \<le> enq s"
| "pc_inv s (PSeq e p q) \<longleftrightarrow> event_fits e \<and> 0 \<le> p \<and> p \<le> enq s \<and> 0 \<le> q \<and> q \<le> seq_at s p"
| "pc_inv s _ \<longleftrightarrow> True"

fun reader_inv :: "ring_sys \<Rightarrow> reader_pc \<Rightarrow> bool" where
  "reader_inv s (RPos m p) \<longleftrightarrow> p = deq s"
| "reader_inv s (RHit m p) \<longleftrightarrow> p = deq s \<and> seq_at s p = p + 1"
| "reader_inv s (RCopied m p e) \<longleftrightarrow> p = deq s \<and> seq_at s p = p + 1 \<and> event_view e = event_view (claimed s ! nat p)"
| "reader_inv s (RReleased m p e) \<longleftrightarrow> p = deq s \<and> event_view e = event_view (claimed s ! nat p)"
| "reader_inv s _ \<longleftrightarrow> True"

definition sys_inv :: "ring_sys \<Rightarrow> bool" where
  "sys_inv s \<longleftrightarrow> ring_ok (ring s) \<and> core_inv s \<and> (\<forall>t. pc_inv s (prods s t)) \<and> reader_inv s (reader s)"

lemma own_set_prod: "own (set_prod t pc s) = (own s)(t := pc_own pc)"
  by (simp add: own_def set_prod_def fun_upd_comp)

lemma set_prod_simps [simp]:
  "ring (set_prod t pc s) = ring s" "reader (set_prod t pc s) = reader s"
  "claimed (set_prod t pc s) = claimed s" "received (set_prod t pc s) = received s"
  "signaled (set_prod t pc s) = signaled s" "wakeFailed (set_prod t pc s) = wakeFailed s"
  "stopping (set_prod t pc s) = stopping s"
  "prods (set_prod t pc s) = (prods s)(t := pc)"
  "seq_at (set_prod t pc s) = seq_at s" "view_at (set_prod t pc s) = view_at s"
  "head_pos (set_prod t pc s) = head_pos s"
  by (simp_all add: set_prod_def seq_at_def view_at_def head_pos_def fun_eq_iff split: reader_pc.split)

text \<open>Every slot stands for one position of the window, so its sequence is bounded.\<close>

lemma window_rep:
  obtains q where "h \<le> q" "q < h + TRACE_RING_CAPACITY" "slot_index q = slot_index p"
    "\<exists>k. q = p + k * TRACE_RING_CAPACITY"
proof
  let ?q = "h + (p - h) mod TRACE_RING_CAPACITY"
  have N: "0 < TRACE_RING_CAPACITY" by (simp add: TRACE_RING_CAPACITY_def)
  show "h \<le> ?q" "?q < h + TRACE_RING_CAPACITY" using N by simp_all
  have "?q mod TRACE_RING_CAPACITY = p mod TRACE_RING_CAPACITY" by (simp add: mod_add_right_eq)
  then show "slot_index ?q = slot_index p" by (simp add: slot_index_def)
  show "\<exists>k. ?q = p + k * TRACE_RING_CAPACITY"
    by (rule exI [of _ "- ((p - h) div TRACE_RING_CAPACITY)"]) (simp add: minus_div_mult_eq_mod [symmetric])
qed

lemma seq_at_index: "slot_index q = slot_index p \<Longrightarrow> seq_at s q = seq_at s p"
  by (simp add: seq_at_def)

lemma core_inv_bounds:
  assumes "core_inv s"
  shows "0 \<le> deq s" "deq s \<le> head_pos s" "head_pos s \<le> enq s" "enq s \<le> head_pos s + TRACE_RING_CAPACITY"
    "enq s \<le> 2 ^ 62"
  using core_bounds [OF assms [unfolded core_inv_def]] by auto

lemma seq_at_rep:
  assumes c: "core_inv s"
  obtains q where "head_pos s \<le> q" "q < head_pos s + TRACE_RING_CAPACITY" "slot_index q = slot_index p"
    "\<exists>k. q = p + k * TRACE_RING_CAPACITY" "seq_at s p = q \<or> (seq_at s p = q + 1 \<and> q < enq s)"
proof -
  obtain q where q: "head_pos s \<le> q" "q < head_pos s + TRACE_RING_CAPACITY" "slot_index q = slot_index p"
    "\<exists>k. q = p + k * TRACE_RING_CAPACITY" by (rule window_rep)
  have "seq_at s q = q \<or> (seq_at s q = q + 1 \<and> q < enq s)"
    using core_slot_cases [OF c [unfolded core_inv_def] q(1)] core_free [OF c [unfolded core_inv_def] _ q(2)]
    by (cases "q < enq s") auto
  with q that show ?thesis using seq_at_index [OF q(3)] by metis
qed

lemma seq_at_bounds:
  assumes "core_inv s"
  shows "0 \<le> seq_at s p" "seq_at s p \<le> 2 ^ 62 + TRACE_RING_CAPACITY"
proof -
  from assms obtain q where q: "head_pos s \<le> q" "q < head_pos s + TRACE_RING_CAPACITY"
    "seq_at s p = q \<or> (seq_at s p = q + 1 \<and> q < enq s)" by (rule seq_at_rep) blast
  with core_inv_bounds [OF assms] show "0 \<le> seq_at s p" "seq_at s p \<le> 2 ^ 62 + TRACE_RING_CAPACITY"
    by auto
qed

text \<open>A slot behind the position means that the ring is full.\<close>

lemma behind_full:
  assumes c: "core_inv s" and "p \<le> enq s" "seq_at s p < p"
  shows "enq s = head_pos s + TRACE_RING_CAPACITY"
proof -
  from c obtain q k where q: "head_pos s \<le> q" "q = p + k * TRACE_RING_CAPACITY"
    "seq_at s p = q \<or> seq_at s p = q + 1" by (rule seq_at_rep [of s p]) blast
  have "k < 0"
  proof (rule ccontr)
    assume "\<not> k < 0"
    then have "p \<le> q" using q(2) by (simp add: TRACE_RING_CAPACITY_def)
    with q(3) assms(3) show False by auto
  qed
  then have "k * TRACE_RING_CAPACITY \<le> - TRACE_RING_CAPACITY" by (simp add: TRACE_RING_CAPACITY_def)
  with q(1,2) assms(2) core_inv_bounds [OF c] show ?thesis by simp
qed

lemma s64_diff:
  assumes "core_inv s" "0 \<le> p" "p \<le> enq s" "0 \<le> q" "q \<le> seq_at s p'"
  shows "s64 (q - p) = q - p"
  using core_inv_bounds [OF assms(1)] seq_at_bounds(2) [OF assms(1), of p'] assms(2-)
  by (intro s64_id) (auto simp: TRACE_RING_CAPACITY_def)

lemma sys_inv_init: "sys_inv init_sys"
proof -
  have "core_inv init_sys"
    unfolding core_inv_def
    by (rule coreI) (auto simp: init_sys_def init_ring_def own_def head_pos_def seq_at_def
        slot_index_def TRACE_RING_CAPACITY_def)
  then show ?thesis
    by (simp add: sys_inv_def) (simp add: init_sys_def init_ring_def ring_ok_def)
qed

subsection \<open>Every step keeps the invariant\<close>

lemma pc_inv_mono:
  "pc_inv s pc \<Longrightarrow> enq s \<le> enq s' \<Longrightarrow> (\<And>q. seq_at s q \<le> seq_at s' q) \<Longrightarrow> pc_inv s' pc"
  by (cases pc) (auto intro: order_trans)

lemma core_inv_frame:
  assumes "slots (ring s') = slots (ring s)" "deq s' = deq s" "enq s' = enq s" "head_pos s' = head_pos s"
    "own s' = own s" "claimed s' = claimed s" "received s' = received s"
  shows "core_inv s' \<longleftrightarrow> core_inv s"
proof -
  have "seq_at s' = seq_at s" "view_at s' = view_at s"
    by (simp_all add: fun_eq_iff seq_at_def view_at_def assms(1))
  then show ?thesis by (simp add: core_inv_def assms)
qed

lemma own_prods: "own s t = pc_own (prods s t)"
  by (simp add: own_def)

lemma own_idle_upd: "pc_own (prods s t) = None \<Longrightarrow> (own s)(t := None) = own s"
  by (simp add: fun_upd_idem own_prods)

lemma reader_inv_frame:
  assumes "reader_inv s pc" "deq s' = deq s" "seq_at s (deq s) = deq s + 1 \<Longrightarrow> seq_at s' (deq s) = deq s + 1"
    "\<And>p. 0 \<le> p \<Longrightarrow> p < enq s \<Longrightarrow> claimed s' ! nat p = claimed s ! nat p" "core_inv s" "reader s = pc"
  shows "reader_inv s' pc"
proof -
  note b = core_inv_bounds [OF assms(5)]
  have "deq s < enq s" if pub: "seq_at s (deq s) = deq s + 1"
  proof (cases "head_pos s = deq s")
    case True
    then show ?thesis
      using core_release(1) [OF assms(5) [unfolded core_inv_def True] pub] by simp
  next
    case False
    then show ?thesis using b by simp
  qed
  then show ?thesis
    using assms b by (cases pc) (auto simp: head_pos_def)
qed

text \<open>A step that only moves a thread that holds no position.\<close>

lemma control_step:
  assumes i: "sys_inv s" and own: "pc_own (prods s t) = None" "pc_own pc = None"
    and same: "slots (ring s') = slots (ring s)" "deq s' = deq s" "enq s' = enq s" "ring_ok (ring s') = ring_ok (ring s)"
      "reader s' = reader s" "claimed s' = claimed s" "received s' = received s" "prods s' = (prods s)(t := pc)"
    and pc: "pc_inv s pc"
  shows "sys_inv s'"
proof -
  have "own s' = own s"
    using own by (auto simp: own_def same fun_eq_iff)
  moreover have h: "head_pos s' = head_pos s" by (simp add: head_pos_def same split: reader_pc.split)
  ultimately have "core_inv s'" using i same core_inv_frame [of s' s] by (simp add: sys_inv_def)
  moreover have seq: "seq_at s' = seq_at s" by (simp add: fun_eq_iff seq_at_def same)
  have "pc_inv s' (prods s' u)" for u
    using i pc pc_inv_mono [of s _ s'] by (auto simp: sys_inv_def same seq)
  moreover have "reader_inv s' (reader s')"
    using i by (cases "reader s") (auto simp: sys_inv_def same seq)
  ultimately show ?thesis using i same by (simp add: sys_inv_def)
qed

lemma seq_at_set_slot:
  "seq_at (s\<lparr>ring := set_slot p f (ring s)\<rparr>) q =
     (if slot_index q = slot_index p then slot_sequence (f (slots (ring s) (slot_index p))) else seq_at s q)"
  "view_at (s\<lparr>ring := set_slot p f (ring s)\<rparr>) q =
     (if slot_index q = slot_index p then event_view (slot_event (f (slots (ring s) (slot_index p)))) else view_at s q)"
  by (simp_all add: seq_at_def view_at_def set_slot_def)

lemma event_fits_view: "event_fits e \<Longrightarrow> event_view (copy_event old e) = event_view e"
  by (rule event_view_copy) (auto simp: event_fits_def event_ok_def)

lemma window_near_head:
  assumes "core_inv s" "head_pos s \<le> p" "p < enq s" "p \<noteq> deq s" "seq_at s p = p"
  shows "slot_index (deq s) \<noteq> slot_index p \<or> seq_at s (deq s) \<noteq> deq s + 1"
proof (cases "head_pos s = deq s")
  case True
  then show ?thesis using window_index [of "deq s" "deq s" p] assms core_inv_bounds [OF assms(1)] by auto
next
  case False
  then show ?thesis using assms core_inv_bounds [OF assms(1)] slot_index_eq [of "deq s" p]
      seq_at_index [of "deq s" p s]
    by (cases "p < deq s + TRACE_RING_CAPACITY") (auto simp: TRACE_RING_CAPACITY_def)
qed

lemma cas_step_inv:
  assumes i: "sys_inv s" and pc: "prods s t = PSeq e p q" and eq: "s64 (q - p) = 0" "enq s = p" and room: "p < 2 ^ 62"
  shows "sys_inv (set_prod t (PClaimed e p) (s\<lparr>ring := (ring s)\<lparr>enqueuePosition := s64 (p + 1)\<rparr>, claimed := claimed s @ [e]\<rparr>))"
    (is "sys_inv ?s")
proof -
  have c: "core_inv s" and p: "pc_inv s (PSeq e p q)" using i pc by (auto simp: sys_inv_def dest: spec [of _ t])
  note b = core_inv_bounds [OF c]
  have q: "q = p" using s64_diff [OF c, of p q p] p eq by simp
  have free: "enq s < head_pos s + TRACE_RING_CAPACITY"
  proof (rule ccontr)
    assume "\<not> ?thesis"
    then have p': "p = head_pos s + TRACE_RING_CAPACITY" using b eq by simp
    then have "seq_at s p = seq_at s (head_pos s)" by (intro seq_at_index) simp
    moreover have "seq_at s (head_pos s) \<le> head_pos s + 1"
      using core_slot_cases [OF c [unfolded core_inv_def], of "head_pos s"] p' eq by (auto simp: TRACE_RING_CAPACITY_def)
    ultimately show False using p q p' by (simp add: TRACE_RING_CAPACITY_def)
  qed
  have s: "s64 (p + 1) = p + 1" using b eq room by simp
  define s0 where "s0 = s\<lparr>ring := (ring s)\<lparr>enqueuePosition := p + 1\<rparr>, claimed := claimed s @ [e]\<rparr>"
  have own: "own s t = None" "own (set_prod t (PClaimed e p) s0) = (own s)(t \<mapsto> (p, e, False))"
    by (simp_all add: own_prods pc own_set_prod) (simp add: own_def s0_def)
  have fr: "seq_at s0 = seq_at s" "view_at s0 = view_at s" "head_pos s0 = head_pos s" "enq s0 = p + 1"
      "deq s0 = deq s" "claimed s0 = claimed s @ [e]" "received s0 = received s" "reader s0 = reader s"
      "prods s0 = prods s" "ring_ok (ring s0) = ring_ok (ring s)"
    by (simp_all add: s0_def fun_eq_iff seq_at_def view_at_def head_pos_def ring_ok_def split: reader_pc.split)
  have "core_inv (set_prod t (PClaimed e p) s0)"
    using core_claim [OF c [unfolded core_inv_def] free _ own(1), of e] p room eq
    by (simp add: core_inv_def own fr)
  moreover have "pc_inv (set_prod t (PClaimed e p) s0) (prods (set_prod t (PClaimed e p) s0) u)" for u
  proof (cases "u = t")
    case False
    have "pc_inv s (prods s u)" using i by (simp add: sys_inv_def)
    then have "pc_inv (set_prod t (PClaimed e p) s0) (prods s u)"
      by (rule pc_inv_mono) (simp_all add: fr eq)
    with False show ?thesis by (simp add: fr)
  qed simp
  moreover have "reader_inv (set_prod t (PClaimed e p) s0) (reader s)"
    by (rule reader_inv_frame [of s _ "set_prod t (PClaimed e p) s0"])
       (use i c b core_bounds [OF c [unfolded core_inv_def]] in \<open>auto simp: sys_inv_def fr nth_append\<close>)
  ultimately have "sys_inv (set_prod t (PClaimed e p) s0)" using i by (simp add: sys_inv_def fr)
  then show ?thesis by (simp add: s0_def s)
qed

lemma copy_step_inv:
  assumes i: "sys_inv s" and pc: "prods s t = PClaimed e p"
  shows "sys_inv (set_prod t (PCopied e p)
      (s\<lparr>ring := set_slot p (\<lambda>sl. sl\<lparr>slot_event := copy_event (slot_event sl) e\<rparr>) (ring s)\<rparr>))"
    (is "sys_inv ?s")
proof -
  define s0 where "s0 = s\<lparr>ring := set_slot p (\<lambda>sl. sl\<lparr>slot_event := copy_event (slot_event sl) e\<rparr>) (ring s)\<rparr>"
  have c: "core_inv s" using i by (simp add: sys_inv_def)
  have own: "own s t = Some (p, e, False)" "own ?s = (own s)(t \<mapsto> (p, e, True))"
    by (simp_all add: own_prods pc own_set_prod) (simp add: own_def)
  have fits: "event_fits e" using core_own [OF c [unfolded core_inv_def] own(1)] by simp
  have fr0: "seq_at s0 = seq_at s" "view_at s0 = upd_at (view_at s) p (event_view e)" "head_pos s0 = head_pos s"
    by (simp_all add: s0_def fun_eq_iff seq_at_set_slot event_fits_view [OF fits])
       (simp_all add: seq_at_def head_pos_def split: reader_pc.split)
  note fr = fr0 [unfolded s0_def]
  have "core_inv ?s"
    using core_copy [OF c [unfolded core_inv_def] own(1)] by (simp add: core_inv_def own fr)
  moreover have "pc_inv ?s (prods ?s u)" for u
  proof (cases "u = t")
    case False
    have "pc_inv s (prods s u)" using i by (simp add: sys_inv_def)
    then have "pc_inv ?s (prods s u)" by (rule pc_inv_mono) (simp_all add: fr)
    with False show ?thesis by simp
  qed simp
  moreover have "reader_inv ?s (reader ?s)"
  proof -
    have "reader_inv ?s (reader s)"
      by (rule reader_inv_frame [of s _ ?s]) (use i c in \<open>auto simp: sys_inv_def fr\<close>)
    then show ?thesis by simp
  qed
  ultimately show ?thesis using i by (simp add: sys_inv_def)
qed

lemma publish_step_inv:
  assumes i: "sys_inv s" and pc: "prods s t = PCopied e p"
  shows "sys_inv (set_prod t PPublished
      (s\<lparr>ring := set_slot p (\<lambda>sl. sl\<lparr>slot_sequence := s64 (p + 1)\<rparr>) (ring s)\<rparr>))"
    (is "sys_inv ?s")
proof -
  define s0 where "s0 = s\<lparr>ring := set_slot p (\<lambda>sl. sl\<lparr>slot_sequence := s64 (p + 1)\<rparr>) (ring s)\<rparr>"
  have c: "core_inv s" using i by (simp add: sys_inv_def)
  note b = core_inv_bounds [OF c]
  have own: "own s t = Some (p, e, True)" "own ?s = (own s)(t := None)"
    by (simp_all add: own_prods pc own_set_prod) (simp add: own_def)
  note o = core_own [OF c [unfolded core_inv_def] own(1)]
  have s: "s64 (p + 1) = p + 1" using o b by simp
  have fr0: "seq_at s0 = upd_at (seq_at s) p (p + 1)" "view_at s0 = view_at s" "head_pos s0 = head_pos s"
    by (simp_all add: s0_def fun_eq_iff seq_at_set_slot s)
       (simp_all add: view_at_def head_pos_def split: reader_pc.split)
  note fr = fr0 [unfolded s0_def]
  have mono: "seq_at s q \<le> seq_at ?s q" for q
    using o seq_at_index [of q p s] by (simp add: fr)
  have "core_inv ?s"
    using core_publish [OF c [unfolded core_inv_def] own(1)] by (simp add: core_inv_def own fr)
  moreover have "pc_inv ?s (prods ?s u)" for u
  proof (cases "u = t")
    case False
    have "pc_inv s (prods s u)" using i by (simp add: sys_inv_def)
    then have "pc_inv ?s (prods s u)" by (rule pc_inv_mono [OF _ _ mono]) simp
    with False show ?thesis by simp
  qed simp
  moreover have "reader_inv ?s (reader ?s)"
  proof -
    have "seq_at ?s (deq s) = deq s + 1" if "seq_at s (deq s) = deq s + 1"
      using window_near_head [OF c, of p] o that by (cases "p = deq s") (auto simp: fr)
    then have "reader_inv ?s (reader s)"
      by (intro reader_inv_frame [of s _ ?s]) (use i c in \<open>auto simp: sys_inv_def\<close>)
    then show ?thesis by simp
  qed
  ultimately show ?thesis using i by (simp add: sys_inv_def)
qed

lemma emit_step_inv:
  assumes "emit_step wake t s s'" "sys_inv s" "enq s' \<le> 2 ^ 62"
  shows "sys_inv s'"
proof -
  have c: "core_inv s" and pcs: "pc_inv s (prods s t)" using assms(2) by (simp_all add: sys_inv_def)
  from assms(1) show ?thesis
  proof cases
    case (cas_ok e p q)
    have "p < 2 ^ 62"
    proof (rule ccontr)
      assume "\<not> ?thesis"
      then have "p = 2 ^ 62" using core_inv_bounds [OF c] cas_ok by simp
      then show False using assms(3) cas_ok by simp
    qed
    then show ?thesis using cas_step_inv [OF assms(2)] cas_ok by simp
  next
    case copy
    then show ?thesis using copy_step_inv [OF assms(2)] by simp
  next
    case publish
    then show ?thesis using publish_step_inv [OF assms(2)] by simp
  next
    case (emit e)
    then show ?thesis
      by (intro control_step [OF assms(2), of t "PStart (stamp (ring s) e)"])
         (simp_all add: ring_ok_def stamp_fits)
  next
    case (load_position e)
    then show ?thesis using pcs core_inv_bounds [OF c]
      by (intro control_step [OF assms(2), of t "PPos e (enq s)"]) simp_all
  next
    case (load_sequence e p)
    then show ?thesis using pcs seq_at_bounds [OF c]
      by (intro control_step [OF assms(2), of t "PSeq e p (seq_at s p)"]) simp_all
  next
    case (retry e p q)
    then show ?thesis using pcs by (intro control_step [OF assms(2), of t "PStart e"]) simp_all
  next
    case (cas_fail e p q)
    then show ?thesis using pcs by (intro control_step [OF assms(2), of t "PStart e"]) simp_all
  next
    case wake_first
    then show ?thesis by (intro control_step [OF assms(2), of t PWaking]) (simp_all add: ring_ok_def)
  next
    case set_event_fails
    then show ?thesis by (intro control_step [OF assms(2), of t PUnwake]) simp_all
  qed (intro control_step [OF assms(2), of t PIdle]; simp add: ring_ok_def)+
qed

lemma read_control:
  assumes i: "sys_inv s"
    and same: "slots (ring s') = slots (ring s)" "deq s' = deq s" "enq s' = enq s" "ring_ok (ring s') = ring_ok (ring s)"
      "head_pos s' = head_pos s" "claimed s' = claimed s" "received s' = received s" "prods s' = prods s"
    and r: "reader_inv s (reader s')"
  shows "sys_inv s'"
proof -
  have seq: "seq_at s' = seq_at s" by (simp add: fun_eq_iff seq_at_def same)
  have "core_inv s'" using i same core_inv_frame [of s' s] by (simp add: sys_inv_def own_def)
  moreover have "pc_inv s' pc = pc_inv s pc" for pc by (cases pc) (simp_all add: same seq)
  moreover have "reader_inv s' pc = reader_inv s pc" for pc by (cases pc) (simp_all add: same seq)
  ultimately show ?thesis using i r by (simp add: sys_inv_def same)
qed

lemma head_pos_simps:
  "reader s = RReleased m p e \<Longrightarrow> head_pos s = deq s + 1"
  "(\<And>m p e. reader s \<noteq> RReleased m p e) \<Longrightarrow> head_pos s = deq s"
  by (simp_all add: head_pos_def split: reader_pc.split)

lemma release_step_inv:
  assumes i: "sys_inv s" and r: "reader s = RCopied m p e"
  shows "sys_inv (s\<lparr>ring := set_slot p (\<lambda>sl. sl\<lparr>slot_sequence := s64 (p + TRACE_RING_CAPACITY)\<rparr>) (ring s),
      reader := RReleased m p e\<rparr>)"
proof -
  have c: "core_inv s" and ri: "reader_inv s (RCopied m p e)" using i r by (auto simp: sys_inv_def)
  note b = core_inv_bounds [OF c]
  have h: "head_pos s = deq s" by (rule head_pos_simps) (simp add: r)
  have s: "s64 (p + TRACE_RING_CAPACITY) = p + TRACE_RING_CAPACITY"
    using ri b by (simp add: TRACE_RING_CAPACITY_def)
  define s0 where "s0 = s\<lparr>ring := set_slot p (\<lambda>sl. sl\<lparr>slot_sequence := p + TRACE_RING_CAPACITY\<rparr>) (ring s),
      reader := RReleased m p e\<rparr>"
  have fr: "seq_at s0 = upd_at (seq_at s) p (p + TRACE_RING_CAPACITY)" "view_at s0 = view_at s"
      "head_pos s0 = deq s + 1" "own s0 = own s" "enq s0 = enq s" "deq s0 = deq s" "claimed s0 = claimed s"
      "received s0 = received s" "reader s0 = RReleased m p e" "prods s0 = prods s" "ring_ok (ring s0) = ring_ok (ring s)"
    by (simp_all add: s0_def fun_eq_iff seq_at_def view_at_def head_pos_def own_def set_slot_def ring_ok_def)
  have mono: "seq_at s q \<le> seq_at s0 q" for q
    using ri seq_at_index [of q p s] by (auto simp: fr TRACE_RING_CAPACITY_def)
  have "core_inv s0"
    using core_release(2) [OF c [unfolded core_inv_def h]] ri by (auto simp: core_inv_def fr)
  moreover have "pc_inv s0 (prods s0 u)" for u
    unfolding fr by (rule pc_inv_mono [OF _ _ mono]) (use i in \<open>simp_all add: sys_inv_def fr\<close>)
  moreover have "reader_inv s0 (reader s0)" using ri by (auto simp: fr)
  ultimately have "sys_inv s0" using i by (simp add: sys_inv_def fr)
  then show ?thesis by (simp add: s0_def s)
qed

lemma advance_step_inv:
  assumes i: "sys_inv s" and r: "reader s = RReleased m p e"
  shows "sys_inv (s\<lparr>ring := (ring s)\<lparr>dequeuePosition := s64 (p + 1)\<rparr>, received := received s @ [e], reader := RTry k\<rparr>)"
proof -
  have c: "core_inv s" and ri: "reader_inv s (RReleased m p e)" using i r by (auto simp: sys_inv_def)
  note b = core_inv_bounds [OF c]
  have h: "head_pos s = deq s + 1" by (rule head_pos_simps) (rule r)
  have s: "s64 (p + 1) = p + 1" using ri b by simp
  define s0 where "s0 = s\<lparr>ring := (ring s)\<lparr>dequeuePosition := p + 1\<rparr>, received := received s @ [e], reader := RTry k\<rparr>"
  have fr: "seq_at s0 = seq_at s" "view_at s0 = view_at s"
      "head_pos s0 = p + 1" "own s0 = own s" "enq s0 = enq s" "deq s0 = p + 1" "claimed s0 = claimed s"
      "received s0 = received s @ [e]" "reader s0 = RTry k" "prods s0 = prods s" "ring_ok (ring s0) = ring_ok (ring s)"
    by (simp_all add: s0_def fun_eq_iff seq_at_def view_at_def head_pos_def own_def ring_ok_def)
  have "core_inv s0"
    using core_advance [OF c [unfolded core_inv_def h], of e] ri by (auto simp: core_inv_def fr)
  moreover have "pc_inv s0 (prods s0 u)" for u
    unfolding fr by (rule pc_inv_mono [of s]) (use i in \<open>simp_all add: sys_inv_def fr\<close>)
  moreover have "reader_inv s0 (reader s0)" by (simp add: fr)
  ultimately have "sys_inv s0" using i by (simp add: sys_inv_def fr)
  then show ?thesis by (simp add: s0_def s)
qed

lemma read_step_inv:
  assumes "read_step s s'" "sys_inv s"
  shows "sys_inv s'"
proof -
  have c: "core_inv s" and ri: "reader_inv s (reader s)" using assms(2) by (simp_all add: sys_inv_def)
  note b = core_inv_bounds [OF c]
  from assms(1) show ?thesis
  proof cases
    case r_release
    then show ?thesis using release_step_inv [OF assms(2)] by simp
  next
    case r_advance
    then show ?thesis using advance_step_inv [OF assms(2)] by simp
  next
    case (r_copy m p)
    have h: "head_pos s = deq s" by (rule head_pos_simps) (simp add: r_copy)
    have p: "p = deq s" "seq_at s (deq s) = deq s + 1" using ri r_copy by auto
    have "deq s < enq s" using core_release(1) [OF c [unfolded core_inv_def h]] p by simp
    then have "view_at s (deq s) = event_view (claimed s ! nat (deq s))"
      using core_slot_cases [OF c [unfolded core_inv_def], of "deq s"] p h by auto
    then show ?thesis
      using r_copy p by (intro read_control [OF assms(2)]) (simp_all add: head_pos_def view_at_def)
  next
    case (r_hit m p)
    then show ?thesis using ri b
      by (intro read_control [OF assms(2)]) (auto simp: head_pos_def)
  qed (intro read_control [OF assms(2)]; simp add: head_pos_def ring_ok_def)+
qed

lemma sys_inv_reach: "ring_reach wake s \<Longrightarrow> sys_inv s"
proof (induction rule: ring_reach.induct)
  case (step s s')
  from step.hyps(2) show ?case
  proof cases
    case produce
    then show ?thesis using emit_step_inv step by blast
  next
    case consume
    then show ?thesis using read_step_inv step by blast
  next
    case stop
    then show ?thesis using step.IH by (intro read_control [OF step.IH]) (auto simp: head_pos_def sys_inv_def split: reader_pc.split)
  qed
qed (rule sys_inv_init)

text \<open>A thread that is about to read a sequence that makes it drop its event sees a full ring.\<close>

lemma concurrent_drop_only_when_full:
  assumes "ring_reach wake s" "prods s t = PPos e p" "s64 (seq_at s p - p) < 0"
  shows "enqueuePosition (ring s) = head_pos s + TRACE_RING_CAPACITY"
proof -
  have i: "sys_inv s" by (rule sys_inv_reach [OF assms(1)])
  then have c: "core_inv s" and "pc_inv s (prods s t)" by (simp_all add: sys_inv_def)
  then have p: "0 \<le> p" "p \<le> enq s" using assms(2) by auto
  have "seq_at s p < p"
    using s64_diff [OF c p seq_at_bounds(1) [OF c, of p], of p] assms(3) by simp
  from behind_full [OF c p(2) this] show ?thesis .
qed

subsection \<open>Wake-ups\<close>

definition waker :: "ring_sys \<Rightarrow> bool" where
  "waker s \<longleftrightarrow> (\<exists>t. prods s t = PWaking)"

definition late_waker :: "ring_sys \<Rightarrow> bool" where
  "late_waker s \<longleftrightarrow> (\<exists>t. prods s t = PPublished)"

definition resting :: "reader_pc \<Rightarrow> bool" where
  "resting pc \<longleftrightarrow> pc = RTry None \<or> (\<exists>p. pc = RPos None p) \<or> pc = RWait"

definition wake_inv :: "ring_sys \<Rightarrow> bool" where
  "wake_inv s \<longleftrightarrow> wakeFailed s \<or>
     ((resting (reader s) \<and> wakePending (ring s) \<noteq> 0 \<longrightarrow> signaled s \<or> waker s) \<and>
      (reader s = RWait \<and> seq_at s (deq s) = deq s + 1 \<longrightarrow> signaled s \<or> waker s \<or> late_waker s))"

lemma waker_upd:
  "waker (set_prod t pc s) \<longleftrightarrow> pc = PWaking \<or> (\<exists>u. u \<noteq> t \<and> prods s u = PWaking)"
  "late_waker (set_prod t pc s) \<longleftrightarrow> pc = PPublished \<or> (\<exists>u. u \<noteq> t \<and> prods s u = PPublished)"
  by (auto simp: waker_def late_waker_def)

lemma waker_other:
  "waker s \<longleftrightarrow> prods s t = PWaking \<or> (\<exists>u. u \<noteq> t \<and> prods s u = PWaking)"
  "late_waker s \<longleftrightarrow> prods s t = PPublished \<or> (\<exists>u. u \<noteq> t \<and> prods s u = PPublished)"
  by (auto simp: waker_def late_waker_def)

lemma seq_at_same_slots: "slots (ring s') = slots (ring s) \<Longrightarrow> seq_at s' = seq_at s"
  by (simp add: fun_eq_iff seq_at_def)

lemma seq_at_frame:
  "seq_at (s\<lparr>ring := (ring s)\<lparr>eventSequence := a\<rparr>\<rparr>) = seq_at s"
  "seq_at (s\<lparr>ring := (ring s)\<lparr>droppedEvents := a\<rparr>\<rparr>) = seq_at s"
  "seq_at (s\<lparr>ring := (ring s)\<lparr>wakePending := a\<rparr>\<rparr>) = seq_at s"
  "seq_at (s\<lparr>ring := (ring s)\<lparr>enqueuePosition := b\<rparr>, claimed := l\<rparr>) = seq_at s"
  "seq_at (s\<lparr>signaled := c\<rparr>) = seq_at s" "seq_at (s\<lparr>wakeFailed := c\<rparr>) = seq_at s"
  by (simp_all add: fun_eq_iff seq_at_def)

lemma waker_frame:
  "prods s' = prods s \<Longrightarrow> waker s' = waker s \<and> late_waker s' = late_waker s"
  by (simp add: waker_def late_waker_def)

lemma wake_emit:
  assumes "emit_step True t s s'" "wake_inv s"
  shows "wake_inv s'"
  using assms
proof cases
  case (publish e p)
  then show ?thesis
    using assms(2) waker_other [of s t] by (auto simp: wake_inv_def waker_upd)
next
  case (copy e p)
  have "seq_at (s\<lparr>ring := set_slot p (\<lambda>sl. sl\<lparr>slot_event := copy_event (slot_event sl) e\<rparr>) (ring s)\<rparr>) = seq_at s"
    by (simp add: fun_eq_iff seq_at_set_slot) (simp add: seq_at_def)
  then show ?thesis
    using copy assms(2) waker_other [of s t] by (auto simp: wake_inv_def waker_upd)
qed (use assms(2) waker_other [of s t] in \<open>auto simp: wake_inv_def waker_upd seq_at_frame resting_def\<close>)

lemma wake_read:
  assumes "read_step s s'" "wake_inv s" "sys_inv s"
  shows "wake_inv s'"
proof -
  have b: "s64 (deq s + 1) = deq s + 1"
    using core_inv_bounds [of s] assms(3) by (auto simp: sys_inv_def)
  have ri: "reader_inv s (reader s)" using assms(3) by (simp add: sys_inv_def)
  have pr: "waker s' = waker s" "late_waker s' = late_waker s"
    using assms(1) by (auto simp: waker_def late_waker_def elim!: read_step.cases)
  have seq: "seq_at (s\<lparr>reader := x\<rparr>) = seq_at s" for x by (simp add: fun_eq_iff seq_at_def)
  from assms(1) show ?thesis
    by cases (use assms(2) pr b ri in \<open>auto simp: wake_inv_def resting_def seq split: option.splits if_splits\<close>)
qed

lemma wake_inv_reach: "ring_reach True s \<Longrightarrow> wake_inv s"
proof (induction rule: ring_reach.induct)
  case start
  then show ?case by (simp add: wake_inv_def init_sys_def resting_def)
next
  case (step s s')
  from step.hyps(2) show ?case
  proof cases
    case produce
    then show ?thesis using wake_emit step.IH by blast
  next
    case consume
    then show ?thesis using wake_read step.IH sys_inv_reach [OF step.hyps(1)] by blast
  next
    case stop
    then have "seq_at s' = seq_at s" by (intro seq_at_same_slots) simp
    then show ?thesis using step.IH stop by (simp add: wake_inv_def waker_def late_waker_def)
  qed
qed

subsection \<open>Properties\<close>

text \<open>C2: Under every interleaving of any number of hooked threads with the reader, the reader
  receives a prefix of the claimed events: in claim order, each once, with the header and the
  used payload its producer wrote; the events claimed and not yet delivered never exceed the
  ring's slots by more than the one the reader is handing over.\<close>

theorem concurrent_fifo:
  assumes "ring_reach wake s"
  shows "length (received s) \<le> length (claimed s)
     \<and> map event_view (received s) = map event_view (take (length (received s)) (claimed s))
     \<and> length (claimed s) \<le> length (received s) + 16385"
proof -
  have c: "core_inv s" using sys_inv_reach [OF assms] by (simp add: sys_inv_def)
  note b = core_inv_bounds [OF c] core_bounds [OF c [unfolded core_inv_def]]
  have h: "head_pos s \<le> deq s + 1" by (simp add: head_pos_def split: reader_pc.split)
  have len: "length (received s) \<le> length (claimed s)" using b by (simp add: nat_mono)
  moreover have "map event_view (received s) = map event_view (take (length (received s)) (claimed s))"
    using core_received [OF c [unfolded core_inv_def]] b len by (intro nth_equalityI) auto
  moreover have "length (claimed s) \<le> length (received s) + 16385"
    using b h by (simp add: TRACE_RING_CAPACITY_def nat_le_iff)
  ultimately show ?thesis by blast
qed

lemma init_reaches: "ring_reach wake init_sys"
  by (rule ring_reach.start)

lemma concurrent_fifo_witness:
  "length (received init_sys) \<le> length (claimed init_sys)"
  using concurrent_fifo [OF init_reaches [of True]] by blast

text \<open>C22: No slot is ever written by two threads at once or read while it is written. Two threads
  that hold claims hold different slots, and the slot the reader is copying is held by none.\<close>

theorem slots_exclusive:
  assumes "ring_reach wake s" "pc_own (prods s t) = Some (p, e, b)"
  shows "(\<forall>t' p' e' b'. t' \<noteq> t \<and> pc_own (prods s t') = Some (p', e', b') \<longrightarrow> slot_index p' \<noteq> slot_index p)
     \<and> (\<forall>m q. reader s = RHit m q \<longrightarrow> slot_index q \<noteq> slot_index p)"
proof -
  have i: "sys_inv s" by (rule sys_inv_reach [OF assms(1)])
  then have c: "core_inv s" by (simp add: sys_inv_def)
  note bd = core_inv_bounds [OF c]
  have o: "own s t = Some (p, e, b)" using assms(2) by (simp add: own_prods)
  note p = core_own [OF c [unfolded core_inv_def] o]
  have "slot_index p' \<noteq> slot_index p" if "t' \<noteq> t" "pc_own (prods s t') = Some (p', e', b')" for t' p' e' b'
  proof -
    have o': "own s t' = Some (p', e', b')" using that(2) by (simp add: own_prods)
    have "p' \<noteq> p" using core_own_unique [OF c [unfolded core_inv_def] o, of t' e' b'] o' that(1) by auto
    then show ?thesis
      using window_index [of "head_pos s" p' p] p core_own [OF c [unfolded core_inv_def] o'] bd by auto
  qed
  moreover have "slot_index q \<noteq> slot_index p" if r: "reader s = RHit m q" for m q
  proof -
    have q: "q = deq s" "seq_at s (deq s) = deq s + 1" using i r by (auto simp: sys_inv_def)
    have h: "head_pos s = deq s" by (rule head_pos_simps) (simp add: r)
    show ?thesis
      using window_near_head [OF c, of p] p q by (cases "p = deq s") auto
  qed
  ultimately show ?thesis by blast
qed

text \<open>Concrete runs: the reader comes to rest, and one thread claims and publishes a slot.\<close>

definition resting_at :: "reader_pc \<Rightarrow> ring_sys" where
  "resting_at r = init_sys\<lparr>reader := r\<rparr>"

lemma init_fields: "eventSequence init_ring = 0" "enqueuePosition init_ring = 0" "dequeuePosition init_ring = 0"
  "ring (resting_at r) = init_ring" "prods (resting_at r) = (\<lambda>_. PIdle)" "claimed (resting_at r) = []"
  "wakePending init_ring = 0" "stopping (resting_at r) = False" "reader (resting_at r) = r"
  "wakeFailed (resting_at r) = False" "resting_at r\<lparr>reader := r'\<rparr> = resting_at r'"
  "init_ring\<lparr>wakePending := 0\<rparr> = init_ring" "(resting_at r)\<lparr>ring := init_ring, reader := r'\<rparr> = resting_at r'"
  by (simp_all add: init_ring_def init_sys_def resting_at_def)

lemma init_seq: "seq_at (resting_at r) 0 = 0"
  by (simp add: seq_at_def resting_at_def init_sys_def init_ring_def slot_index_def)

lemma read_reach:
  "ring_reach wake s \<Longrightarrow> read_step s s' \<Longrightarrow> enq s' \<le> 2 ^ 62 \<Longrightarrow> ring_reach wake s'"
  by (rule ring_reach.step [OF _ ring_step.consume])

lemma second_look_reaches: "ring_reach wake (resting_at (RPos None 0))"
proof -
  have "ring_reach wake (resting_at (RTry (Some 0)))"
    using ring_reach.start [of wake] by (simp add: resting_at_def init_sys_def)
  then have "ring_reach wake (resting_at (RPos (Some 0) 0))"
    by (rule read_reach) (use read_step.r_load [of "resting_at (RTry (Some 0))" "Some 0"] in \<open>simp_all add: init_fields\<close>)
  then have "ring_reach wake (resting_at RClear)"
    by (rule read_reach) (use read_step.r_miss [of "resting_at (RPos (Some 0) 0)" 0 0] in \<open>simp_all add: init_fields init_seq\<close>)
  then have "ring_reach wake (resting_at (RTry None))"
    by (rule read_reach) (use read_step.r_clear [of "resting_at RClear"] in
      \<open>simp_all add: init_fields\<close>)
  then show ?thesis
    by (rule read_reach) (use read_step.r_load [of "resting_at (RTry None)" None] in \<open>simp_all add: init_fields\<close>)
qed

lemma wait_reaches: "ring_reach wake (resting_at RWait)"
  by (rule read_reach [OF second_look_reaches])
     (use read_step.r_miss_again [of "resting_at (RPos None 0)" 0] in \<open>simp_all add: init_fields init_seq\<close>)

definition one_claimed :: "reader_pc \<Rightarrow> ring_sys" where
  "one_claimed r = set_prod 0 (PClaimed (stamp init_ring bare_event) 0)
     ((resting_at r)\<lparr>ring := init_ring\<lparr>eventSequence := 1, enqueuePosition := 1\<rparr>,
       claimed := [stamp init_ring bare_event]\<rparr>)"

lemma one_claimed_reaches:
  assumes "ring_reach wake (resting_at r)"
  shows "ring_reach wake (one_claimed r)"
proof -
  let ?e = "stamp init_ring bare_event"
  let ?s1 = "set_prod 0 (PStart ?e) ((resting_at r)\<lparr>ring := init_ring\<lparr>eventSequence := 1\<rparr>\<rparr>)"
  let ?s2 = "set_prod 0 (PPos ?e 0) ?s1" and ?s3 = "set_prod 0 (PSeq ?e 0 0) (set_prod 0 (PPos ?e 0) ?s1)"
  have ok: "ring_ok init_ring" using ring_inv_init by (simp add: ring_inv_def)
  have seq: "seq_at ?s2 0 = 0" by (simp add: seq_at_def init_ring_def slot_index_def)
  have "emit_step wake 0 (resting_at r) ?s1"
    using emit_step.emit [of "resting_at r" 0 bare_event wake] ok bare_event_fits by (simp add: init_fields)
  then have "ring_reach wake ?s1"
    by (rule ring_reach.step [OF assms ring_step.produce]) (simp add: init_fields)
  moreover have "emit_step wake 0 ?s1 ?s2"
    using emit_step.load_position [of ?s1 0 ?e wake] by (simp add: init_fields)
  ultimately have "ring_reach wake ?s2"
    by (rule ring_reach.step [OF _ ring_step.produce]) (simp add: init_fields)
  moreover have "emit_step wake 0 ?s2 ?s3"
    using emit_step.load_sequence [of ?s2 0 ?e 0 wake] seq by simp
  ultimately have "ring_reach wake ?s3"
    by (rule ring_reach.step [OF _ ring_step.produce]) (simp add: init_fields)
  moreover have "emit_step wake 0 ?s3 (one_claimed r)"
    using emit_step.cas_ok [of ?s3 0 ?e 0 0 wake]
    by (simp add: init_fields one_claimed_def set_prod_def)
  ultimately show ?thesis
    by (rule ring_reach.step [OF _ ring_step.produce]) (simp add: one_claimed_def)
qed

lemma one_published_reaches:
  assumes "ring_reach wake (resting_at r)"
  obtains s where "ring_reach wake s" "reader s = r" "prods s 0 = PPublished" "seq_at s 0 = 1"
    "dequeuePosition (ring s) = 0" "wakeFailed s = False"
proof -
  let ?e = "stamp init_ring bare_event"
  let ?s1 = "set_prod 0 (PCopied ?e 0) ((one_claimed r)\<lparr>ring := set_slot 0
      (\<lambda>sl. sl\<lparr>slot_event := copy_event (slot_event sl) ?e\<rparr>) (ring (one_claimed r))\<rparr>)"
  let ?s2 = "set_prod 0 PPublished (?s1\<lparr>ring := set_slot 0 (\<lambda>sl. sl\<lparr>slot_sequence := s64 1\<rparr>) (ring ?s1)\<rparr>)"
  have pc: "prods (one_claimed r) 0 = PClaimed ?e 0" by (simp add: one_claimed_def)
  have "ring_reach wake ?s1"
    by (rule ring_reach.step [OF one_claimed_reaches [OF assms] ring_step.produce [OF emit_step.copy [OF pc]]])
       (simp add: one_claimed_def)
  moreover have "emit_step wake 0 ?s1 ?s2" using emit_step.publish [of ?s1 0 ?e 0 wake] by simp
  ultimately have "ring_reach wake ?s2"
    by (rule ring_reach.step [OF _ ring_step.produce]) (simp add: one_claimed_def)
  then show ?thesis
    by (rule that) (simp_all add: one_claimed_def init_fields seq_at_def)
qed

lemma slots_exclusive_witness:
  "\<not> (\<exists>m q. reader (one_claimed RWait) = RHit m q \<and> slot_index q = slot_index 0)"
  using slots_exclusive [OF one_claimed_reaches [OF wait_reaches [of True]], of 0 0 "stamp init_ring bare_event" False]
  by (auto simp: one_claimed_def)

text \<open>C23: No wake-up is lost. With the wake-up event configured and no failed wake-up call, whenever
  the reader waits although the next event has been published, the wake event is signalled or
  some thread is still on its way to signal it.\<close>

theorem no_lost_wakeup:
  assumes "ring_reach True s" "\<not> wakeFailed s" "reader s = RWait"
    and "seq_at s (dequeuePosition (ring s)) = dequeuePosition (ring s) + 1"
  shows "signaled s \<or> (\<exists>t. prods s t = PPublished \<or> prods s t = PWaking)"
  using wake_inv_reach [OF assms(1)] assms(2-) by (auto simp: wake_inv_def waker_def late_waker_def)

lemma no_lost_wakeup_witness:
  "\<exists>s. reader s = RWait \<and> seq_at s 0 = 1 \<and> (signaled s \<or> (\<exists>t. prods s t = PPublished \<or> prods s t = PWaking))"
proof -
  obtain s where s: "ring_reach True s" "reader s = RWait" "prods s 0 = PPublished" "seq_at s 0 = 1"
    "dequeuePosition (ring s) = 0" "wakeFailed s = False"
    by (rule one_published_reaches [OF wait_reaches])
  then show ?thesis using no_lost_wakeup [of s] by auto
qed

text \<open>C24: Stopping loses nothing. When the reader's second look finds nothing (the only place it
  ends normally) and no thread is between its claim and its publication, every claimed event
  has been delivered, in order.\<close>

theorem stop_drains_ring:
  assumes "ring_reach wake s" "reader s = RPos None p" "seq_at s p \<noteq> s64 (p + 1)"
    and "\<forall>t. pc_own (prods s t) = None"
  shows "map event_view (received s) = map event_view (claimed s)"
proof -
  have i: "sys_inv s" by (rule sys_inv_reach [OF assms(1)])
  then have c: "core_inv s" and p: "p = deq s" using assms(2) by (auto simp: sys_inv_def)
  note b = core_inv_bounds [OF c] core_bounds [OF c [unfolded core_inv_def]]
  have h: "head_pos s = deq s" by (rule head_pos_simps) (simp add: assms(2))
  have "s64 (p + 1) = p + 1" using b p by simp
  then have "\<not> deq s < enq s"
    using core_slot_cases [OF c [unfolded core_inv_def], of "deq s"] assms(3,4) p h by (auto simp: own_prods)
  then have "deq s = enq s" using b h by simp
  then have "length (received s) = length (claimed s)" using b by simp
  then show ?thesis
    using core_received [OF c [unfolded core_inv_def]] b by (intro nth_equalityI) auto
qed

lemma stop_drains_ring_witness:
  "map event_view (received (resting_at (RPos None 0))) = map event_view (claimed (resting_at (RPos None 0)))"
  using stop_drains_ring [OF second_look_reaches [of True], of 0] by (simp add: init_fields init_seq)

end
