(* ===== verification/Api_Hooks.thy ===== *)
theory Api_Hooks
  imports Trace_Parser Trace_Ring "HOL-Library.Sublist"
begin

section \<open>The hook handlers\<close>

text \<open>
  \<open>src/include/api_hook.h\<close> and the nine handlers under \<open>src/apiscope-hooks/hooks\<close>. A handler runs in
  the hooked process: it reads guarded memory, calls the original function through its
  trampoline, may read results of the call and publishes one event. The original function is a
  parameter that maps the call (with its arguments) and the state of the process to a status
  and the state after it. \<open>run_hook\<close> is the body all handlers share: the guard around the call,
  the fields added before and after it, the publication.
\<close>

record hook_world =
  w_readMemory :: "nt_read option"
  w_memory :: memory
  w_gs48 :: u64
  w_time :: u64
  w_stack :: trace_event
  w_setEvent :: "u32 option"
  TransportRing :: "trace_ring option"
  ActiveHookCalls :: u32

definition HookCallGuard :: "hook_world \<Rightarrow> hook_world" where
  "HookCallGuard w = w\<lparr>ActiveHookCalls := ActiveHookCalls w + 1\<rparr>"

definition HookCallGuard_end :: "hook_world \<Rightarrow> hook_world" where
  "HookCallGuard_end w = w\<lparr>ActiveHookCalls := ActiveHookCalls w - 1\<rparr>"

type_synonym original = "hook_world \<Rightarrow> u32 \<times> hook_world"

definition run_hook :: "string \<Rightarrow> string \<Rightarrow> add_op list \<Rightarrow> original \<Rightarrow>
    (u32 \<Rightarrow> hook_world \<Rightarrow> add_op list) \<Rightarrow> hook_world \<Rightarrow> (u32 \<times> trace_event option \<times> hook_world) option" where
  "run_hook moduleName apiName before call after w =
     (let w = HookCallGuard w;
          event = snd (InitializeTraceEvent (Some (w_stack w)) (Some moduleName) (Some apiName)
            (GetCurrentThreadIdFast (w_gs48 w)) (w_time w))
      in do {
        event \<leftarrow> run_adds (w_readMemory w) before event;
        let (result, w) = call w;
        event \<leftarrow> run_adds (w_readMemory w) (after result w @ [OpStatus ''result'' result]) event;
        (ok, event, ring) \<leftarrow> EmitTraceEvent (w_setEvent w) (TransportRing w) event;
        Some (result, event, HookCallGuard_end (w\<lparr>TransportRing := ring\<rparr>))
      })"

datatype hook_call =
    CallBCryptOpenAlgorithmProvider u64 u64 u64 u32
  | CallNtClose u64
  | CallNtCreateFile u64 u32 u64 u64 u64 u32 u32 u32 u32 u64 u32
  | CallNtOpenFile u64 u32 u64 u64 u32 u32
  | CallNtOpenKey u64 u32 u64
  | CallNtQueryValueKey u64 u64 u32 u64 u32 u64
  | CallNtReadFile u64 u64 u64 u64 u64 u64 u32 u64 u64
  | CallNtSetValueKey u64 u64 u32 u32 u64 u32
  | CallNtWriteFile u64 u64 u64 u64 u64 u64 u32 u64 u64

type_synonym originals = "hook_call \<Rightarrow> original"

type_synonym handler_result = "(u32 \<times> trace_event option \<times> hook_world) option"

text \<open>\<open>*p\<close> for a handle and \<open>IoStatusBlock->Information\<close>, read directly.\<close>

definition deref64 :: "hook_world \<Rightarrow> addr \<Rightarrow> u64" where
  "deref64 w p = of_le (mem_bytes (w_memory w) p 8)"

definition opened_handle :: "u32 \<Rightarrow> addr \<Rightarrow> hook_world \<Rightarrow> u64" where
  "opened_handle result p w = (if NT_SUCCESS result \<and> p \<noteq> 0 then deref64 w p else 0)"

definition BCryptOpenAlgorithmProviderHandler :: "originals \<Rightarrow> u64 \<Rightarrow> u64 \<Rightarrow> u64 \<Rightarrow> u32 \<Rightarrow> hook_world \<Rightarrow> handler_result" where
  "BCryptOpenAlgorithmProviderHandler original Algorithm AlgorithmId Implementation Flags =
     run_hook ''bcrypt.dll'' ''BCryptOpenAlgorithmProvider''
       [OpPointer ''algorithm'' Algorithm, OpPointer ''algorithm_id'' AlgorithmId,
        OpPointer ''implementation'' Implementation, OpUInt32 ''flags'' Flags]
       (original (CallBCryptOpenAlgorithmProvider Algorithm AlgorithmId Implementation Flags))
       (\<lambda>result w. [])"

definition NtCloseHandler :: "originals \<Rightarrow> u64 \<Rightarrow> hook_world \<Rightarrow> handler_result" where
  "NtCloseHandler original Handle =
     run_hook ''ntdll.dll'' ''NtClose'' [OpPointer ''handle'' Handle]
       (original (CallNtClose Handle)) (\<lambda>result w. [])"

definition NtCreateFileHandler :: "originals \<Rightarrow> u64 \<Rightarrow> u32 \<Rightarrow> u64 \<Rightarrow> u64 \<Rightarrow> u64 \<Rightarrow> u32 \<Rightarrow> u32 \<Rightarrow> u32 \<Rightarrow> u32 \<Rightarrow>
    u64 \<Rightarrow> u32 \<Rightarrow> hook_world \<Rightarrow> handler_result" where
  "NtCreateFileHandler original FileHandle DesiredAccess ObjectAttributes IoStatusBlock AllocationSize
      FileAttributes ShareAccess CreateDisposition CreateOptions EaBuffer EaLength =
     run_hook ''ntdll.dll'' ''NtCreateFile''
       [OpUInt32 ''desired_access'' DesiredAccess, OpObjectPath ''path'' ObjectAttributes,
        OpPointer ''io_status_block'' IoStatusBlock, OpPointer ''allocation_size'' AllocationSize,
        OpUInt32 ''file_attributes'' FileAttributes, OpUInt32 ''share_access'' ShareAccess,
        OpUInt32 ''create_disposition'' CreateDisposition, OpUInt32 ''create_options'' CreateOptions,
        OpPointer ''ea_buffer'' EaBuffer, OpUInt32 ''ea_length'' EaLength]
       (original (CallNtCreateFile FileHandle DesiredAccess ObjectAttributes IoStatusBlock AllocationSize
          FileAttributes ShareAccess CreateDisposition CreateOptions EaBuffer EaLength))
       (\<lambda>result w. [OpPointer ''file_handle'' (opened_handle result FileHandle w)])"

definition NtOpenFileHandler :: "originals \<Rightarrow> u64 \<Rightarrow> u32 \<Rightarrow> u64 \<Rightarrow> u64 \<Rightarrow> u32 \<Rightarrow> u32 \<Rightarrow> hook_world \<Rightarrow> handler_result" where
  "NtOpenFileHandler original FileHandle DesiredAccess ObjectAttributes IoStatusBlock ShareAccess OpenOptions =
     run_hook ''ntdll.dll'' ''NtOpenFile''
       [OpUInt32 ''desired_access'' DesiredAccess, OpObjectPath ''path'' ObjectAttributes,
        OpPointer ''io_status_block'' IoStatusBlock, OpUInt32 ''share_access'' ShareAccess,
        OpUInt32 ''open_options'' OpenOptions]
       (original (CallNtOpenFile FileHandle DesiredAccess ObjectAttributes IoStatusBlock ShareAccess OpenOptions))
       (\<lambda>result w. [OpPointer ''file_handle'' (opened_handle result FileHandle w)])"

definition NtOpenKeyHandler :: "originals \<Rightarrow> u64 \<Rightarrow> u32 \<Rightarrow> u64 \<Rightarrow> hook_world \<Rightarrow> handler_result" where
  "NtOpenKeyHandler original KeyHandle DesiredAccess ObjectAttributes =
     run_hook ''ntdll.dll'' ''NtOpenKey''
       [OpUInt32 ''desired_access'' DesiredAccess, OpObjectPath ''path'' ObjectAttributes]
       (original (CallNtOpenKey KeyHandle DesiredAccess ObjectAttributes))
       (\<lambda>result w. [OpPointer ''key_handle'' (opened_handle result KeyHandle w)])"

definition NtQueryValueKeyHandler :: "originals \<Rightarrow> u64 \<Rightarrow> u64 \<Rightarrow> u32 \<Rightarrow> u64 \<Rightarrow> u32 \<Rightarrow> u64 \<Rightarrow> hook_world \<Rightarrow> handler_result" where
  "NtQueryValueKeyHandler original KeyHandle ValueName KeyValueInformationClass KeyValueInformation Length ResultLength =
     run_hook ''ntdll.dll'' ''NtQueryValueKey''
       [OpPointer ''key_handle'' KeyHandle, OpUnicodeString ''value_name'' ValueName,
        OpUInt32 ''info_class'' KeyValueInformationClass, OpUInt32 ''length'' Length]
       (original (CallNtQueryValueKey KeyHandle ValueName KeyValueInformationClass KeyValueInformation Length ResultLength))
       (\<lambda>result w. [])"

definition file_io_ops :: "u64 \<Rightarrow> u64 \<Rightarrow> u64 \<Rightarrow> u64 \<Rightarrow> u64 \<Rightarrow> u64 \<Rightarrow> u32 \<Rightarrow> u64 \<Rightarrow> u64 \<Rightarrow> add_op list" where
  "file_io_ops FileHandle Event ApcRoutine ApcContext IoStatusBlock Buffer Length ByteOffset Key =
     [OpPointer ''file_handle'' FileHandle, OpPointer ''event'' Event,
      OpPointer ''apc_routine'' ApcRoutine, OpPointer ''apc_context'' ApcContext,
      OpPointer ''io_status_block'' IoStatusBlock, OpPointer ''buffer_address'' Buffer,
      OpUInt32 ''length'' Length, OpPointer ''byte_offset'' ByteOffset, OpPointer ''key'' Key]"

definition NtReadFileHandler :: "originals \<Rightarrow> u64 \<Rightarrow> u64 \<Rightarrow> u64 \<Rightarrow> u64 \<Rightarrow> u64 \<Rightarrow> u64 \<Rightarrow> u32 \<Rightarrow> u64 \<Rightarrow> u64 \<Rightarrow>
    hook_world \<Rightarrow> handler_result" where
  "NtReadFileHandler original FileHandle Event ApcRoutine ApcContext IoStatusBlock Buffer Length ByteOffset Key =
     run_hook ''ntdll.dll'' ''NtReadFile''
       (file_io_ops FileHandle Event ApcRoutine ApcContext IoStatusBlock Buffer Length ByteOffset Key)
       (original (CallNtReadFile FileHandle Event ApcRoutine ApcContext IoStatusBlock Buffer Length ByteOffset Key))
       (\<lambda>result w. if NT_SUCCESS result \<and> IoStatusBlock \<noteq> 0
          then (let information = deref64 w (IoStatusBlock + 8);
                    bytesRead = (if information < ucast Length then information else ucast Length)
                in [OpBufferPreview ''buffer'' Buffer (ucast bytesRead)])
          else [])"

definition NtSetValueKeyHandler :: "originals \<Rightarrow> u64 \<Rightarrow> u64 \<Rightarrow> u32 \<Rightarrow> u32 \<Rightarrow> u64 \<Rightarrow> u32 \<Rightarrow> hook_world \<Rightarrow> handler_result" where
  "NtSetValueKeyHandler original KeyHandle ValueName TitleIndex Type Data DataSize =
     run_hook ''ntdll.dll'' ''NtSetValueKey''
       [OpPointer ''key_handle'' KeyHandle, OpUnicodeString ''value_name'' ValueName,
        OpUInt32 ''type'' Type, OpUInt32 ''data_size'' DataSize, OpBufferPreview ''data'' Data DataSize]
       (original (CallNtSetValueKey KeyHandle ValueName TitleIndex Type Data DataSize)) (\<lambda>result w. [])"

definition NtWriteFileHandler :: "originals \<Rightarrow> u64 \<Rightarrow> u64 \<Rightarrow> u64 \<Rightarrow> u64 \<Rightarrow> u64 \<Rightarrow> u64 \<Rightarrow> u32 \<Rightarrow> u64 \<Rightarrow> u64 \<Rightarrow>
    hook_world \<Rightarrow> handler_result" where
  "NtWriteFileHandler original FileHandle Event ApcRoutine ApcContext IoStatusBlock Buffer Length ByteOffset Key =
     run_hook ''ntdll.dll'' ''NtWriteFile''
       (file_io_ops FileHandle Event ApcRoutine ApcContext IoStatusBlock Buffer Length ByteOffset Key @
        [OpBufferPreview ''buffer'' Buffer Length])
       (original (CallNtWriteFile FileHandle Event ApcRoutine ApcContext IoStatusBlock Buffer Length ByteOffset Key))
       (\<lambda>result w. [])"

text \<open>The handler of a call.\<close>

fun handle_call :: "originals \<Rightarrow> hook_call \<Rightarrow> hook_world \<Rightarrow> handler_result" where
  "handle_call original (CallBCryptOpenAlgorithmProvider a b c d) = BCryptOpenAlgorithmProviderHandler original a b c d"
| "handle_call original (CallNtClose a) = NtCloseHandler original a"
| "handle_call original (CallNtCreateFile a b c d e f g h i j k) = NtCreateFileHandler original a b c d e f g h i j k"
| "handle_call original (CallNtOpenFile a b c d e f) = NtOpenFileHandler original a b c d e f"
| "handle_call original (CallNtOpenKey a b c) = NtOpenKeyHandler original a b c"
| "handle_call original (CallNtQueryValueKey a b c d e f) = NtQueryValueKeyHandler original a b c d e f"
| "handle_call original (CallNtReadFile a b c d e f g h i) = NtReadFileHandler original a b c d e f g h i"
| "handle_call original (CallNtSetValueKey a b c d e f) = NtSetValueKeyHandler original a b c d e f"
| "handle_call original (CallNtWriteFile a b c d e f g h i) = NtWriteFileHandler original a b c d e f g h i"

subsection \<open>Runs that fit\<close>

text \<open>The names a call may add and the most bytes its fields may take.\<close>

fun op_names :: "add_op \<Rightarrow> string list" where
  "op_names (OpPointer n v) = [n]"
| "op_names (OpUInt32 n v) = [n]"
| "op_names (OpUInt64 n v) = [n]"
| "op_names (OpInt32 n v) = [n]"
| "op_names (OpInt64 n v) = [n]"
| "op_names (OpBoolean n v) = [n]"
| "op_names (OpStatus n v) = [n]"
| "op_names (OpBufferPreview n b l) = [n]"
| "op_names (OpWideString n v c) = [n]"
| "op_names (OpUnicodeString n u) = [n]"
| "op_names (OpObjectPath n p) = [''root_directory'', n]"

fun op_bound :: "add_op \<Rightarrow> nat" where
  "op_bound (OpPointer n v) = 12 + length n"
| "op_bound (OpUInt32 n v) = 8 + length n"
| "op_bound (OpUInt64 n v) = 12 + length n"
| "op_bound (OpInt32 n v) = 8 + length n"
| "op_bound (OpInt64 n v) = 12 + length n"
| "op_bound (OpBoolean n v) = 5 + length n"
| "op_bound (OpStatus n v) = 8 + length n"
| "op_bound (OpBufferPreview n b l) = 80 + length n"
| "op_bound (OpWideString n v c) = 516 + length n"
| "op_bound (OpUnicodeString n u) = 516 + length n"
| "op_bound (OpObjectPath n p) = 542 + length n"

lemma c_str_length: "length (c_str n) \<le> length n"
  by (simp add: c_str_def length_takeWhile_le)

abbreviation asked_all :: "action list \<Rightarrow> tlv list" where
  "asked_all acts \<equiv> concat (map asked acts)"

definition only_truncates :: "action list \<Rightarrow> bool" where
  "only_truncates acts \<longleftrightarrow> (\<forall>x. SetFlag x \<in> set acts \<longrightarrow> x = TraceEventFlagTruncated)"

lemma do_actions_fit:
  "only_truncates acts \<Longrightarrow> \<forall>f \<in> set (asked_all acts). field_name_ok (string_of (tlv_name f)) \<Longrightarrow>
   distinct (map tlv_name (fs @ asked_all acts)) \<Longrightarrow>
   ev_size m a (fs @ asked_all acts) \<le> TRACE_MAX_EVENT_BYTES \<Longrightarrow> fl \<in> {0, TraceEventFlagTruncated} \<Longrightarrow>
   \<exists>fl' \<in> {0, TraceEventFlagTruncated}. do_actions m a acts (fs, fl) = (fs @ asked_all acts, fl')"
proof (induction acts arbitrary: fs fl)
  case (Cons x acts)
  have o: "only_truncates acts" using Cons.prems(1) by (auto simp: only_truncates_def)
  show ?case
  proof (cases x)
    case (SetFlag y)
    then have "y = TraceEventFlagTruncated" using Cons.prems(1) by (auto simp: only_truncates_def)
    then have "or fl y \<in> {0, TraceEventFlagTruncated}"
      using Cons.prems(5) by (auto simp: TraceEventFlagTruncated_def)
    from Cons.IH [OF o _ _ _ this, of fs] Cons.prems(2-4) show ?thesis by (simp add: SetFlag)
  next
    case (Put n ty v)
    define f where "f = Tlv (tf_code ty) (bytes_of (c_str n)) v"
    have f: "asked x = [f]" by (simp add: Put f_def)
    then have "field_name_ok (c_str n)" using Cons.prems(2) by (simp add: f_def)
    moreover have "tlv_name f \<notin> tlv_name ` set fs" using Cons.prems(3) f by auto
    moreover have "ev_size m a fs + length (enc_field f) \<le> 1024"
      using Cons.prems(4) f by (simp add: ev_size_def)
    ultimately have step: "do_action m a x (fs, fl) = (fs @ [f], fl)"
      by (simp add: Put add_field_def Let_def flip: f_def)
    from Cons.IH [OF o, of "fs @ [f]" fl] Cons.prems f show ?thesis by (simp add: step)
  qed
qed simp

lemma only_truncates_simps [simp]:
  "only_truncates []" "only_truncates (Put n ty v # acts) = only_truncates acts"
  "only_truncates (SetFlag TraceEventFlagTruncated # acts) = only_truncates acts"
  "only_truncates (acts @ acts') = (only_truncates acts \<and> only_truncates acts')"
  by (auto simp: only_truncates_def)

lemma wide_asked:
  "only_truncates (wide_actions n bs c)"
  "\<exists>v. length v \<le> 512 \<and> asked_all (wide_actions n bs c) = [Tlv 9 (bytes_of (c_str n)) v]"
  by (auto simp: wide_actions_def)

lemma unicode_asked:
  "only_truncates (unicode_actions rd n u)"
  "\<exists>v. length v \<le> 512 \<and> asked_all (unicode_actions rd n u) = [Tlv 9 (bytes_of (c_str n)) v]"
proof -
  show "only_truncates (unicode_actions rd n u)"
    by (simp add: unicode_actions_def Let_def wide_asked(1) split: prod.split)
  have "\<exists>bs c. asked_all (unicode_actions rd n u) = asked_all (wide_actions n bs c)"
    by (auto simp: unicode_actions_def Let_def split: prod.split)
  then show "\<exists>v. length v \<le> 512 \<and> asked_all (unicode_actions rd n u) = [Tlv 9 (bytes_of (c_str n)) v]"
    using wide_asked(2) by metis
qed

lemma length_preview_value: "length (preview_value (CaptureTraceBuffer rd b l)) \<le> 76"
  using captured_le [of rd b l] by (simp add: preview_value_def codec_simps)

lemma op_asked:
  "only_truncates (op_actions rd x)"
  "subseq (map tlv_name (asked_all (op_actions rd x))) (map (\<lambda>n. bytes_of (c_str n)) (op_names x))"
  "length (enc_fields (asked_all (op_actions rd x))) \<le> op_bound x"
proof -
  note len = c_str_length
  have "only_truncates (op_actions rd x) \<and>
    subseq (map tlv_name (asked_all (op_actions rd x))) (map (\<lambda>n. bytes_of (c_str n)) (op_names x)) \<and>
    length (enc_fields (asked_all (op_actions rd x))) \<le> op_bound x"
  proof (cases x)
    case (OpBufferPreview n b l)
    then show ?thesis using len [of n] length_preview_value [of rd b l] by (simp add: codec_simps)
  next
    case (OpWideString n v c)
    have "\<exists>w. length w \<le> 512 \<and> asked_all (op_actions rd x) = [Tlv 9 (bytes_of (c_str n)) w]"
    proof (cases v)
      case None
      then show ?thesis using wide_asked(2) [of n "[]" 0] OpWideString by simp
    next
      case (Some u)
      then show ?thesis using wide_asked(2) [of n "wbytes u" c] OpWideString by simp
    qed
    then obtain w where "length w \<le> 512" "asked_all (op_actions rd x) = [Tlv 9 (bytes_of (c_str n)) w]"
      by blast
    moreover have "only_truncates (op_actions rd x)"
      using wide_asked(1) OpWideString by (cases v) auto
    ultimately show ?thesis using len [of n] OpWideString by (simp add: codec_simps)
  next
    case (OpUnicodeString n u)
    then show ?thesis using unicode_asked [of rd n u] len [of n] by (auto simp: codec_simps)
  next
    case (OpObjectPath n p)
    obtain status data where r: "SafeReadSelf rd p 48 = (status, data)" by fastforce
    define hdr where "hdr = store (replicate 48 0) data"
    define root where "root = (if oa_RootDirectory hdr \<noteq> 0
       then [Put ''root_directory'' TraceFieldPointer (le_bytes (oa_RootDirectory hdr))] else [])"
    have root: "only_truncates root" "root = [] \<or>
        (\<exists>v. length v = 8 \<and> asked_all root = [Tlv 1 (bytes_of (c_str ''root_directory'')) v])"
      by (auto simp: root_def)
    have rl: "length (c_str ''root_directory'') \<le> 14" using len [of "''root_directory''"] by simp
    consider w where "op_actions rd x = w" "only_truncates w"
        "\<exists>v. length v \<le> 512 \<and> asked_all w = [Tlv 9 (bytes_of (c_str n)) v]"
      | "op_actions rd x = root @ unicode_actions rd n (oa_ObjectName hdr)"
    proof (cases "p = 0 \<or> \<not> NT_SUCCESS status")
      case True
      then show ?thesis using r that(1) [OF refl] wide_asked [of n "[]" 0]
        by (simp add: OpObjectPath object_path_actions_def)
    next
      case False
      then show ?thesis using r that(2)
        by (simp add: OpObjectPath object_path_actions_def Let_def root_def flip: hdr_def)
    qed
    then show ?thesis
    proof cases
      case (1 w)
      then show ?thesis using len [of n] by (auto simp: OpObjectPath codec_simps)
    next
      case 2
      then show ?thesis using root unicode_asked [of rd n "oa_ObjectName hdr"] len [of n] rl
        by (auto simp: OpObjectPath codec_simps)
    qed
  qed (use len in \<open>simp_all add: codec_simps\<close>)
  then show "only_truncates (op_actions rd x)"
    "subseq (map tlv_name (asked_all (op_actions rd x))) (map (\<lambda>n. bytes_of (c_str n)) (op_names x))"
    "length (enc_fields (asked_all (op_actions rd x))) \<le> op_bound x"
    by blast+
qed

lemma ops_asked:
  "only_truncates (concat (map (op_actions rd) xs))"
  "subseq (map tlv_name (asked_all (concat (map (op_actions rd) xs)))) (map (\<lambda>n. bytes_of (c_str n)) (concat (map op_names xs)))"
  "length (enc_fields (asked_all (concat (map (op_actions rd) xs)))) \<le> sum_list (map op_bound xs)"
proof -
  have "only_truncates (concat (map (op_actions rd) xs)) \<and>
    subseq (map tlv_name (asked_all (concat (map (op_actions rd) xs)))) (map (\<lambda>n. bytes_of (c_str n)) (concat (map op_names xs))) \<and>
    length (enc_fields (asked_all (concat (map (op_actions rd) xs)))) \<le> sum_list (map op_bound xs)"
  proof (induction xs)
    case (Cons x xs)
    then show ?case using op_asked [of rd x] by (auto intro: list_emb_append_mono)
  qed simp
  then show "only_truncates (concat (map (op_actions rd) xs))"
    "subseq (map tlv_name (asked_all (concat (map (op_actions rd) xs)))) (map (\<lambda>n. bytes_of (c_str n)) (concat (map op_names xs)))"
    "length (enc_fields (asked_all (concat (map (op_actions rd) xs)))) \<le> sum_list (map op_bound xs)"
    by blast+
qed

subsection \<open>Every handler's event fits\<close>

text \<open>
  A list of calls fits after some bytes and names when its names are valid C strings, distinct
  from each other, and its bound stays within the event.
\<close>

definition calls_fit :: "string \<Rightarrow> string \<Rightarrow> add_op list \<Rightarrow> bool" where
  "calls_fit m a xs \<longleftrightarrow> distinct (concat (map op_names xs)) \<and> list_all field_name_ok (concat (map op_names xs)) \<and>
     SIZEOF_EVENT_HEADER + length m + length a + sum_list (map op_bound xs) \<le> TRACE_MAX_EVENT_BYTES"

lemma subseq_distinct: "subseq xs ys \<Longrightarrow> distinct ys \<Longrightarrow> distinct xs"
  by (induction rule: list_emb.induct) (auto dest: list_emb_set)

lemma c_str_names: "list_all field_name_ok ns \<Longrightarrow> map (\<lambda>n. bytes_of (c_str n)) ns = map bytes_of ns"
  by (induction ns) (simp_all add: c_str_id field_name_ok_no_nul)

lemma two_runs_fit:
  assumes fit: "calls_fit m a (xs @ ys)"
    and acts_def: "acts = concat (map (op_actions rd) xs) @ concat (map (op_actions rd') ys)"
  shows "\<exists>fl \<in> {0, TraceEventFlagTruncated}.
     do_actions (bytes_of m) (bytes_of a) acts ([], 0) = (asked_all acts, fl)"
proof -
  let ?ns = "map bytes_of (concat (map op_names (xs @ ys)))"
  have ok: "list_all field_name_ok (concat (map op_names (xs @ ys)))" "distinct (concat (map op_names (xs @ ys)))"
    using fit by (simp_all add: calls_fit_def)
  have "subseq (map tlv_name (asked_all acts))
      (map (\<lambda>n. bytes_of (c_str n)) (concat (map op_names xs)) @ map (\<lambda>n. bytes_of (c_str n)) (concat (map op_names ys)))"
    unfolding acts_def map_append concat_append
    by (intro list_emb_append_mono ops_asked(2))
  then have sub: "subseq (map tlv_name (asked_all acts)) ?ns"
    using c_str_names [OF ok(1)] by (simp only: map_append concat_append)
  have "distinct ?ns" using ok(2) by (simp only: distinct_map) (auto simp: inj_on_def)
  then have "distinct (map tlv_name (asked_all acts))" by (rule subseq_distinct [OF sub])
  moreover have "\<forall>f \<in> set (asked_all acts). field_name_ok (string_of (tlv_name f))"
  proof
    fix f assume "f \<in> set (asked_all acts)"
    then have "tlv_name f \<in> set (map tlv_name (asked_all acts))" by (simp only: set_map image_eqI)
    from list_emb_set [OF sub this] have "tlv_name f \<in> set ?ns" by metis
    then obtain n where "n \<in> set (concat (map op_names (xs @ ys)))" "tlv_name f = bytes_of n" by auto
    with ok(1) show "field_name_ok (string_of (tlv_name f))" by (auto simp: list_all_iff)
  qed
  moreover have "length (enc_fields (asked_all acts)) \<le> sum_list (map op_bound (xs @ ys))"
    using ops_asked(3) [of rd xs] ops_asked(3) [of rd' ys] by (simp add: acts_def)
  then have "ev_size (bytes_of m) (bytes_of a) (asked_all acts) \<le> TRACE_MAX_EVENT_BYTES"
    using fit by (simp add: calls_fit_def ev_size_def)
  moreover have "only_truncates acts" using ops_asked(1) by (simp add: acts_def)
  ultimately show ?thesis using do_actions_fit [of acts "[]" _ _ 0] by simp
qed

lemma run_hook_event:
  assumes ids: "ident_ok True m" "ident_ok False a"
    and pre: "list_all op_pre before" "\<And>r w. list_all op_pre (after r w)"
    and fit: "\<And>r w. calls_fit m a (before @ after r w @ [OpStatus ''result'' r])"
    and call: "call (HookCallGuard w) = (result, w2)"
  obtains e fs fl where "run_hook m a before call after w =
      do { (ok, event, ring) \<leftarrow> EmitTraceEvent (w_setEvent w2) (TransportRing w2) (Some e);
           Some (result, event, HookCallGuard_end (w2\<lparr>TransportRing := ring\<rparr>)) }"
    "ev_repr e (bytes_of m) (bytes_of a) fs" "h_flags (header e) = fl" "fl \<in> {0, TraceEventFlagTruncated}"
    "fields_ok fs"
    "fs = asked_all (concat (map (op_actions (w_readMemory w)) before)) @
      asked_all (concat (map (op_actions (w_readMemory w2)) (after result w2))) @ [Tlv 4 (bytes_of ''result'') (le_bytes result)]"
    "h_threadId (header e) = GetCurrentThreadIdFast (w_gs48 w)" "h_timestamp100ns (header e) = w_time w"
proof -
  let ?rd = "w_readMemory w" and ?rd' = "w_readMemory w2"
  let ?post = "after result w2 @ [OpStatus ''result'' result]"
  let ?acts = "concat (map (op_actions ?rd) before)" and ?acts' = "concat (map (op_actions ?rd') ?post)"
  obtain e1 where e1: "run_adds ?rd before (snd (InitializeTraceEvent (Some (w_stack w)) (Some m) (Some a)
        (GetCurrentThreadIdFast (w_gs48 w)) (w_time w))) = Some (Some e1)"
    "ev_state e1 (bytes_of m) (bytes_of a) (built ?rd m a before)"
    "h_threadId (header e1) = GetCurrentThreadIdFast (w_gs48 w)" "h_timestamp100ns (header e1) = w_time w"
    by (rule build_event [OF ids pre(1)])
  have "list_all op_pre ?post" using pre(2) by simp
  from run_adds_refines [OF e1(2) this, of ?rd'] obtain e where
    e: "run_adds ?rd' ?post (Some e1) = Some (Some e)"
      "ev_state e (bytes_of m) (bytes_of a) (do_actions (bytes_of m) (bytes_of a) ?acts' (built ?rd m a before))"
      "same_stamp e1 e" by blast
  have st: "do_actions (bytes_of m) (bytes_of a) ?acts' (built ?rd m a before)
      = do_actions (bytes_of m) (bytes_of a) (?acts @ ?acts') ([], 0)"
    by (simp add: built_def)
  from two_runs_fit [OF _ refl, of m a before ?post ?rd ?rd'] fit obtain fl where
    fl: "fl \<in> {0, TraceEventFlagTruncated}"
      "do_actions (bytes_of m) (bytes_of a) (?acts @ ?acts') ([], 0) = (asked_all (?acts @ ?acts'), fl)" by blast
  have "list_all action_ok (?acts @ ?acts')"
    using run_actions_ok [of ?rd before] run_actions_ok [of ?rd' ?post] by simp
  from do_actions_fields_ok [OF this, of "([], 0)" "bytes_of m" "bytes_of a"]
  have "fields_ok (asked_all (?acts @ ?acts'))" by (simp only: fl(2) fst_conv) (simp add: fields_ok_def)
  moreover have "asked_all (?acts @ ?acts') = asked_all ?acts @ asked_all (concat (map (op_actions ?rd') (after result w2)))
      @ [Tlv 4 (bytes_of ''result'') (le_bytes result)]"
    by (simp add: c_str_def)
  moreover have "ev_repr e (bytes_of m) (bytes_of a) (asked_all (?acts @ ?acts'))" "h_flags (header e) = fl"
    using e(2) unfolding st fl(2) by (simp_all add: ev_state_def)
  moreover have "w_readMemory (HookCallGuard w) = ?rd" by (simp add: HookCallGuard_def)
  then have "run_hook m a before call after w =
      do { (ok, event, ring) \<leftarrow> EmitTraceEvent (w_setEvent w2) (TransportRing w2) (Some e);
           Some (result, event, HookCallGuard_end (w2\<lparr>TransportRing := ring\<rparr>)) }"
    using e1(1) e(1) call by (simp add: run_hook_def Let_def HookCallGuard_def)
  moreover have "h_threadId (header e) = GetCurrentThreadIdFast (w_gs48 w)" "h_timestamp100ns (header e) = w_time w"
    using e(3) e1(3,4) by (simp_all add: same_stamp_def)
  ultimately show ?thesis using fl(1) by (intro that) simp_all
qed

fun call_module :: "hook_call \<Rightarrow> string" where
  "call_module (CallBCryptOpenAlgorithmProvider a b c d) = ''bcrypt.dll''"
| "call_module _ = ''ntdll.dll''"

fun call_export :: "hook_call \<Rightarrow> string" where
  "call_export (CallBCryptOpenAlgorithmProvider a b c d) = ''BCryptOpenAlgorithmProvider''"
| "call_export (CallNtClose a) = ''NtClose''"
| "call_export (CallNtCreateFile a b c d e f g h i j k) = ''NtCreateFile''"
| "call_export (CallNtOpenFile a b c d e f) = ''NtOpenFile''"
| "call_export (CallNtOpenKey a b c) = ''NtOpenKey''"
| "call_export (CallNtQueryValueKey a b c d e f) = ''NtQueryValueKey''"
| "call_export (CallNtReadFile a b c d e f g h i) = ''NtReadFile''"
| "call_export (CallNtSetValueKey a b c d e f) = ''NtSetValueKey''"
| "call_export (CallNtWriteFile a b c d e f g h i) = ''NtWriteFile''"

lemma call_idents: "ident_ok True (call_module c)" "ident_ok False (call_export c)"
proof -
  have "list_all (ident_ok True) [''bcrypt.dll'', ''ntdll.dll'']"
    "list_all (ident_ok False) [''BCryptOpenAlgorithmProvider'', ''NtClose'', ''NtCreateFile'', ''NtOpenFile'',
      ''NtOpenKey'', ''NtQueryValueKey'', ''NtReadFile'', ''NtSetValueKey'', ''NtWriteFile'']"
    by code_simp+
  then show "ident_ok True (call_module c)" "ident_ok False (call_export c)"
    by (cases c; simp)+
qed

lemma calls_fitI:
  assumes "concat (map op_names xs) = ns" "sum_list (map op_bound xs) = k"
    "distinct ns" "list_all field_name_ok ns" "32 + length m + length a + k \<le> 1024"
  shows "calls_fit m a xs"
  using assms by (simp add: calls_fit_def)

text \<open>The fields of each handler, with the fields it may add after the call.\<close>

lemma handlers_fit:
  "calls_fit ''bcrypt.dll'' ''BCryptOpenAlgorithmProvider''
     [OpPointer ''algorithm'' v1, OpPointer ''algorithm_id'' v2, OpPointer ''implementation'' v3,
      OpUInt32 ''flags'' u1, OpStatus ''result'' r]"
  "calls_fit ''ntdll.dll'' ''NtClose'' [OpPointer ''handle'' v1, OpStatus ''result'' r]"
  "calls_fit ''ntdll.dll'' ''NtCreateFile''
     [OpUInt32 ''desired_access'' u1, OpObjectPath ''path'' v1, OpPointer ''io_status_block'' v2,
      OpPointer ''allocation_size'' v3, OpUInt32 ''file_attributes'' u2, OpUInt32 ''share_access'' u3,
      OpUInt32 ''create_disposition'' u4, OpUInt32 ''create_options'' u5, OpPointer ''ea_buffer'' v4,
      OpUInt32 ''ea_length'' u6, OpPointer ''file_handle'' v5, OpStatus ''result'' r]"
  "calls_fit ''ntdll.dll'' ''NtOpenFile''
     [OpUInt32 ''desired_access'' u1, OpObjectPath ''path'' v1, OpPointer ''io_status_block'' v2,
      OpUInt32 ''share_access'' u2, OpUInt32 ''open_options'' u3, OpPointer ''file_handle'' v3, OpStatus ''result'' r]"
  "calls_fit ''ntdll.dll'' ''NtOpenKey''
     [OpUInt32 ''desired_access'' u1, OpObjectPath ''path'' v1, OpPointer ''key_handle'' v2, OpStatus ''result'' r]"
  "calls_fit ''ntdll.dll'' ''NtQueryValueKey''
     [OpPointer ''key_handle'' v1, OpUnicodeString ''value_name'' v2, OpUInt32 ''info_class'' u1,
      OpUInt32 ''length'' u2, OpStatus ''result'' r]"
  "calls_fit ''ntdll.dll'' ''NtSetValueKey''
     [OpPointer ''key_handle'' v1, OpUnicodeString ''value_name'' v2, OpUInt32 ''type'' u1,
      OpUInt32 ''data_size'' u2, OpBufferPreview ''data'' v3 u3, OpStatus ''result'' r]"
  "calls_fit ''ntdll.dll'' ''NtReadFile'' (file_io_ops v1 v2 v3 v4 v5 v6 u1 v7 v8 @ [OpStatus ''result'' r])"
  "calls_fit ''ntdll.dll'' ''NtReadFile''
     (file_io_ops v1 v2 v3 v4 v5 v6 u1 v7 v8 @ [OpBufferPreview ''buffer'' v9 u2, OpStatus ''result'' r])"
  "calls_fit ''ntdll.dll'' ''NtWriteFile''
     (file_io_ops v1 v2 v3 v4 v5 v6 u1 v7 v8 @ [OpBufferPreview ''buffer'' v9 u2, OpStatus ''result'' r])"
  by (rule calls_fitI, simp add: file_io_ops_def, simp add: file_io_ops_def, code_simp, code_simp, simp)+

lemma handle_call_shape:
  obtains before after where
    "handle_call original c = run_hook (call_module c) (call_export c) before (original c) after"
    "list_all op_pre before" "\<And>r w. list_all op_pre (after r w)"
    "\<And>r w. calls_fit (call_module c) (call_export c) (before @ after r w @ [OpStatus ''result'' r])"
proof (cases c)
  case (CallNtReadFile v1 v2 v3 v4 v5 v6 u1 v7 v8)
  show ?thesis
    by (rule that [of "file_io_ops v1 v2 v3 v4 v5 v6 u1 v7 v8"
          "\<lambda>result w. if NT_SUCCESS result \<and> v5 \<noteq> 0
           then (let information = deref64 w (v5 + 8);
                     bytesRead = (if information < ucast u1 then information else ucast u1)
                 in [OpBufferPreview ''buffer'' v6 (ucast bytesRead)]) else []"])
       (auto simp: CallNtReadFile NtReadFileHandler_def Let_def handlers_fit fun_eq_iff,
        simp_all add: file_io_ops_def)
next
  case (CallNtWriteFile v1 v2 v3 v4 v5 v6 u1 v7 v8)
  show ?thesis
    by (rule that [of "file_io_ops v1 v2 v3 v4 v5 v6 u1 v7 v8 @ [OpBufferPreview ''buffer'' v6 u1]" "\<lambda>result w. []"])
       (simp_all add: CallNtWriteFile NtWriteFileHandler_def handlers_fit fun_eq_iff, simp add: file_io_ops_def)
next
  case (CallBCryptOpenAlgorithmProvider v1 v2 v3 u1)
  show ?thesis
    by (rule that [of "[OpPointer ''algorithm'' v1, OpPointer ''algorithm_id'' v2,
          OpPointer ''implementation'' v3, OpUInt32 ''flags'' u1]" "\<lambda>result w. []"])
       (simp_all add: CallBCryptOpenAlgorithmProvider BCryptOpenAlgorithmProviderHandler_def handlers_fit fun_eq_iff)
next
  case (CallNtClose v1)
  show ?thesis
    by (rule that [of "[OpPointer ''handle'' v1]" "\<lambda>result w. []"])
       (simp_all add: CallNtClose NtCloseHandler_def handlers_fit fun_eq_iff)
next
  case (CallNtCreateFile v0 u1 v1 v2 v3 u2 u3 u4 u5 v4 u6)
  show ?thesis
    by (rule that [of "[OpUInt32 ''desired_access'' u1, OpObjectPath ''path'' v1, OpPointer ''io_status_block'' v2,
          OpPointer ''allocation_size'' v3, OpUInt32 ''file_attributes'' u2, OpUInt32 ''share_access'' u3,
          OpUInt32 ''create_disposition'' u4, OpUInt32 ''create_options'' u5, OpPointer ''ea_buffer'' v4,
          OpUInt32 ''ea_length'' u6]" "\<lambda>result w. [OpPointer ''file_handle'' (opened_handle result v0 w)]"])
       (simp_all add: CallNtCreateFile NtCreateFileHandler_def handlers_fit fun_eq_iff)
next
  case (CallNtOpenFile v0 u1 v1 v2 u2 u3)
  show ?thesis
    by (rule that [of "[OpUInt32 ''desired_access'' u1, OpObjectPath ''path'' v1, OpPointer ''io_status_block'' v2,
          OpUInt32 ''share_access'' u2, OpUInt32 ''open_options'' u3]"
          "\<lambda>result w. [OpPointer ''file_handle'' (opened_handle result v0 w)]"])
       (simp_all add: CallNtOpenFile NtOpenFileHandler_def handlers_fit fun_eq_iff)
next
  case (CallNtOpenKey v0 u1 v1)
  show ?thesis
    by (rule that [of "[OpUInt32 ''desired_access'' u1, OpObjectPath ''path'' v1]"
          "\<lambda>result w. [OpPointer ''key_handle'' (opened_handle result v0 w)]"])
       (simp_all add: CallNtOpenKey NtOpenKeyHandler_def handlers_fit fun_eq_iff)
next
  case (CallNtQueryValueKey v1 v2 u1 v3 u2 v4)
  show ?thesis
    by (rule that [of "[OpPointer ''key_handle'' v1, OpUnicodeString ''value_name'' v2, OpUInt32 ''info_class'' u1,
          OpUInt32 ''length'' u2]" "\<lambda>result w. []"])
       (simp_all add: CallNtQueryValueKey NtQueryValueKeyHandler_def handlers_fit fun_eq_iff)
next
  case (CallNtSetValueKey v1 v2 u0 u1 v3 u2)
  show ?thesis
    by (rule that [of "[OpPointer ''key_handle'' v1, OpUnicodeString ''value_name'' v2, OpUInt32 ''type'' u1,
          OpUInt32 ''data_size'' u2, OpBufferPreview ''data'' v3 u2]" "\<lambda>result w. []"])
       (simp_all add: CallNtSetValueKey NtSetValueKeyHandler_def handlers_fit fun_eq_iff)
qed

subsection \<open>Properties\<close>

text \<open>The fields an event of a call records before the call, after it, and last the status.\<close>

lemma stamp_repr [simp]: "ev_repr (stamp r e) m a fs \<longleftrightarrow> ev_repr e m a fs"
  by (simp add: stamp_def ev_repr_def)

lemma ev_repr_fits: "ev_repr e m a fs \<Longrightarrow> event_fits e"
  by (auto simp: event_fits_def event_ok_def ev_repr_def ev_size_def TraceNameBytes_def)


definition idle_world :: hook_world where
  "idle_world = \<lparr>w_readMemory = None, w_memory = (\<lambda>a. 0), w_gs48 = 7, w_time = 9, w_stack = zero_event,
     w_setEvent = None, TransportRing = Some init_ring, ActiveHookCalls = 0\<rparr>"


text \<open>C4: A hook is transparent to the hooked program. The original function is called once, on the
  same arguments, in the process as the caller left it but for the count of active calls; its
  status is what the caller gets, and the memory and everything else it left behind are
  untouched but for the ring and the count of active calls, which is back at its value, even
  when no ring is configured.\<close>

theorem hook_transparent:
  assumes "original c (w\<lparr>ActiveHookCalls := ActiveHookCalls w + 1\<rparr>) = (result, w2)"
    and "\<And>r. TransportRing w2 = Some r \<Longrightarrow> ring_inv r \<and> enqueuePosition r < 2 ^ 62"
  shows "\<exists>event ring. handle_call original c w =
     Some (result, event, w2\<lparr>TransportRing := ring, ActiveHookCalls := ActiveHookCalls w2 - 1\<rparr>) \<and>
     (ring = None \<longleftrightarrow> TransportRing w2 = None)"
proof -
  obtain before after where shape: "handle_call original c = run_hook (call_module c) (call_export c) before (original c) after"
    "list_all op_pre before" "\<And>r w. list_all op_pre (after r w)"
    "\<And>r w. calls_fit (call_module c) (call_export c) (before @ after r w @ [OpStatus ''result'' r])"
    by (rule handle_call_shape [of original c]) blast
  have call: "original c (HookCallGuard w) = (result, w2)" using assms(1) by (simp add: HookCallGuard_def)
  obtain e fs where e: "handle_call original c w =
      do { (ok, event, ring) \<leftarrow> EmitTraceEvent (w_setEvent w2) (TransportRing w2) (Some e);
           Some (result, event, HookCallGuard_end (w2\<lparr>TransportRing := ring\<rparr>)) }"
    "ev_repr e (bytes_of (call_module c)) (bytes_of (call_export c)) fs"
    unfolding shape(1) by (rule run_hook_event [where before = before and after = after and call = "original c" and w = w, OF call_idents [of c] shape(2-4) call]) blast
  show ?thesis
  proof (cases "TransportRing w2")
    case None
    then show ?thesis using e(1) by (simp add: EmitTraceEvent_def HookCallGuard_end_def)
  next
    case (Some r)
    from assms(2) [OF Some] EmitTraceEvent_outcome [OF _ ev_repr_fits [OF e(2)]] obtain ok r' where
      "EmitTraceEvent (w_setEvent w2) (Some r) (Some e) = Some (ok, Some (stamp r e), Some r')" by blast
    with e(1) Some show ?thesis by (simp add: HookCallGuard_end_def) blast
  qed
qed

lemma hook_transparent_witness:
  "\<exists>event. handle_call (\<lambda>c w. (5, w\<lparr>w_gs48 := 1\<rparr>)) (CallNtClose 4) (idle_world\<lparr>TransportRing := None\<rparr>) =
     Some (5, event, idle_world\<lparr>TransportRing := None, w_gs48 := 1\<rparr>)"
  using hook_transparent [of "\<lambda>c w. (5, w\<lparr>w_gs48 := 1\<rparr>)" "CallNtClose 4" "idle_world\<lparr>TransportRing := None\<rparr>" 5
      "idle_world\<lparr>TransportRing := None, ActiveHookCalls := 1, w_gs48 := 1\<rparr>"]
  by (auto simp: idle_world_def)

end
