(* ===== verification/Trace_Stats.thy ===== *)
theory Trace_Stats
  imports Complex_Main Trace_Format "HOL-Library.List_Lexorder" "HOL-Library.Multiset" "HOL-Library.Log_Nat"
begin

section \<open>Session counters, the status footer and the summary\<close>

text \<open>
  \<open>src/apiscope/trace_stats.cpp\<close>. The map from hook names to counts is its list of pairs in key
  order (\<open>std::string\<close> compares its characters as unsigned, as \<open>Char_ord\<close> does). A \<open>double\<close> is a
  rational and every arithmetic result is rounded by \<open>fl\<close> to 53 significant bits, ties to even;
  infinities and NaN are not represented. A conversion to \<open>uint64_t\<close> out of range has no defined
  value: \<open>None\<close>.
\<close>

subsection \<open>Doubles\<close>

type_synonym double = rat

definition round_half_even :: "rat \<Rightarrow> int" where
  "round_half_even x =
     (let n = \<lfloor>x\<rfloor>; d = x - of_int n
      in if d < 1 / 2 then n else if 1 / 2 < d then n + 1 else if even n then n else n + 1)"

text \<open>\<open>2 ^ floor_log2 x \<le> x\<close> for positive \<open>x\<close>, the largest such power.\<close>

definition floor_log2 :: "rat \<Rightarrow> int" where
  "floor_log2 x =
     (let (p, q) = quotient_of x; k = int (floorlog 2 (nat p)) - int (floorlog 2 (nat q))
      in if 2 powi k \<le> x then k else k - 1)"

definition fl :: "rat \<Rightarrow> double" where
  "fl x = (if x = 0 then 0 else
     let e = max (- 1074) (floor_log2 \<bar>x\<bar> - 52)
     in of_int (round_half_even (x / 2 powi e)) * 2 powi e)"

definition to_u64 :: "double \<Rightarrow> u64 option" where
  "to_u64 x = (if 0 \<le> x \<and> x < 2 ^ 64 then Some (of_int \<lfloor>x\<rfloor>) else None)"

subsection \<open>Counters\<close>

record TraceStats =
  stat_events :: u64
  dropped :: u32
  perHook :: "(string \<times> u64) list"

definition empty_stats :: TraceStats where
  "empty_stats = \<lparr>stat_events = 0, dropped = 0, perHook = []\<rparr>"

fun increment :: "string \<Rightarrow> (string \<times> u64) list \<Rightarrow> (string \<times> u64) list" where
  "increment hook [] = [(hook, 1)]"
| "increment hook ((name, hits) # hooks) =
     (if hook = name then (name, hits + 1) # hooks
      else if hook < name then (hook, 1) # (name, hits) # hooks
      else (name, hits) # increment hook hooks)"

definition Record :: "TraceStats \<Rightarrow> string \<Rightarrow> TraceStats" where
  "Record stats hook = stats\<lparr>stat_events := stat_events stats + 1, perHook := increment hook (perHook stats)\<rparr>"

subsection \<open>Formatting\<close>

text \<open>The loop sees the digits from the last to the first and its output is reversed.\<close>

fun group_loop :: "string \<Rightarrow> nat \<Rightarrow> string \<Rightarrow> string" where
  "group_loop [] hits out = out"
| "group_loop (c # digits) hits out =
     group_loop digits (hits + 1) ((if hits \<noteq> 0 \<and> hits mod 3 = 0 then out @ '','' else out) @ [c])"

definition GroupThousands :: "u64 \<Rightarrow> string" where
  "GroupThousands value = rev (group_loop (rev (dec (unat value))) 0 [])"

definition FormatDuration :: "double \<Rightarrow> string option" where
  "FormatDuration seconds =
     (let seconds = (if seconds < 0 then 0 else seconds)
      in do {
        total \<leftarrow> to_u64 (fl (seconds + 1 / 2));
        let hours = total div 3600;
        let minutes = total mod 3600 div 60;
        let secs = total mod 60;
        Some (if hours \<noteq> 0
          then dec (unat hours) @ '':'' @ setw 2 (CHR ''0'') (dec (unat minutes)) @ '':'' @ setw 2 (CHR ''0'') (dec (unat secs))
          else dec (unat minutes) @ '':'' @ setw 2 (CHR ''0'') (dec (unat secs)))
      })"

text \<open>The comparator of \<open>SortedHooks\<close> orders the entries: by falling count, then by name.\<close>

datatype hook_count = HookCount (hook_name: string) (hook_hits: u64)

definition hook_before :: "hook_count \<Rightarrow> hook_count \<Rightarrow> bool" where
  "hook_before a b = (if hook_hits a \<noteq> hook_hits b then hook_hits b < hook_hits a else hook_name a < hook_name b)"

instantiation hook_count :: linorder
begin

definition less_hook_count :: "hook_count \<Rightarrow> hook_count \<Rightarrow> bool" where
  "less_hook_count = hook_before"

definition less_eq_hook_count :: "hook_count \<Rightarrow> hook_count \<Rightarrow> bool" where
  "less_eq_hook_count a b \<longleftrightarrow> a < b \<or> a = b"

instance
proof
  fix x y z :: hook_count
  show "x < y \<longleftrightarrow> x \<le> y \<and> \<not> y \<le> x" "x \<le> y \<or> y \<le> x" "x \<le> x"
    by (cases x; cases y; auto simp: less_hook_count_def hook_before_def less_eq_hook_count_def)+
  show "x \<le> y \<Longrightarrow> y \<le> x \<Longrightarrow> x = y"
    by (cases x; cases y; auto simp: less_hook_count_def hook_before_def less_eq_hook_count_def split: if_splits)
  show "x \<le> y \<Longrightarrow> y \<le> z \<Longrightarrow> x \<le> z"
    by (cases x; cases y; cases z; auto simp: less_hook_count_def hook_before_def less_eq_hook_count_def split: if_splits)
qed

end

definition SortedHooks :: "TraceStats \<Rightarrow> hook_count list" where
  "SortedHooks stats = sort (map (\<lambda>(name, hits). HookCount name hits) (perHook stats))"

definition short_name :: "string \<Rightarrow> string" where
  "short_name name = (if CHR ''!'' \<in> set name then tl (dropWhile (\<lambda>c. c \<noteq> CHR ''!'') name) else name)"

definition FormatStatusLine :: "TraceStats \<Rightarrow> double \<Rightarrow> nat \<Rightarrow> string option" where
  "FormatStatusLine stats elapsedSeconds maxWidth =
     (let rate = (if elapsedSeconds > 0 then fl (fl (of_nat (unat (stat_events stats))) / elapsedSeconds) else 0)
      in do {
        perSecond \<leftarrow> to_u64 (fl (rate + 1 / 2));
        duration \<leftarrow> FormatDuration elapsedSeconds;
        let line = '' '' @ GroupThousands (stat_events stats) @ '' events'' @
          ''  '' @ dec (unat (dropped stats)) @ '' drops'' @
          ''  '' @ dec (unat perSecond) @ ''/s'' @ ''  '' @ duration;
        let result = line @ concat (map (\<lambda>h. ''  '' @ short_name (hook_name h) @ '' '' @ dec (unat (hook_hits h)))
          (take 4 (SortedHooks stats)));
        Some (if maxWidth \<noteq> 0 \<and> length result > maxWidth then take maxWidth result else result)
      })"

definition FormatSummary :: "TraceStats \<Rightarrow> double \<Rightarrow> string option" where
  "FormatSummary stats elapsedSeconds = do {
     duration \<leftarrow> FormatDuration elapsedSeconds;
     let hooks = SortedHooks stats;
     Some (''[=] Session summary'' @ [CHR 0x0A] @
       ''    events   : '' @ dec (unat (stat_events stats)) @ [CHR 0x0A] @
       ''    dropped  : '' @ dec (unat (dropped stats)) @ [CHR 0x0A] @
       ''    duration : '' @ duration @ [CHR 0x0A] @
       (if hooks \<noteq> [] then ''    per hook :'' @ [CHR 0x0A] @
          concat (map (\<lambda>h. ''      '' @ hook_name h @ '' : '' @ dec (unat (hook_hits h)) @ [CHR 0x0A]) hooks)
        else []))
   }"

subsection \<open>The counters\<close>

text \<open>The entries as a map, and the key order the map keeps.\<close>

lemma increment_keys: "set (map fst (increment h ps)) = insert h (fst ` set ps)"
  by (induction ps rule: increment.induct) auto

lemma increment_sorted: "sorted_wrt (<) (map fst ps) \<Longrightarrow> sorted_wrt (<) (map fst (increment h ps))"
proof (induction h ps rule: increment.induct)
  case (2 h name n ps)
  have "set (map fst (increment h ps)) = insert h (fst ` set ps)" by (rule increment_keys)
  with 2 show ?case by auto
qed simp

lemma increment_lookup:
  "sorted_wrt (<) (map fst ps) \<Longrightarrow> map_of (increment h ps) x =
     (if x = h then Some (case map_of ps h of None \<Rightarrow> 1 | Some n \<Rightarrow> n + 1) else map_of ps x)"
proof (induction h ps rule: increment.induct)
  case (2 h name n ps)
  have "map_of ps h = None" if "h < name"
    using 2(2) that by (auto simp: map_of_eq_None_iff dest: order_less_trans)
  with 2 show ?case by auto
qed simp

definition recorded :: "string list \<Rightarrow> TraceStats" where
  "recorded hs = foldl Record empty_stats hs"

lemma recorded_snoc: "recorded (hs @ [h]) = Record (recorded hs) h"
  by (simp add: recorded_def)

lemma recorded_state:
  "stat_events (recorded hs) = of_nat (length hs) \<and> dropped (recorded hs) = 0 \<and>
   sorted_wrt (<) (map fst (perHook (recorded hs))) \<and>
   map_of (perHook (recorded hs)) h = (if h \<in> set hs then Some (of_nat (count_list hs h)) else None)"
proof (induction hs arbitrary: h rule: rev_induct)
  case Nil
  then show ?case by (simp add: recorded_def empty_stats_def)
next
  case (snoc x hs)
  then show ?case
    by (auto simp: recorded_snoc Record_def increment_sorted increment_lookup count_list_append count_list_0_iff add.commute)
qed

lemma SortedHooks_entries:
  "mset (SortedHooks s) = mset (map (\<lambda>(name, hits). HookCount name hits) (perHook s))"
  "sorted (SortedHooks s)"
  by (simp_all add: SortedHooks_def)

lemma recorded_entries:
  "distinct (map hook_name (SortedHooks (recorded hs)))"
  "set (SortedHooks (recorded hs)) = (\<lambda>x. HookCount x (of_nat (count_list hs x))) ` set hs"
proof -
  let ?l = "SortedHooks (recorded hs)"
  let ?ps = "perHook (recorded hs)"
  have ps: "distinct (map fst ?ps)" using recorded_state strict_sorted_iff by blast
  have "image_mset hook_name (mset ?l) = image_mset fst (mset ?ps)"
    by (simp add: SortedHooks_entries case_prod_unfold multiset.map_comp comp_def)
  then have "mset (map hook_name ?l) = mset (map fst ?ps)" by simp
  then show "distinct (map hook_name ?l)" using ps mset_eq_imp_distinct_iff by blast
  have "(a, b) \<in> set ?ps \<longleftrightarrow> a \<in> set hs \<and> b = of_nat (count_list hs a)" for a b
    using recorded_state [of hs a] by (auto simp flip: map_of_eq_Some_iff [OF ps] split: if_splits)
  then have "set ?ps = (\<lambda>x. (x, of_nat (count_list hs x))) ` set hs" by auto
  with SortedHooks_entries(1) [of "recorded hs"]
  show "set ?l = (\<lambda>x. HookCount x (of_nat (count_list hs x))) ` set hs"
    by (simp add: SortedHooks_def image_image)
qed

lemma small_count: "length hs < 2 ^ 64 \<Longrightarrow> unat (of_nat (count_list hs x) :: u64) = count_list hs x"
  using count_le_length [of hs x] by (intro unat_of_nat_small) simp

text \<open>C26: The report counts every event once and lists the busiest hooks first. After any run of
  fewer than \<open>2 ^ 64\<close> recorded events the total is their number, every hook that occurred
  is listed exactly once with the number of its events and no other is, the listed counts
  add up to the total, and they never rise down the list, hooks with equal counts standing in
  name order.\<close>

theorem session_report_exact:
  assumes "length hs < 2 ^ 64"
  shows "unat (stat_events (recorded hs)) = length hs \<and>
     distinct (map hook_name (SortedHooks (recorded hs))) \<and>
     set (map (\<lambda>h. (hook_name h, unat (hook_hits h))) (SortedHooks (recorded hs))) = (\<lambda>x. (x, count_list hs x)) ` set hs \<and>
     sum_list (map (\<lambda>h. unat (hook_hits h)) (SortedHooks (recorded hs))) = length hs \<and>
     sorted_wrt (\<lambda>a b. hook_hits b < hook_hits a \<or> hook_hits a = hook_hits b \<and> hook_name a < hook_name b)
       (SortedHooks (recorded hs))"
proof -
  let ?l = "SortedHooks (recorded hs)"
  note small = small_count [OF assms] and names = recorded_entries(1) [of hs] and entries = recorded_entries(2) [of hs]
  have "sum_list (map (\<lambda>h. unat (hook_hits h)) ?l) = (\<Sum>h \<in> set ?l. unat (hook_hits h))"
    using names by (simp add: distinct_map sum_list_distinct_conv_sum_set)
  also have "\<dots> = (\<Sum>x \<in> set hs. count_list hs x)"
    unfolding entries by (subst sum.reindex) (auto simp: inj_on_def small)
  finally have total: "sum_list (map (\<lambda>h. unat (hook_hits h)) ?l) = length hs"
    by (simp add: sum_count_set)
  have "sorted_wrt (<) ?l"
    using names SortedHooks_entries(2) by (simp add: distinct_map strict_sorted_iff)
  then have "sorted_wrt (\<lambda>a b. hook_hits b < hook_hits a \<or> hook_hits a = hook_hits b \<and> hook_name a < hook_name b) ?l"
    by (rule sorted_wrt_mono_rel [rotated]) (auto simp: less_hook_count_def hook_before_def split: if_splits)
  moreover have "unat (stat_events (recorded hs)) = length hs"
    using recorded_state [of hs] assms by (simp add: unat_of_nat_small)
  ultimately show ?thesis using names total by (simp add: entries image_image small)
qed

lemma session_report_exact_witness:
  "unat (stat_events (recorded [''ntdll.dll!NtClose'', ''a!b'', ''ntdll.dll!NtClose''])) = 3"
  using session_report_exact [of "[''ntdll.dll!NtClose'', ''a!b'', ''ntdll.dll!NtClose'']"] by simp

subsection \<open>The footer\<close>

lemma group_loop_digits: "CHR '','' \<notin> set ds \<Longrightarrow> filter (\<lambda>c. c \<noteq> CHR '','') (group_loop ds n out) = filter (\<lambda>c. c \<noteq> CHR '','') out @ ds"
  by (induction ds n out rule: group_loop.induct) auto

text \<open>After \<open>n\<close> digits there are \<open>(n - 1) div 3\<close> commas, and one more is due at every third digit.\<close>

lemma comma_due: "n \<noteq> 0 \<Longrightarrow> n mod 3 = 0 \<Longrightarrow> (n + (n - 1) div 3) mod 4 = (3::nat) \<and> Suc (n + (n - 1) div 3) = n + n div 3"
proof -
  assume "n \<noteq> 0" "n mod 3 = 0"
  then obtain k where n: "n = 3 * k" "k \<noteq> 0" by (metis mod_0_imp_dvd dvd_def mult_0_right)
  then obtain j where k: "k = Suc j" by (cases k) auto
  have "(3 * k - 1) div 3 = j" by (simp add: k)
  moreover have "(3 * k + j) = 3 + 4 * j" by (simp add: k)
  ultimately show ?thesis unfolding n(1) by (simp add: k)
qed
lemma no_comma_due: "n mod 3 \<noteq> 0 \<Longrightarrow> (n + (n - 1) div 3) mod 4 \<noteq> (3::nat) \<and> (n + (n - 1) div 3) = n + n div 3"
proof -
  assume r: "n mod 3 \<noteq> 0"
  define k where "k = n div 3"
  consider "n mod 3 = 1" | "n mod 3 = 2" using r by linarith
  then have "n = 3 * k + 1 \<or> n = 3 * k + 2"
    unfolding k_def by cases (metis mult_div_mod_eq)+
  then consider "n = 3 * k + 1" | "n = 3 * k + 2" by blast
  then show ?thesis
  proof cases
    case 1
    then have "(n + (n - 1) div 3) = 1 + 4 * k" "n div 3 = k" by simp_all
    then show ?thesis using 1 by simp
  next
    case 2
    then have "(n + (n - 1) div 3) = 2 + 4 * k" "n div 3 = k" by simp_all
    moreover have "(2 + 4 * k) mod 4 = 2" by presburger
    ultimately show ?thesis by simp
  qed
qed

lemma group_loop_commas:
  assumes "CHR '','' \<notin> set ds" "length out = (if n = 0 then 0 else n + (n - 1) div 3)"
    and "\<forall>i < length out. out ! i = CHR '','' \<longleftrightarrow> i mod 4 = 3"
  shows "\<forall>i < length (group_loop ds n out). group_loop ds n out ! i = CHR '','' \<longleftrightarrow> i mod 4 = 3"
  using assms
proof (induction ds n out rule: group_loop.induct)
  case (2 c ds n out)
  let ?out = "(if n \<noteq> 0 \<and> n mod 3 = 0 then out @ '','' else out) @ [c]"
  have len: "length ?out = n + 1 + n div 3"
    and com: "n \<noteq> 0 \<and> n mod 3 = 0 \<longleftrightarrow> length out mod 4 = 3"
    using "2.prems"(2) comma_due [of n] no_comma_due [of n] by (auto split: if_splits)
  have c: "c \<noteq> CHR '',''" "CHR '','' \<notin> set ds" using "2.prems"(1) by auto
  have "?out ! i = CHR '','' \<longleftrightarrow> i mod 4 = 3" if i: "i < length ?out" for i
  proof -
    consider "i < length out" | "i = length out" | "i = Suc (length out)" "length out mod 4 = 3"
      using i com by (auto simp: less_Suc_eq split: if_splits)
    then show ?thesis
      using "2.prems"(3) c(1) com by cases (auto simp: nth_append mod_Suc)
  qed
  with len c(2) show ?case unfolding group_loop.simps by (intro "2.IH") simp_all
qed simp

lemma dec_no_comma: "CHR '','' \<notin> set (dec n)"
  using dec_digits [of n] by (auto simp: list_all_iff is_digit_of_char)

lemma GroupThousands_reads_back:
  "filter (\<lambda>c. c \<noteq> CHR '','') (GroupThousands v) = dec (unat v)"
  by (simp add: GroupThousands_def group_loop_digits dec_no_comma flip: rev_filter)

lemma GroupThousands_commas:
  "\<forall>i < length (GroupThousands v). rev (GroupThousands v) ! i = CHR '','' \<longleftrightarrow> i mod 4 = 3"
  using group_loop_commas [of "rev (dec (unat v))" "[]" 0] by (simp add: GroupThousands_def dec_no_comma)

text \<open>Rounding keeps a number between 0 and a power of two in that range.\<close>

lemma round_half_even_bounds: "of_int a \<le> x \<Longrightarrow> x \<le> of_int b \<Longrightarrow> a \<le> round_half_even x \<and> round_half_even x \<le> b"
proof -
  assume a: "of_int a \<le> x" and b: "x \<le> of_int b"
  from a have "a \<le> \<lfloor>x\<rfloor>" by (simp add: le_floor_iff)
  moreover have "\<lfloor>x\<rfloor> \<le> b" using b by linarith
  moreover have "\<lfloor>x\<rfloor> + 1 \<le> b" if "x \<noteq> of_int \<lfloor>x\<rfloor>" using that b by linarith
  ultimately show ?thesis by (auto simp: round_half_even_def Let_def)
qed

lemma floor_log2_le:
  assumes "0 < x"
  shows "2 powi floor_log2 x \<le> x"
proof -
  obtain p q where pq: "quotient_of x = (p, q)" by fastforce
  have x: "x = of_int p / of_int q" and q: "0 < q"
    using pq quotient_of_div quotient_of_denom_pos by blast+
  then have p: "0 < p" using assms by (simp add: zero_less_divide_iff)
  let ?a = "floorlog 2 (nat p)" and ?b = "floorlog 2 (nat q)"
  have "2 ^ (?a - 1) \<le> nat p" "nat q < 2 ^ ?b" "0 < ?a"
    using floorlog_bounds [of "nat p" 2] floorlog_bounds [of "nat q" 2] p q by (auto simp: floorlog_def)
  then have "2 ^ (?a - 1) \<le> p" "q \<le> 2 ^ ?b"
    by (simp_all add: le_nat_iff nat_less_iff)
  then have "(2 ^ (?a - 1) :: rat) \<le> of_int p" "(of_int q :: rat) \<le> 2 ^ ?b"
    by (metis of_int_le_iff of_int_power of_int_numeral)+
  then have "2 ^ (?a - 1) / 2 ^ ?b \<le> (of_int p / of_int q :: rat)"
    using p q by (intro frac_le) simp_all
  also have "(2 ^ (?a - 1) / 2 ^ ?b :: rat) = 2 powi (int ?a - int ?b - 1)"
    using \<open>0 < ?a\<close> by (cases ?a) (simp_all add: power_int_diff)
  finally show ?thesis unfolding x [symmetric] by (simp add: floor_log2_def pq Let_def)
qed

lemma fl_bounds:
  assumes "0 \<le> x" "x \<le> 2 ^ n"
  shows "0 \<le> fl x \<and> fl x \<le> 2 ^ n"
proof (cases "x = 0")
  case False
  then have x: "0 < x" using assms by simp
  define e where "e = max (- 1074) (floor_log2 x - 52)"
  have "2 powi floor_log2 x \<le> (2 :: rat) powi int n"
    using floor_log2_le [OF x] assms(2) by (simp add: power_int_of_nat)
  then have "floor_log2 x \<le> int n" by (metis one_less_numeral_iff power_int_le_imp_le_exp semiring_norm(76) of_nat_0_le_iff)
  then have e: "e \<le> int n" by (simp add: e_def)
  then have "(2 ^ n :: rat) = 2 ^ nat (int n - e) * 2 powi e"
    by (simp add: power_int_diff flip: power_int_of_nat)
  then have "x / 2 powi e \<le> 2 ^ nat (int n - e)"
    using assms(2) by (simp add: divide_le_eq)
  then have "0 \<le> round_half_even (x / 2 powi e) \<and> round_half_even (x / 2 powi e) \<le> 2 ^ nat (int n - e)"
    using x by (intro round_half_even_bounds) simp_all
  then have "(0 :: rat) \<le> of_int (round_half_even (x / 2 powi e))"
    "of_int (round_half_even (x / 2 powi e)) \<le> (2 ^ nat (int n - e) :: rat)"
    by (simp, metis of_int_le_iff of_int_power of_int_numeral)
  then have "0 \<le> of_int (round_half_even (x / 2 powi e)) * (2 powi e :: rat)"
    "of_int (round_half_even (x / 2 powi e)) * 2 powi e \<le> (2 ^ n :: rat)"
    unfolding \<open>(2 ^ n :: rat) = 2 ^ nat (int n - e) * 2 powi e\<close>
    by (simp_all add: mult_right_mono)
  then show ?thesis using x by (simp add: fl_def Let_def e_def)
qed (simp add: fl_def)

lemma to_u64_floor: "0 \<le> x \<Longrightarrow> x \<le> 2 ^ 63 \<Longrightarrow> \<exists>u. to_u64 x = Some u \<and> int (unat u) = \<lfloor>x\<rfloor>"
proof -
  assume x: "0 \<le> x" "x \<le> 2 ^ 63"
  then have "\<lfloor>x\<rfloor> \<le> \<lfloor>2 ^ 63 :: rat\<rfloor>" by (rule_tac floor_mono)
  then have "0 \<le> \<lfloor>x\<rfloor>" "\<lfloor>x\<rfloor> < 2 ^ 64" using x by (simp, simp)
  then have "int (unat (of_int \<lfloor>x\<rfloor> :: u64)) = \<lfloor>x\<rfloor>"
    by (simp add: uint_word_of_int take_bit_int_eq_self)
  then show ?thesis using x by (simp add: to_u64_def)
qed

definition nearest_second :: "double \<Rightarrow> nat" where
  "nearest_second t = nat \<lfloor>fl (max 0 t + 1 / 2)\<rfloor>"

lemma hms: "3600 * (n div 3600) + 60 * (n mod 3600 div 60) + n mod 60 = (n :: nat)"
proof -
  have "60 * (n mod 3600 div 60) + n mod 60 = n mod 3600"
    using mult_div_mod_eq [of 60 "n mod 3600"] by (simp add: mod_mod_cancel)
  moreover have "3600 * (n div 3600) + n mod 3600 = n" by (rule mult_div_mod_eq)
  ultimately show ?thesis by linarith
qed

lemma FormatDuration_reads:
  assumes "t \<le> 2 ^ 62"
  obtains h m s where "FormatDuration t = Some ((if h \<noteq> 0 then dec h @ '':'' @ setw 2 (CHR ''0'') (dec m) else dec m)
       @ '':'' @ setw 2 (CHR ''0'') (dec s))"
    "m < 60" "s < 60" "3600 * h + 60 * m + s = nearest_second t"
proof -
  let ?x = "fl (max 0 t + 1 / 2)"
  have "0 \<le> ?x \<and> ?x \<le> 2 ^ 63" using assms by (intro fl_bounds) auto
  then obtain u where u: "to_u64 ?x = Some u" "int (unat u) = \<lfloor>?x\<rfloor>" using to_u64_floor by blast
  have eq: "(if t < 0 then 0 else t) = max 0 t" by simp
  let ?h = "unat (u div 3600)" and ?m = "unat (u mod 3600 div 60)" and ?s = "unat (u mod 60)"
  have n: "?h = unat u div 3600" "?m = unat u mod 3600 div 60" "?s = unat u mod 60"
    by (simp_all add: unat_div_distrib unat_mod_distrib)
  have "unat u = nearest_second t" using u(2) by (simp add: nearest_second_def flip: u(2))
  moreover have "u div 3600 \<noteq> 0 \<longleftrightarrow> ?h \<noteq> 0" by (simp add: unat_eq_0)
  moreover have "3600 * ?h + 60 * ?m + ?s = unat u" "?m < 60" "?s < 60"
    unfolding n using hms [of "unat u"] by simp_all
  ultimately show ?thesis
    using u(1) by (intro that [of ?h ?m ?s]) (simp_all add: FormatDuration_def eq Let_def)
qed

lemma FormatDuration_Some: "t \<le> 2 ^ 62 \<Longrightarrow> \<exists>d. FormatDuration t = Some d"
  by (rule FormatDuration_reads) auto

lemma rate_Some:
  assumes "unat n \<le> 2 ^ 32" "t \<le> 0 \<or> 2 powi (- 30) \<le> t"
  shows "\<exists>u. to_u64 (fl ((if t > 0 then fl (fl (of_nat (unat (n :: u64))) / t) else 0) + 1 / 2)) = Some u"
proof -
  define r where "r = (if t > 0 then fl (fl (of_nat (unat n)) / t) else 0)"
  have "0 \<le> r \<and> r \<le> 2 ^ 62"
  proof (cases "t > 0")
    case True
    then have t: "2 powi (- 30) \<le> t" using assms(2) by simp
    have "(of_nat (unat n) :: rat) \<le> 2 ^ 32" using assms(1) by (metis of_nat_le_iff of_nat_numeral of_nat_power)
    then have f: "0 \<le> fl (of_nat (unat n)) \<and> fl (of_nat (unat n)) \<le> 2 ^ 32" by (intro fl_bounds of_nat_0_le_iff)
    have "(2 ^ 62 :: rat) * 2 powi (- 30) \<le> 2 ^ 62 * t" using t by (rule mult_left_mono) (rule zero_le_power, rule zero_le_numeral)
    moreover have "(2 ^ 62 :: rat) * 2 powi (- 30) = 2 ^ 32" by (simp add: power_int_minus)
    ultimately have "fl (of_nat (unat n)) \<le> 2 ^ 62 * t" using f by (metis order_trans)
    with True have le: "fl (of_nat (unat n)) / t \<le> 2 ^ 62" by (metis divide_le_eq)
    have "0 \<le> fl (of_nat (unat n)) / t" using True f by (metis divide_nonneg_pos)
    from fl_bounds [OF this le]
    show ?thesis using True by (simp only: r_def if_True)
  qed (simp add: r_def)
  then have "0 \<le> r + 1 / 2" "r + 1 / 2 \<le> 2 ^ 63" by simp_all
  then have "0 \<le> fl (r + 1 / 2) \<and> fl (r + 1 / 2) \<le> 2 ^ 63" by (rule fl_bounds)
  then show ?thesis using to_u64_floor unfolding r_def by blast
qed



text \<open>The end-of-session summary is complete. For a session below \<open>2 ^ 62\<close> seconds it always
  prints: three lines with the totals and the time, then one line for every hook that occurred,
  with its number of events, and nothing else.\<close>

theorem summary_lists_every_hook:
  assumes "length hs < 2 ^ 64" "t \<le> 2 ^ 62"
  shows "\<exists>d names. FormatDuration t = Some d \<and> set names = set hs \<and> distinct names \<and>
     FormatSummary (recorded hs) t = Some
       (concat (map (\<lambda>line. line @ [CHR 0x0A])
         ([''[=] Session summary'', ''    events   : '' @ dec (length hs), ''    dropped  : 0'', ''    duration : '' @ d] @
          (if hs = [] then [] else ''    per hook :'' # map (\<lambda>x. ''      '' @ x @ '' : '' @ dec (count_list hs x)) names))))"
proof -
  let ?l = "SortedHooks (recorded hs)"
  obtain d where d: "FormatDuration t = Some d" using FormatDuration_Some [OF assms(2)] by blast
  have "unat (stat_events (recorded hs)) = length hs" "dropped (recorded hs) = 0"
    using recorded_state [of hs] assms(1) by (simp_all add: unat_of_nat_small)
  moreover have "?l = [] \<longleftrightarrow> hs = []"
    using recorded_entries(2) [of hs] by (metis image_is_empty set_empty)
  moreover have hits: "unat (hook_hits h) = count_list hs (hook_name h)" if "h \<in> set ?l" for h
    using that small_count [OF assms(1)] by (auto simp: recorded_entries(2))
  moreover have "dec 0 = ''0''" by code_simp
  ultimately have "FormatSummary (recorded hs) t = Some
       (concat (map (\<lambda>line. line @ [CHR 0x0A])
         ([''[=] Session summary'', ''    events   : '' @ dec (length hs), ''    dropped  : 0'', ''    duration : '' @ d] @
          (if hs = [] then [] else ''    per hook :'' #
             map (\<lambda>x. ''      '' @ x @ '' : '' @ dec (count_list hs x)) (map hook_name ?l)))))"
    by (simp add: FormatSummary_def d Let_def comp_def hits cong: map_cong)
  moreover have "set (map hook_name ?l) = set hs" by (simp add: recorded_entries(2) image_image)
  ultimately show ?thesis using d recorded_entries(1) by blast
qed

lemma summary_lists_every_hook_witness:
  "\<exists>s. FormatSummary (recorded [''a!b'', ''c!d'', ''a!b'']) 90 = Some s"
  using summary_lists_every_hook [of "[''a!b'', ''c!d'', ''a!b'']" 90] by auto

end
