(* ===== verification/Windows_Arguments.thy ===== *)
theory Windows_Arguments
  imports Prelude
begin

section \<open>Quoting arguments for a Windows command line\<close>

text \<open>
  \<open>QuoteWindowsArgument\<close> and \<open>BuildWindowsCommandLine\<close> (\<open>src/apiscope/cli_options.cpp\<close>): the command
  line a target is started with. The specification is the rules by which the started program
  splits its command line, as Microsoft documents them: \<open>split_arguments\<close>.
\<close>

subsection \<open>The code\<close>

abbreviation backslash :: u16 where "backslash \<equiv> 0x5C"
abbreviation quote :: u16 where "quote \<equiv> 0x22"
abbreviation space :: u16 where "space \<equiv> 0x20"

fun quote_loop :: "wstring \<Rightarrow> nat \<Rightarrow> wstring \<Rightarrow> wstring" where
  "quote_loop [] backslashes quoted = quoted @ replicate (backslashes * 2) backslash @ [quote]"
| "quote_loop (c # cs) backslashes quoted =
     (if c = backslash then quote_loop cs (backslashes + 1) quoted
      else if c = quote then quote_loop cs 0 (quoted @ replicate (backslashes * 2 + 1) backslash @ [quote])
      else quote_loop cs 0 (quoted @ replicate backslashes backslash @ [c]))"

definition needs_quotes :: "wstring \<Rightarrow> bool" where
  "needs_quotes argument \<longleftrightarrow> argument = [] \<or> list_ex (\<lambda>c. c \<in> {0x20, 0x09, 0x0A, 0x0B, 0x22}) argument"

definition QuoteWindowsArgument :: "wstring \<Rightarrow> wstring" where
  "QuoteWindowsArgument argument =
     (if \<not> needs_quotes argument then argument else quote_loop argument 0 [quote])"

definition BuildWindowsCommandLine :: "wstring list \<Rightarrow> wstring" where
  "BuildWindowsCommandLine arguments =
     foldl (\<lambda>commandLine argument.
       (if commandLine \<noteq> [] then commandLine @ [space] else commandLine) @ QuoteWindowsArgument argument) [] arguments"

subsection \<open>The documented rules\<close>

text \<open>
  Arguments are separated by spaces and tabs outside double quotes. Backslashes are literal
  unless they precede a double quote: \<open>2n\<close> of them before a quote are \<open>n\<close> backslashes and the quote
  opens or closes a quoted part, \<open>2n + 1\<close> are \<open>n\<close> backslashes and a literal quote; two quotes
  inside a quoted part are one literal quote. \<open>inQuotes\<close> is the state, \<open>n\<close> the backslashes just
  read, \<open>cur\<close> the argument so far if one has begun.
\<close>

definition is_blank :: "u16 \<Rightarrow> bool" where
  "is_blank c \<longleftrightarrow> c = 0x20 \<or> c = 0x09"

definition so_far :: "wstring option \<Rightarrow> wstring" where
  "so_far cur = (case cur of None \<Rightarrow> [] | Some a \<Rightarrow> a)"

function split_args :: "bool \<Rightarrow> nat \<Rightarrow> wstring option \<Rightarrow> wstring \<Rightarrow> wstring list" where
  "split_args inQuotes n cur [] = (case cur of None \<Rightarrow> [] | Some a \<Rightarrow> [a @ replicate n backslash])"
| "split_args inQuotes n cur (c # cs) =
     (if c = backslash then split_args inQuotes (n + 1) (Some (so_far cur)) cs
      else if c = quote then
        (let a = so_far cur @ replicate (n div 2) backslash
         in if odd n then split_args inQuotes 0 (Some (a @ [quote])) cs
            else if inQuotes \<and> cs \<noteq> [] \<and> hd cs = quote then split_args inQuotes 0 (Some (a @ [quote])) (tl cs)
            else split_args (\<not> inQuotes) 0 (Some a) cs)
      else if is_blank c \<and> \<not> inQuotes then
        (case cur of None \<Rightarrow> split_args False 0 None cs
         | Some a \<Rightarrow> (a @ replicate n backslash) # split_args False 0 None cs)
      else split_args inQuotes 0 (Some (so_far cur @ replicate n backslash @ [c])) cs)"
  by pat_completeness auto
termination by (relation "measure (\<lambda>(_, _, _, cs). length cs)") auto

text \<open>
  The program name is read first, by its own rule: up to the next quote when it starts with one,
  else up to the first blank; backslashes are literal.
\<close>

definition split_command_line :: "wstring \<Rightarrow> wstring list" where
  "split_command_line line =
     (if line \<noteq> [] \<and> hd line = quote
      then (let name = takeWhile (\<lambda>c. c \<noteq> quote) (tl line)
            in name # split_args False 0 None (drop (length name + 2) line))
      else (let name = takeWhile (\<lambda>c. \<not> is_blank c) line
            in name # split_args False 0 None (drop (length name) line)))"

declare split_args.simps [simp del]

lemmas split_simps = split_args.simps is_blank_def so_far_def

subsection \<open>Reading a quoted argument back\<close>

lemma split_backslashes:
  "split_args q n (Some a) (replicate k backslash @ cs) = split_args q (n + k) (Some a) cs"
  by (induction k arbitrary: n) (simp_all add: split_simps)

text \<open>What the loop adds to the text before it.\<close>

fun quoted_rest :: "wstring \<Rightarrow> nat \<Rightarrow> wstring" where
  "quoted_rest [] n = replicate (n * 2) backslash @ [quote]"
| "quoted_rest (c # cs) n =
     (if c = backslash then quoted_rest cs (n + 1)
      else if c = quote then replicate (n * 2 + 1) backslash @ quote # quoted_rest cs 0
      else replicate n backslash @ c # quoted_rest cs 0)"

lemma quote_loop_eq: "quote_loop cs n p = p @ quoted_rest cs n"
  by (induction cs n p rule: quote_loop.induct) simp_all

lemma split_quoted:
  assumes "cs = [] \<or> hd cs \<noteq> quote"
  shows "split_args True 0 (Some a) (quoted_rest arg n @ cs) =
     split_args False 0 (Some (a @ replicate n backslash @ arg)) cs"
proof (induction arg n arbitrary: a rule: quoted_rest.induct)
  case (1 n)
  then show ?case using assms by (auto simp: split_backslashes split_simps)
next
  case (2 c cs' n)
  consider "c = backslash" | "c = quote" | "c \<noteq> backslash" "c \<noteq> quote" by blast
  then show ?case
  proof cases
    case 1
    then show ?thesis using 2(1) by (simp add: replicate_app_Cons_same)
  next
    case c: 2
    have "split_args True (n * 2 + 1) (Some a) (quote # quoted_rest cs' 0 @ cs) =
        split_args True 0 (Some (a @ replicate n backslash @ [quote])) (quoted_rest cs' 0 @ cs)"
      by (simp add: split_simps)
    moreover have "quoted_rest (c # cs') n @ cs = replicate (n * 2 + 1) backslash @ quote # quoted_rest cs' 0 @ cs"
      using c by simp
    ultimately show ?thesis using 2(2) c by (simp only: split_backslashes) simp
  next
    case c: 3
    have "split_args True n (Some a) (c # quoted_rest cs' 0 @ cs) =
        split_args True 0 (Some (a @ replicate n backslash @ [c])) (quoted_rest cs' 0 @ cs)"
      using c by (simp add: split_simps)
    then show ?thesis using 2(3) c by (simp add: split_backslashes)
  qed
qed

lemma split_plain:
  assumes "\<not> list_ex (\<lambda>c. c \<in> {0x20, 0x09, 0x0A, 0x0B, 0x22}) arg" "cs = [] \<or> is_blank (hd cs)"
    and "cur = None \<Longrightarrow> arg \<noteq> [] \<and> n = 0"
  shows "split_args False n cur (arg @ cs) = (so_far cur @ replicate n backslash @ arg) # split_args False 0 None cs"
  using assms(1,3)
proof (induction arg arbitrary: n cur)
  case Nil
  then obtain a where "cur = Some a" by auto
  with assms(2) show ?case by (cases cs) (auto simp: split_simps)
next
  case (Cons c arg)
  then have c: "c \<noteq> quote" "\<not> is_blank c" by (auto simp: is_blank_def)
  show ?case
  proof (cases "c = backslash")
    case True
    then have "split_args False n cur ((c # arg) @ cs) = split_args False (n + 1) (Some (so_far cur)) (arg @ cs)"
      by (simp add: split_args.simps)
    with Cons.IH [of "Some (so_far cur)" "n + 1"] Cons.prems True show ?thesis
      by (simp add: so_far_def replicate_app_Cons_same)
  next
    case False
    then have "split_args False n cur ((c # arg) @ cs) =
        split_args False 0 (Some (so_far cur @ replicate n backslash @ [c])) (arg @ cs)"
      using c by (simp add: split_args.simps)
    with Cons.IH [of "Some (so_far cur @ replicate n backslash @ [c])" 0] Cons.prems show ?thesis
      by (simp add: so_far_def)
  qed
qed

lemma split_quoted_argument:
  assumes "cs = [] \<or> is_blank (hd cs)"
  shows "split_args False 0 None (QuoteWindowsArgument arg @ cs) = arg # split_args False 0 None cs"
proof (cases "needs_quotes arg")
  case True
  have "split_args False 0 None (quote # quoted_rest arg 0 @ cs) = split_args True 0 (Some []) (quoted_rest arg 0 @ cs)"
    by (simp add: split_simps)
  also have "\<dots> = split_args False 0 (Some arg) cs"
    using split_quoted [of cs "[]" arg 0] assms by (auto simp: is_blank_def)
  also have "\<dots> = arg # split_args False 0 None cs"
    using split_plain [of "[]" cs "Some arg" 0] assms by (simp add: so_far_def)
  finally show ?thesis using True by (simp add: QuoteWindowsArgument_def quote_loop_eq)
next
  case False
  then show ?thesis
    using split_plain [of arg cs None 0] assms
    by (auto simp: QuoteWindowsArgument_def needs_quotes_def so_far_def)
qed

lemma Quote_not_Nil [simp]: "QuoteWindowsArgument arg \<noteq> []"
  by (auto simp: QuoteWindowsArgument_def quote_loop_eq needs_quotes_def)

definition joined :: "wstring list \<Rightarrow> wstring" where
  "joined args = concat (map (\<lambda>a. space # QuoteWindowsArgument a) args)"

lemma Build_eq: "BuildWindowsCommandLine (p # args) = QuoteWindowsArgument p @ joined args"
proof -
  have "foldl (\<lambda>commandLine argument.
       (if commandLine \<noteq> [] then commandLine @ [space] else commandLine) @ QuoteWindowsArgument argument) line args
     = line @ joined args" if "line \<noteq> []" for line
    using that by (induction args arbitrary: line) (simp_all add: joined_def)
  then show ?thesis by (simp add: BuildWindowsCommandLine_def)
qed

lemma joined_blank: "joined args = [] \<or> is_blank (hd (joined args))"
  by (cases args) (simp_all add: joined_def is_blank_def)

lemma split_joined: "split_args False 0 None (joined args) = args"
proof (induction args)
  case (Cons a args)
  have "split_args False 0 None (joined (a # args)) = split_args False 0 None (QuoteWindowsArgument a @ joined args)"
    by (simp add: joined_def split_simps)
  then show ?case using Cons by (simp add: split_quoted_argument [OF joined_blank])
qed (simp add: joined_def split_simps)

lemma quoted_rest_plain:
  "quote \<notin> set p \<Longrightarrow> p = [] \<and> n = 0 \<or> p \<noteq> [] \<and> last p \<noteq> backslash \<Longrightarrow> quoted_rest p n = replicate n backslash @ p @ [quote]"
proof (induction p n rule: quoted_rest.induct)
  case (2 c cs n)
  then show ?case by (cases "cs = []") (auto simp: replicate_app_Cons_same)
qed simp

subsection \<open>Properties\<close>

text \<open>C13: The target receives exactly the arguments it was given. A program whose name holds no
  quote and does not end in a backslash, started with the built command line, splits it by the
  documented rules into that name and those arguments, whatever characters the arguments
  hold: blanks, quotes, backslashes before quotes, or nothing at all.\<close>

theorem command_line_roundtrip:
  assumes "quote \<notin> set p" "p = [] \<or> last p \<noteq> backslash"
  shows "split_command_line (BuildWindowsCommandLine (p # args)) = p # args"
proof (cases "needs_quotes p")
  case True
  have name: "quoted_rest p 0 = p @ [quote]" using quoted_rest_plain [of p 0] assms by auto
  have "takeWhile (\<lambda>c. c \<noteq> quote) (p @ quote # joined args) = p"
    using assms(1) by (simp add: takeWhile_append)
  then show ?thesis using True
    by (simp add: Build_eq QuoteWindowsArgument_def quote_loop_eq name split_command_line_def Let_def split_joined)
next
  case False
  then have p: "p \<noteq> []" "hd p \<noteq> quote" "\<forall>c \<in> set p. \<not> is_blank c"
    by (auto simp: needs_quotes_def list_ex_iff is_blank_def)
  have "takeWhile (\<lambda>c. \<not> is_blank c) (p @ joined args) = p"
    using p(3) joined_blank [of args] by (cases "joined args") (auto simp: takeWhile_append)
  then show ?thesis using False p
    by (simp add: Build_eq QuoteWindowsArgument_def split_command_line_def Let_def split_joined)
qed

lemma command_line_roundtrip_witness:
  "split_command_line (BuildWindowsCommandLine [wide ''C:/a b/x.exe'', [0x68, space, quote, 0x69, quote], [], [0x61, backslash]]) =
     [wide ''C:/a b/x.exe'', [0x68, space, quote, 0x69, quote], [], [0x61, backslash]]"
  by (rule command_line_roundtrip) code_simp+

end
