(* ===== verification/Hook_Registry.thy ===== *)
theory Hook_Registry
  imports Prelude "HOL-Library.Monad_Syntax" "HOL-Library.List_Lexorder" "HOL-Library.Multiset"
begin

section \<open>The hook registry\<close>

text \<open>
  \<open>src/include/api_hook_descriptor.h\<close> and \<open>src/apiscope/hook_registry.cpp\<close>: the hooks a DLL offers
  are the descriptors it exports under names that start with \<open>ApiScopeHook_\<close>. The module is
  mapped at \<open>base\<close> of a memory; the header fields are at the offsets of the 64-bit PE format.
  \<open>LoadLibraryExW\<close> (a base or nothing) and \<open>GetProcAddress\<close> (an address, 0 for an unknown name)
  are parameters. Reading a C string that never ends has no value (\<open>None\<close>).
\<close>

definition API_HOOK_DESCRIPTOR_MAGIC :: u32 where
  "API_HOOK_DESCRIPTOR_MAGIC = 0x4B484150"

definition API_HOOK_DESCRIPTOR_VERSION :: u16 where
  "API_HOOK_DESCRIPTOR_VERSION = 1"

definition API_HOOK_MODULE_NAME_BYTES :: nat where
  "API_HOOK_MODULE_NAME_BYTES = 64"

definition API_HOOK_EXPORT_NAME_BYTES :: nat where
  "API_HOOK_EXPORT_NAME_BYTES = 128"

record ApiHookDescriptor =
  d_magic :: u32
  d_version :: u16
  d_size :: u16
  d_moduleName :: "byte list"
  d_exportName :: "byte list"
  d_handlerExport :: "byte list"
  d_trampolineExport :: "byte list"

definition SIZEOF_DESCRIPTOR :: nat where
  "SIZEOF_DESCRIPTOR = 8 + API_HOOK_MODULE_NAME_BYTES + 3 * API_HOOK_EXPORT_NAME_BYTES"

definition m_u16 :: "memory \<Rightarrow> addr \<Rightarrow> u16" where
  "m_u16 m a = of_le (mem_bytes m a 2)"

definition m_u32 :: "memory \<Rightarrow> addr \<Rightarrow> u32" where
  "m_u32 m a = of_le (mem_bytes m a 4)"

text \<open>The packed descriptor at an address.\<close>

definition read_descriptor :: "memory \<Rightarrow> addr \<Rightarrow> ApiHookDescriptor" where
  "read_descriptor m a = \<lparr>d_magic = m_u32 m a, d_version = m_u16 m (a + 4), d_size = m_u16 m (a + 6),
     d_moduleName = mem_bytes m (a + 8) API_HOOK_MODULE_NAME_BYTES,
     d_exportName = mem_bytes m (a + 72) API_HOOK_EXPORT_NAME_BYTES,
     d_handlerExport = mem_bytes m (a + 200) API_HOOK_EXPORT_NAME_BYTES,
     d_trampolineExport = mem_bytes m (a + 328) API_HOOK_EXPORT_NAME_BYTES\<rparr>"

record HookDefinition =
  moduleName :: string
  exportName :: string
  handlerExport :: string
  trampolineExport :: string
  canonicalName :: string

definition HasPrefix :: "string \<Rightarrow> string \<Rightarrow> bool" where
  "HasPrefix value prefix \<longleftrightarrow> length value \<ge> length prefix \<and> take (length prefix) value = prefix"

fun fixed_length_loop :: "byte list \<Rightarrow> nat" where
  "fixed_length_loop [] = 0"
| "fixed_length_loop (b # bs) = (if b \<noteq> 0 then Suc (fixed_length_loop bs) else 0)"

definition ReadFixedString :: "byte list \<Rightarrow> string option" where
  "ReadFixedString value =
     (let n = fixed_length_loop value
      in if n = 0 \<or> n = length value then None else Some (string_of (take n value)))"

definition lower_char :: "char \<Rightarrow> char" where
  "lower_char c = (if 65 \<le> (of_char c :: nat) \<and> (of_char c :: nat) \<le> 90 then char_of (of_char c + 32 :: nat) else c)"

definition is_separator :: "char \<Rightarrow> bool" where
  "is_separator c \<longleftrightarrow> c = CHR 0x5C \<or> c = CHR ''/''"

definition NormalizeModuleName :: "string \<Rightarrow> string" where
  "NormalizeModuleName name =
     map lower_char (rev (takeWhile (\<lambda>c. \<not> is_separator c) (rev name)))"

subsection \<open>Discovery\<close>

partial_function (option) read_cstr :: "memory \<Rightarrow> addr \<Rightarrow> string option" where
  "read_cstr m a = (if m a = 0 then Some [] else do { s \<leftarrow> read_cstr m (a + 1); Some (chr_of (m a) # s) })"

type_synonym get_proc_address = "string \<Rightarrow> addr"

definition descriptorPrefix :: string where
  "descriptorPrefix = ''ApiScopeHook_''"

text \<open>The checks on one descriptor, without the uniqueness of its name.\<close>

definition hook_of_descriptor :: "memory \<Rightarrow> get_proc_address \<Rightarrow> string \<Rightarrow> HookDefinition option" where
  "hook_of_descriptor m getProcAddress name =
     (if getProcAddress name = 0 then None else
      let d = read_descriptor m (getProcAddress name)
      in if d_magic d \<noteq> API_HOOK_DESCRIPTOR_MAGIC \<or> d_version d \<noteq> API_HOOK_DESCRIPTOR_VERSION \<or>
           unat (d_size d) \<noteq> SIZEOF_DESCRIPTOR then None
      else do {
        mn \<leftarrow> ReadFixedString (d_moduleName d);
        en \<leftarrow> ReadFixedString (d_exportName d);
        he \<leftarrow> ReadFixedString (d_handlerExport d);
        te \<leftarrow> ReadFixedString (d_trampolineExport d);
        let mn = NormalizeModuleName mn;
        Some \<lparr>moduleName = mn, exportName = en, handlerExport = he, trampolineExport = te,
          canonicalName = mn @ ''!'' @ en\<rparr>
      })"

text \<open>
  The loop over the export names: \<open>canonicalNames\<close> are the names inserted so far. An invalid,
  duplicate or incomplete descriptor clears the list and ends the loop.
\<close>

fun discover_loop :: "memory \<Rightarrow> get_proc_address \<Rightarrow> addr \<Rightarrow> addr \<Rightarrow> nat list \<Rightarrow> HookDefinition list \<Rightarrow>
    string set \<Rightarrow> HookDefinition list option" where
  "discover_loop m getProcAddress base nameAddresses [] hooks canonicalNames = Some hooks"
| "discover_loop m getProcAddress base nameAddresses (index # indices) hooks canonicalNames = do {
     name \<leftarrow> read_cstr m (base + ucast (m_u32 m (nameAddresses + 4 * of_nat index)));
     if \<not> HasPrefix name descriptorPrefix
     then discover_loop m getProcAddress base nameAddresses indices hooks canonicalNames
     else case hook_of_descriptor m getProcAddress name of
       None \<Rightarrow> Some []
     | Some hook \<Rightarrow>
         if canonicalName hook \<in> canonicalNames \<or> getProcAddress (handlerExport hook) = 0 \<or>
            getProcAddress (trampolineExport hook) = 0
         then Some []
         else discover_loop m getProcAddress base nameAddresses indices (hooks @ [hook])
           (insert (canonicalName hook) canonicalNames)
   }"

definition sort_hooks :: "HookDefinition list \<Rightarrow> HookDefinition list" where
  "sort_hooks hooks = sort_key canonicalName hooks"

definition DiscoverHooks :: "addr option \<Rightarrow> memory \<Rightarrow> get_proc_address \<Rightarrow> HookDefinition list option" where
  "DiscoverHooks module m getProcAddress =
     (case module of None \<Rightarrow> Some []
      | Some base \<Rightarrow>
         if m_u16 m base \<noteq> 0x5A4D then Some []
         else
          (let ntHeaders = base + scast (m_u32 m (base + 60));
               exportDirectory = m_u32 m (ntHeaders + 136)
           in if m_u32 m ntHeaders \<noteq> 0x4550 \<or> exportDirectory = 0 then Some []
              else
               (let exports = base + ucast exportDirectory;
                    nameAddresses = base + ucast (m_u32 m (exports + 32))
                in do {
                  hooks \<leftarrow> discover_loop m getProcAddress base nameAddresses
                    [0..<unat (m_u32 m (exports + 24))] [] {};
                  Some (sort_hooks hooks)
                })))"

fun FindSupportedHook :: "HookDefinition list \<Rightarrow> string \<Rightarrow> HookDefinition option" where
  "FindSupportedHook [] name = None"
| "FindSupportedHook (hook # hooks) name =
     (if canonicalName hook = name then Some hook else FindSupportedHook hooks name)"

definition PrintSupportedHooks :: "HookDefinition list \<Rightarrow> string" where
  "PrintSupportedHooks hooks = concat (map (\<lambda>hook. canonicalName hook @ [CHR 0x0A]) hooks)"

subsection \<open>Names\<close>

lemma lower_char_idem [simp]: "lower_char (lower_char c) = lower_char c"
  by (auto simp: lower_char_def)

lemma is_separator_code: "is_separator c \<longleftrightarrow> of_char c = (0x5C :: nat) \<or> of_char c = (47 :: nat)"
proof -
  have "c = d \<longleftrightarrow> of_char c = (of_char d :: nat)" for d by (simp add: of_char_eq_iff)
  from this [of "CHR 0x5C"] this [of "CHR ''/''"] show ?thesis by (simp add: is_separator_def)
qed

lemma lower_char_separator [simp]: "is_separator (lower_char c) \<longleftrightarrow> is_separator c"
  by (auto simp: lower_char_def is_separator_code)

lemma takeWhile_no_separator:
  "\<forall>c \<in> set f. \<not> is_separator c \<Longrightarrow> takeWhile (\<lambda>c. \<not> is_separator c) (rev f) = rev f"
  by (simp add: takeWhile_eq_all_conv)

lemma Normalize_base: "NormalizeModuleName (d @ s # f) = NormalizeModuleName f" if "is_separator s"
  using that by (simp add: NormalizeModuleName_def takeWhile_append takeWhile_no_separator)

lemma Normalize_plain: "\<forall>c \<in> set f. \<not> is_separator c \<Longrightarrow> NormalizeModuleName f = map lower_char f"
  by (simp add: NormalizeModuleName_def takeWhile_no_separator)

lemma Normalize_no_separator: "\<forall>c \<in> set (NormalizeModuleName n). \<not> is_separator c"
  by (auto simp: NormalizeModuleName_def dest: set_takeWhileD)

lemma Normalize_idem [simp]: "NormalizeModuleName (NormalizeModuleName n) = NormalizeModuleName n"
  by (subst Normalize_plain [OF Normalize_no_separator]) (simp add: NormalizeModuleName_def)

lemma ReadFixedString_iff:
  "ReadFixedString v = Some s \<longleftrightarrow> s \<noteq> [] \<and> CHR 0x00 \<notin> set s \<and> (\<exists>junk. v = bytes_of s @ 0 # junk)"
proof -
  have nul: "byte_of c = 0 \<longleftrightarrow> c = CHR 0x00" for c
    using byte_of_eq_iff [of c "CHR 0x00"] by (simp add: byte_of_def)
  have loop: "fixed_length_loop (bytes_of s @ 0 # junk) = length s" if "CHR 0x00 \<notin> set s" for s junk
    using that by (induction s) (auto simp: nul)
  have split: "fixed_length_loop v = length v \<or>
      (\<exists>s junk. v = bytes_of s @ 0 # junk \<and> CHR 0x00 \<notin> set s \<and> fixed_length_loop v = length s)"
  proof (induction v)
    case (Cons b v)
    show ?case
    proof (cases "b = 0")
      case True
      then show ?thesis by (intro disjI2 exI [of _ "[]"] exI [of _ v]) simp
    next
      case False
      then have "chr_of b \<noteq> CHR 0x00" by (metis byte_of_chr_of nul)
      from Cons.IH show ?thesis
      proof
        assume "\<exists>s junk. v = bytes_of s @ 0 # junk \<and> CHR 0x00 \<notin> set s \<and> fixed_length_loop v = length s"
        then obtain s junk where "v = bytes_of s @ 0 # junk" "CHR 0x00 \<notin> set s" "fixed_length_loop v = length s" by blast
        with False \<open>chr_of b \<noteq> CHR 0x00\<close> show ?thesis
          by (intro disjI2 exI [of _ "chr_of b # s"] exI [of _ junk]) auto
      qed (use False in simp)
    qed
  qed simp
  show ?thesis
  proof
    assume r: "ReadFixedString v = Some s"
    with split obtain t junk where "v = bytes_of t @ 0 # junk" "CHR 0x00 \<notin> set t" "fixed_length_loop v = length t"
      by (auto simp: ReadFixedString_def Let_def split: if_splits)
    with r show "s \<noteq> [] \<and> CHR 0x00 \<notin> set s \<and> (\<exists>junk. v = bytes_of s @ 0 # junk)"
      by (auto simp: ReadFixedString_def Let_def split: if_splits)
  next
    assume "s \<noteq> [] \<and> CHR 0x00 \<notin> set s \<and> (\<exists>junk. v = bytes_of s @ 0 # junk)"
    then show "ReadFixedString v = Some s" by (auto simp: ReadFixedString_def loop)
  qed
qed

lemma ReadFixedString_one:
  assumes "m a = byte_of c" "c \<noteq> CHR 0x00" "m (a + 1) = 0" "2 \<le> n"
  shows "ReadFixedString (mem_bytes m a n) = Some [c]"
proof -
  obtain k where "n = Suc (Suc k)" using assms(4) by (metis Suc_le_D numeral_2_eq_2 Suc_le_mono)
  then have "mem_bytes m a n = bytes_of [c] @ 0 # mem_bytes m (a + 1 + 1) k"
    using assms by (simp add: mem_bytes_Suc)
  then show ?thesis using assms(2) by (subst ReadFixedString_iff) auto
qed

lemma read_cstr_bytes:
  "mem_bytes m a (Suc (length s)) = bytes_of s @ [0] \<Longrightarrow> CHR 0x00 \<notin> set s \<Longrightarrow> read_cstr m a = Some s"
proof (induction s arbitrary: a)
  case Nil
  then show ?case by (subst read_cstr.simps) (simp add: mem_bytes_Suc)
next
  case (Cons c s)
  have "byte_of c \<noteq> 0" using Cons.prems(2) byte_of_eq_iff [of c "CHR 0x00"] by (auto simp: byte_of_def)
  moreover have "m a = byte_of c" "mem_bytes m (a + 1) (Suc (length s)) = bytes_of s @ [0]"
    using Cons.prems(1) by (simp_all add: mem_bytes_Suc [of m a])
  ultimately show ?case using Cons by (subst read_cstr.simps) simp
qed

subsection \<open>The loop\<close>

text \<open>The exported names the loop selects, and their hooks when every one is valid and new.\<close>

definition export_name :: "memory \<Rightarrow> addr \<Rightarrow> addr \<Rightarrow> nat \<Rightarrow> string option" where
  "export_name m base nameAddresses index = read_cstr m (base + ucast (m_u32 m (nameAddresses + 4 * of_nat index)))"

definition complete_hook :: "memory \<Rightarrow> get_proc_address \<Rightarrow> string \<Rightarrow> HookDefinition option" where
  "complete_hook m gpa name = (case hook_of_descriptor m gpa name of None \<Rightarrow> None
     | Some h \<Rightarrow> if gpa (handlerExport h) = 0 \<or> gpa (trampolineExport h) = 0 then None else Some h)"

definition hook_names :: "string list \<Rightarrow> string list" where
  "hook_names ns = filter (\<lambda>n. HasPrefix n descriptorPrefix) ns"

lemma discover_loop_eq:
  assumes "map (export_name m base na) idx = map Some ns"
  shows "discover_loop m gpa base na idx hooks seen = Some
    (let hs = map (complete_hook m gpa) (hook_names ns); cs = map (canonicalName \<circ> the) hs
     in if None \<notin> set hs \<and> distinct cs \<and> set cs \<inter> seen = {} then hooks @ map the hs else [])"
  using assms
proof (induction idx arbitrary: ns hooks seen)
  case Nil
  then show ?case by (simp add: hook_names_def)
next
  case (Cons i idx)
  then obtain n ns' where ns: "ns = n # ns'" "export_name m base na i = Some n"
    "map (export_name m base na) idx = map Some ns'" by (cases ns) auto
  note IH = Cons.IH [OF ns(3)]
  show ?case
  proof (cases "HasPrefix n descriptorPrefix")
    case False
    then show ?thesis using ns(2) IH by (simp add: ns(1) hook_names_def flip: export_name_def)
  next
    case True
    then have hn: "hook_names ns = n # hook_names ns'" by (simp add: ns(1) hook_names_def)
    show ?thesis
    proof (cases "complete_hook m gpa n")
      case None
      then show ?thesis using ns(2) True
        by (auto simp: hn complete_hook_def simp flip: export_name_def split: option.splits if_splits)
    next
      case (Some h)
      then have h: "hook_of_descriptor m gpa n = Some h" "gpa (handlerExport h) \<noteq> 0" "gpa (trampolineExport h) \<noteq> 0"
        by (auto simp: complete_hook_def split: option.splits if_splits)
      show ?thesis
        using ns(2) True h Some by (auto simp: IH hn Let_def simp flip: export_name_def)
    qed
  qed
qed

subsection \<open>Properties\<close>

text \<open>The export names of an image that passes the header checks.\<close>

definition image_exports :: "memory \<Rightarrow> addr \<Rightarrow> string list \<Rightarrow> bool" where
  "image_exports m base ns \<longleftrightarrow>
     (let nt = base + scast (m_u32 m (base + 60)); dir = m_u32 m (nt + 136); ex = base + ucast dir
      in m_u16 m base = 0x5A4D \<and> m_u32 m nt = 0x4550 \<and> dir \<noteq> 0 \<and>
         map (export_name m base (base + ucast (m_u32 m (ex + 32)))) [0..<unat (m_u32 m (ex + 24))] = map Some ns)"

lemma DiscoverHooks_eq:
  assumes "image_exports m base ns"
  shows "DiscoverHooks (Some base) m gpa = Some
    (let hs = map (complete_hook m gpa) (hook_names ns)
     in if None \<notin> set hs \<and> distinct (map (canonicalName \<circ> the) hs) then sort_hooks (map the hs) else [])"
  using assms by (simp add: image_exports_def Let_def DiscoverHooks_def discover_loop_eq sort_hooks_def)

lemma sort_hooks_facts: "mset (sort_hooks hs) = mset hs" "sorted (map canonicalName (sort_hooks hs))"
  by (simp_all add: sort_hooks_def)

text \<open>C28: Discovery is all or nothing. For an image with export names \<open>ns\<close> the result is
  defined; when every export whose name starts with the prefix is a complete valid descriptor
  and no two name the same hook, the result is exactly their hooks, each once, in strictly
  rising order of their names; otherwise it is empty.\<close>

theorem discover_all_or_nothing:
  assumes "image_exports m base ns"
  shows "\<exists>hooks. DiscoverHooks (Some base) m gpa = Some hooks \<and>
     sorted_wrt (<) (map canonicalName hooks) \<and>
     (if \<exists>n \<in> set (hook_names ns). complete_hook m gpa n = None then hooks = []
      else if \<not> distinct (map (\<lambda>n. canonicalName (the (complete_hook m gpa n))) (hook_names ns)) then hooks = []
      else mset hooks = mset (map (\<lambda>n. the (complete_hook m gpa n)) (hook_names ns)))"
proof -
  let ?hs = "map (\<lambda>n. the (complete_hook m gpa n)) (hook_names ns)"
  have strict: "sorted_wrt (<) (map canonicalName (sort_hooks ?hs))" if "distinct (map canonicalName ?hs)"
  proof -
    have "mset (map canonicalName (sort_hooks ?hs)) = mset (map canonicalName ?hs)"
      by (metis mset_map sort_hooks_facts(1))
    then have "distinct (map canonicalName (sort_hooks ?hs))" using that mset_eq_imp_distinct_iff by blast
    then show ?thesis by (simp add: strict_sorted_iff sort_hooks_facts(2))
  qed
  have none: "None \<in> set (map (complete_hook m gpa) (hook_names ns)) \<longleftrightarrow> (\<exists>n \<in> set (hook_names ns). complete_hook m gpa n = None)"
    by force
  show ?thesis
    using strict unfolding DiscoverHooks_eq [OF assms] Let_def none
    by (cases "\<exists>n \<in> set (hook_names ns). complete_hook m gpa n = None") (auto simp: comp_def sort_hooks_facts(1))
qed

text \<open>A module with the one export \<open>ApiScopeHook_A\<close>, its descriptor at 512.\<close>

definition tiny_image :: memory where
  "tiny_image a = (if a < 252 then
       (case map_of [(0, 0x4D), (1, 0x5A), (60, 64), (64, 0x50), (65, 0x45), (200, 208), (232, 1), (240, 252)] a of
          None \<Rightarrow> 0 | Some b \<Rightarrow> b)
     else if a < 512 then
       (case map_of (zip [252, 253] [0, 1] @ zip [256, 257, 258, 259, 260, 261, 262, 263, 264, 265, 266, 267, 268, 269]
          (bytes_of ''ApiScopeHook_A'')) a of None \<Rightarrow> 0 | Some b \<Rightarrow> b)
     else
       (case map_of [(512, 0x50), (513, 0x41), (514, 0x48), (515, 0x4B), (516, 1), (518, 0xC8), (519, 1),
          (520, 109), (584, 65), (712, 72), (840, 84)] a of None \<Rightarrow> 0 | Some b \<Rightarrow> b))"

definition tiny_proc :: get_proc_address where
  "tiny_proc name = (if name = ''ApiScopeHook_A'' then 512 else if name = ''H'' then 16 else if name = ''T'' then 24 else 0)"

lemma tiny_image_exports: "image_exports tiny_image 0 [''ApiScopeHook_A'']"
proof -
  have "mem_bytes tiny_image 256 (Suc (length ''ApiScopeHook_A'')) = bytes_of ''ApiScopeHook_A'' @ [0]"
    by code_simp
  then have name: "read_cstr tiny_image 256 = Some ''ApiScopeHook_A''" by (rule read_cstr_bytes) simp
  have "mem_bytes tiny_image 0 2 = [0x4D, 0x5A]" "mem_bytes tiny_image 60 4 = [64, 0, 0, 0]"
    "mem_bytes tiny_image 64 4 = [0x50, 0x45, 0, 0]" "mem_bytes tiny_image 200 4 = [208, 0, 0, 0]"
    "mem_bytes tiny_image 232 4 = [1, 0, 0, 0]" "mem_bytes tiny_image 240 4 = [252, 0, 0, 0]"
    "mem_bytes tiny_image 252 4 = [0, 1, 0, 0]"
    by code_simp+
  then have "m_u16 tiny_image 0 = 0x5A4D" "m_u32 tiny_image 60 = 64" "m_u32 tiny_image 64 = 0x4550"
    "m_u32 tiny_image 200 = 208" "m_u32 tiny_image 232 = 1" "m_u32 tiny_image 240 = 252"
    "m_u32 tiny_image 252 = 256"
    by (simp_all add: m_u32_def m_u16_def of_le_def)
  then show ?thesis by (simp add: image_exports_def export_name_def name)
qed

lemma tiny_hook: "complete_hook tiny_image tiny_proc ''ApiScopeHook_A'' = Some
    \<lparr>moduleName = ''m'', exportName = ''A'', handlerExport = ''H'', trampolineExport = ''T'', canonicalName = ''m!A''\<rparr>"
proof -
  have "mem_bytes tiny_image 512 4 = [0x50, 0x41, 0x48, 0x4B]" "mem_bytes tiny_image 516 2 = [1, 0]"
    "mem_bytes tiny_image 518 2 = [0xC8, 1]"
    by code_simp+
  then have "m_u32 tiny_image 512 = API_HOOK_DESCRIPTOR_MAGIC" "m_u16 tiny_image 516 = API_HOOK_DESCRIPTOR_VERSION"
    "m_u16 tiny_image 518 = 456"
    by (simp_all add: m_u32_def m_u16_def of_le_def API_HOOK_DESCRIPTOR_MAGIC_def API_HOOK_DESCRIPTOR_VERSION_def)
  moreover have "ReadFixedString (mem_bytes tiny_image 520 64) = Some ''m''"
    by (rule ReadFixedString_one [where c = "CHR ''m''"]) (code_simp, simp, code_simp, simp)
  moreover have "ReadFixedString (mem_bytes tiny_image 584 128) = Some ''A''"
    by (rule ReadFixedString_one [where c = "CHR ''A''"]) (code_simp, simp, code_simp, simp)
  moreover have "ReadFixedString (mem_bytes tiny_image 712 128) = Some ''H''"
    by (rule ReadFixedString_one [where c = "CHR ''H''"]) (code_simp, simp, code_simp, simp)
  moreover have "ReadFixedString (mem_bytes tiny_image 840 128) = Some ''T''"
    by (rule ReadFixedString_one [where c = "CHR ''T''"]) (code_simp, simp, code_simp, simp)
  moreover have "NormalizeModuleName ''m'' = ''m''" by code_simp
  ultimately show ?thesis
    by (simp add: complete_hook_def hook_of_descriptor_def tiny_proc_def read_descriptor_def
      API_HOOK_MODULE_NAME_BYTES_def API_HOOK_EXPORT_NAME_BYTES_def SIZEOF_DESCRIPTOR_def)
qed

lemma discover_all_or_nothing_witness:
  "\<exists>hooks. DiscoverHooks (Some 0) tiny_image tiny_proc = Some hooks \<and> map canonicalName hooks = [''m!A'']"
proof -
  have "hook_names [''ApiScopeHook_A''] = [''ApiScopeHook_A'']" by code_simp
  with discover_all_or_nothing [OF tiny_image_exports, of tiny_proc] show ?thesis by (auto simp: tiny_hook)
qed

text \<open>Module names have one normal form. Normalization drops the directory and lowers the case,
  the result holds no separator and no capital, and normalizing again changes nothing.\<close>

theorem NormalizeModuleName_normal:
  "\<exists>f. (name = f \<or> (\<exists>d s. name = d @ s # f \<and> is_separator s)) \<and> list_all (\<lambda>c. \<not> is_separator c) f \<and>
     NormalizeModuleName name = map lower_char f \<and>
     list_all (\<lambda>c. \<not> is_separator c \<and> \<not> (CHR ''A'' \<le> c \<and> c \<le> CHR ''Z'')) (NormalizeModuleName name) \<and>
     NormalizeModuleName (NormalizeModuleName name) = NormalizeModuleName name"
proof -
  let ?r = "takeWhile (\<lambda>c. \<not> is_separator c) (rev name)"
  have all: "list_all (\<lambda>c. \<not> is_separator c) (rev ?r)" by (auto simp: list_all_iff dest: set_takeWhileD)
  have "name = rev ?r \<or> (\<exists>d s. name = d @ s # rev ?r \<and> is_separator s)"
  proof (cases "dropWhile (\<lambda>c. \<not> is_separator c) (rev name)")
    case Nil
    then show ?thesis by (metis append_Nil2 rev_rev_ident takeWhile_dropWhile_id)
  next
    case (Cons s d)
    then have "rev name = ?r @ s # d" by (metis takeWhile_dropWhile_id)
    then have "name = rev d @ s # rev ?r" by (metis append.assoc append_Cons append_Nil rev.simps(2) rev_append rev_rev_ident)
    moreover have "is_separator s" using Cons by (metis hd_dropWhile list.distinct(1) list.sel(1))
    ultimately show ?thesis by blast
  qed
  moreover have "\<not> (CHR ''A'' \<le> lower_char c \<and> lower_char c \<le> CHR ''Z'')" for c
    by (auto simp: lower_char_def less_eq_char_def)
  then have "list_all (\<lambda>c. \<not> is_separator c \<and> \<not> (CHR ''A'' \<le> c \<and> c \<le> CHR ''Z'')) (NormalizeModuleName name)"
    using Normalize_no_separator [of name] by (auto simp: list_all_iff NormalizeModuleName_def)
  ultimately show ?thesis
    using all Normalize_idem [of name] by (intro exI [of _ "rev ?r"]) (simp add: NormalizeModuleName_def [of name])
qed

end
