(* ===== verification/Cli_Options.thy ===== *)
theory Cli_Options
  imports Hook_Registry Trace_Format
begin

section \<open>The command line\<close>

text \<open>
  \<open>src/apiscope/cli_options.cpp\<close> and the dispatch of \<open>src/apiscope/main.cpp\<close>. Arguments are lists of
  16-bit characters, \<open>argv\<close> is the list of them, and \<open>error\<close> holds the message of a refused
  command line. A return from inside the option loop is the left of a sum.
\<close>

datatype TraceOutputFormat = Text | Jsonl

datatype TraceColorMode = Auto | Always | Never

record TraceOutputOptions =
  output_format :: TraceOutputFormat
  outputPath :: wstring
  quiet :: bool
  color_mode :: TraceColorMode
  status_mode :: TraceColorMode

datatype CommandMode = Run | Attach | ListHooks | Help | Version | Error

record CommandLineOptions =
  mode :: CommandMode
  hooks :: "HookDefinition list"
  targetArguments :: "wstring list"
  targetProcessId :: u32
  output_options :: TraceOutputOptions
  error :: string

definition initial_options :: CommandLineOptions where
  "initial_options = \<lparr>mode = Error, hooks = [], targetArguments = [], targetProcessId = 0,
     output_options = \<lparr>output_format = Text, outputPath = [], quiet = False, color_mode = Auto, status_mode = Auto\<rparr>,
     error = []\<rparr>"

subsection \<open>Hook names\<close>

definition NarrowHookName :: "wstring \<Rightarrow> string" where
  "NarrowHookName value = (if \<exists>c \<in> set value. c > 0x7F then [] else map (\<lambda>c. char_of (unat c)) value)"

definition AddHook :: "HookDefinition list \<Rightarrow> HookDefinition \<Rightarrow> HookDefinition list" where
  "AddHook hs hook = (if list_ex (\<lambda>candidate. canonicalName candidate = canonicalName hook) hs then hs else hs @ [hook])"

definition find_bang :: "string \<Rightarrow> nat option" where
  "find_bang s = (let n = length (takeWhile (\<lambda>c. c \<noteq> CHR ''!'') s) in if n = length s then None else Some n)"

text \<open>The hooks a request adds, or its error: every hook, or the one of a well-formed name.\<close>

definition requested :: "HookDefinition list \<Rightarrow> string \<Rightarrow> string + HookDefinition list" where
  "requested availableHooks requestedHook =
     (if requestedHook = ''all'' then Inr availableHooks
      else case find_bang requestedHook of
        None \<Rightarrow> Inl ''Hook names must use module.dll!Export''
      | Some separator \<Rightarrow>
          if separator = 0 \<or> separator + 1 = length requestedHook \<or>
             find_bang (drop (separator + 1) requestedHook) \<noteq> None
          then Inl ''Hook names must use module.dll!Export''
          else case FindSupportedHook availableHooks
                 (NormalizeModuleName (take separator requestedHook) @ drop separator requestedHook) of
            None \<Rightarrow> Inl (''Unsupported hook: '' @ requestedHook)
          | Some definition \<Rightarrow> Inr [definition])"

fun expand_loop :: "HookDefinition list \<Rightarrow> string list \<Rightarrow> CommandLineOptions \<Rightarrow> bool \<times> CommandLineOptions" where
  "expand_loop availableHooks [] options = (True, options)"
| "expand_loop availableHooks (requestedHook # requestedHooks) options =
     (case requested availableHooks requestedHook of
        Inl message \<Rightarrow> (False, options\<lparr>error := message\<rparr>)
      | Inr new \<Rightarrow> expand_loop availableHooks requestedHooks (options\<lparr>hooks := foldl AddHook (hooks options) new\<rparr>))"

definition ExpandAndValidateHooks :: "CommandLineOptions \<Rightarrow> HookDefinition list \<Rightarrow> string list \<Rightarrow> bool \<times> CommandLineOptions" where
  "ExpandAndValidateHooks options availableHooks requestedHooks =
     (let (ok, options) = expand_loop availableHooks requestedHooks options
      in if \<not> ok then (False, options)
         else if hooks options = [] then (False, options\<lparr>error := ''At least one --hook is required''\<rparr>)
         else (True, options))"

subsection \<open>Process identifiers\<close>

fun pid_loop :: "wstring \<Rightarrow> u64 \<Rightarrow> u64 option" where
  "pid_loop [] parsed = Some parsed"
| "pid_loop (c # cs) parsed =
     (if c < 48 \<or> c > 57 then None
      else let parsed = parsed * 10 + ucast (c - 48)
           in if parsed > 0xFFFFFFFF then None else pid_loop cs parsed)"

definition ParseProcessId :: "wstring \<Rightarrow> u32 option" where
  "ParseProcessId value =
     (if value = [] then None
      else case pid_loop value 0 of None \<Rightarrow> None
        | Some parsed \<Rightarrow> if parsed = 0 then None else Some (ucast parsed))"

subsection \<open>The option loop\<close>

type_synonym parse_state = "CommandLineOptions \<times> string list \<times> bool"

text \<open>
  The state is the options, the requested hooks and \<open>formatSpecified\<close>. A turn of the loop
  returns, breaks (leaving the arguments from the final index on) or continues.
\<close>

datatype turn = Return CommandLineOptions | Break parse_state "wstring list" | Continue parse_state "wstring list"

definition fail :: "CommandLineOptions \<Rightarrow> string \<Rightarrow> CommandLineOptions" where
  "fail options message = options\<lparr>error := message\<rparr>"

definition set_output :: "(TraceOutputOptions \<Rightarrow> TraceOutputOptions) \<Rightarrow> CommandLineOptions \<Rightarrow> CommandLineOptions" where
  "set_output f options = options\<lparr>output_options := f (output_options options)\<rparr>"

definition color_value :: "wstring \<Rightarrow> TraceColorMode option" where
  "color_value value =
     (if value = wide ''auto'' then Some Auto else if value = wide ''always'' then Some Always
      else if value = wide ''never'' then Some Never else None)"

definition format_value :: "wstring \<Rightarrow> TraceOutputFormat option" where
  "format_value value = (if value = wide ''text'' then Some Text else if value = wide ''jsonl'' then Some Jsonl else None)"

text \<open>An option with a value: \<open>++index\<close>, the check that there is one, and the check of its text.\<close>

definition with_value :: "CommandLineOptions \<Rightarrow> wstring list \<Rightarrow> string \<Rightarrow> string \<Rightarrow> (wstring \<Rightarrow> 'a option) \<Rightarrow>
    ('a \<Rightarrow> parse_state) \<Rightarrow> turn" where
  "with_value options args missing invalid read update =
     (case args of [] \<Rightarrow> Return (fail options missing)
      | v # args' \<Rightarrow> (case read v of None \<Rightarrow> Return (fail options invalid) | Some x \<Rightarrow> Continue (update x) args'))"

definition option_turn :: "bool \<Rightarrow> wstring \<Rightarrow> wstring list \<Rightarrow> parse_state \<Rightarrow> turn" where
  "option_turn attach argument args st =
     (case st of (options, requestedHooks, formatSpecified) \<Rightarrow>
      if argument = wide ''--'' then
        (if attach then Return (fail options ''attach does not accept a target command'') else Break st args)
      else if argument \<in> {wide ''--pid'', wide ''-p''} then
        (if \<not> attach then Return (fail options ''--pid is only valid with attach'')
         else with_value options args ''--pid requires a positive process ID'' ''--pid requires a positive process ID''
           ParseProcessId (\<lambda>pid. (options\<lparr>targetProcessId := pid\<rparr>, requestedHooks, formatSpecified)))
      else if argument \<in> {wide ''--hook'', wide ''-k''} then
        with_value options args ''--hook requires a value'' ''Hook names must be ASCII''
          (\<lambda>v. if NarrowHookName v = [] then None else Some (NarrowHookName v))
          (\<lambda>hook. (options, requestedHooks @ [hook], formatSpecified))
      else if argument \<in> {wide ''--format'', wide ''-f''} then
        with_value options args ''--format requires text or jsonl'' ''--format requires text or jsonl'' format_value
          (\<lambda>format. (set_output (\<lambda>out. out\<lparr>output_format := format\<rparr>) options, requestedHooks, True))
      else if argument \<in> {wide ''--output'', wide ''-o''} then
        with_value options args ''--output requires a path'' [] Some
          (\<lambda>path. (set_output (\<lambda>out. out\<lparr>outputPath := path\<rparr>) options, requestedHooks, formatSpecified))
      else if argument \<in> {wide ''--quiet'', wide ''-q''} then
        Continue (set_output (\<lambda>out. out\<lparr>quiet := True\<rparr>) options, requestedHooks, formatSpecified) args
      else if argument = wide ''--color'' then
        with_value options args ''--color requires auto, always, or never'' ''--color requires auto, always, or never''
          color_value (\<lambda>value. (set_output (\<lambda>out. out\<lparr>color_mode := value\<rparr>) options, requestedHooks, formatSpecified))
      else if argument = wide ''--status'' then
        with_value options args ''--status requires auto, always, or never'' ''--status requires auto, always, or never''
          color_value (\<lambda>value. (set_output (\<lambda>out. out\<lparr>status_mode := value\<rparr>) options, requestedHooks, formatSpecified))
      else Return (fail options ''Unknown command option''))"

lemma with_value_shorter:
  "with_value options args missing invalid read update = Continue st' rest \<Longrightarrow> length rest < length args"
  by (auto simp: with_value_def split: list.splits option.splits)

lemma option_turn_shorter: "option_turn attach argument args st = Continue st' rest \<Longrightarrow> length rest \<le> length args"
  by (auto simp: option_turn_def split: prod.splits if_splits dest!: with_value_shorter)

function option_loop :: "bool \<Rightarrow> wstring list \<Rightarrow> parse_state \<Rightarrow> CommandLineOptions + (parse_state \<times> wstring list)" where
  "option_loop attach [] st = Inr (st, [])"
| "option_loop attach (argument # args) st =
     (case option_turn attach argument args st of
        Return options \<Rightarrow> Inl options
      | Break st rest \<Rightarrow> Inr (st, rest)
      | Continue st rest \<Rightarrow> option_loop attach rest st)"
  by pat_completeness auto
termination
  by (relation "measure (\<lambda>(_, args, _). length args)") (auto dest: option_turn_shorter)

text \<open>What follows the loop: the checks that span options, and the hooks.\<close>

definition finish_command :: "bool \<Rightarrow> parse_state \<Rightarrow> wstring list \<Rightarrow> HookDefinition list \<Rightarrow>
    CommandLineOptions + CommandLineOptions" where
  "finish_command attach st rest availableHooks =
     (case st of (options, requestedHooks, formatSpecified) \<Rightarrow>
        if attach \<and> rest \<noteq> [] then Inl (fail options ''attach accepts options only'')
        else if attach \<and> targetProcessId options = 0 then Inl (fail options ''attach requires --pid <pid>'')
        else if \<not> attach \<and> rest = [] then Inl (fail options ''run requires -- followed by a target program'')
        else
         (let options = (if attach then options else options\<lparr>targetArguments := targetArguments options @ rest\<rparr>)
          in if formatSpecified \<and> outputPath (output_options options) = []
             then Inl (fail options ''--format requires --output <path>'')
             else if quiet (output_options options) \<and> outputPath (output_options options) = []
             then Inl (fail options ''--quiet requires --output <path>'')
             else
              (let (ok, options) = ExpandAndValidateHooks options availableHooks requestedHooks
               in if \<not> ok then Inl options
                  else Inr (options\<lparr>mode := (if attach then Attach else Run)\<rparr>))))"

text \<open>The \<open>run\<close> and \<open>attach\<close> commands from their third argument on.\<close>

definition parse_command :: "bool \<Rightarrow> wstring list \<Rightarrow> HookDefinition list \<Rightarrow> CommandLineOptions" where
  "parse_command attach args availableHooks =
     (case option_loop attach args (initial_options, [], False) of
        Inl options \<Rightarrow> options
      | Inr (st, rest) \<Rightarrow>
          (case finish_command attach st rest availableHooks of Inl options \<Rightarrow> options | Inr options \<Rightarrow> options))"

definition ParseCommandLine :: "wstring list \<Rightarrow> HookDefinition list \<Rightarrow> CommandLineOptions" where
  "ParseCommandLine argv availableHooks =
     (let argc = length argv; options = initial_options
      in if argc = 2 \<and> (argv ! 1 = wide ''--list-hooks'' \<or> argv ! 1 = wide ''-l'')
         then options\<lparr>mode := ListHooks\<rparr>
         else if argc = 1 \<or> argc = 2 \<and> (argv ! 1 = wide ''--help'' \<or> argv ! 1 = wide ''-h'')
         then options\<lparr>mode := Help\<rparr>
         else if argc = 2 \<and> (argv ! 1 = wide ''--version'' \<or> argv ! 1 = wide ''-V'')
         then options\<lparr>mode := Version\<rparr>
         else if argc \<ge> 2 \<and> (argv ! 1 = wide ''run'' \<or> argv ! 1 = wide ''attach'')
         then parse_command (argv ! 1 = wide ''attach'') (drop 2 argv) availableHooks
         else options\<lparr>error := ''Expected 'run', 'attach', --list-hooks, --help, or --version''\<rparr>)"

subsection \<open>What the loop keeps\<close>

declare option_loop.simps [simp del] expand_loop.simps [simp del]

text \<open>The loop only sets the process identifier (under attach) and the output options, and every
  early return has a message.\<close>

definition loop_state :: "bool \<Rightarrow> CommandLineOptions \<Rightarrow> bool" where
  "loop_state attach options \<longleftrightarrow> mode options = Error \<and> hooks options = [] \<and> targetArguments options = [] \<and>
     (\<not> attach \<longrightarrow> targetProcessId options = 0)"

definition refused :: "CommandLineOptions \<Rightarrow> bool" where
  "refused options \<longleftrightarrow> mode options = Error \<and> error options \<noteq> []"

lemma loop_state_simps [simp]:
  "loop_state attach (set_output f options) = loop_state attach options"
  "loop_state True (options\<lparr>targetProcessId := pid\<rparr>) = loop_state True options"
  by (simp_all add: loop_state_def set_output_def)

lemma error_set_output [simp]: "error (set_output f options) = error options"
  by (simp add: set_output_def)

lemma with_value_cases:
  assumes "with_value options args missing invalid read update = t"
  obtains "missing = [] \<or> args \<noteq> []" "t = Return (fail options invalid)" "\<exists>v args'. args = v # args' \<and> read v = None"
    | "t = Return (fail options missing)" "args = []"
    | v x args' where "t = Continue (update x) args'" "args = v # args'" "read v = Some x"
  using assms by (auto simp: with_value_def split: list.splits option.splits)

definition turn_ok :: "bool \<Rightarrow> turn \<Rightarrow> bool" where
  "turn_ok attach t = (case t of Return options \<Rightarrow> refused options
     | Break st rest \<Rightarrow> loop_state attach (fst st) \<and> error (fst st) = []
     | Continue st rest \<Rightarrow> loop_state attach (fst st) \<and> error (fst st) = [])"

lemma with_value_ok:
  assumes "loop_state attach options" "missing \<noteq> []" "invalid \<noteq> [] \<or> (\<forall>v. read v \<noteq> None)"
    "\<And>x. loop_state attach (fst (update x)) \<and> error (fst (update x)) = []"
  shows "turn_ok attach (with_value options args missing invalid read update)"
proof (cases args)
  case (Cons v args')
  have "read v = None \<Longrightarrow> invalid \<noteq> []" using assms(3) by metis
  then show ?thesis
    using assms(1,2,4) Cons by (cases "read v") (auto simp: with_value_def turn_ok_def refused_def fail_def loop_state_def)
qed (use assms in \<open>simp add: with_value_def turn_ok_def refused_def fail_def loop_state_def\<close>)

lemma if_ok: "(P \<Longrightarrow> turn_ok attach t) \<Longrightarrow> (\<not> P \<Longrightarrow> turn_ok attach u) \<Longrightarrow> turn_ok attach (if P then t else u)"
  by simp

lemma option_turn_ok:
  assumes "loop_state attach (fst st)" "error (fst st) = []"
  shows "turn_ok attach (option_turn attach argument args st)"
proof -
  obtain options requestedHooks formatSpecified where st: "st = (options, requestedHooks, formatSpecified)" by (cases st)
  have r: "turn_ok attach (Return (fail options m))" if "m \<noteq> []" for m
    using assms that by (simp add: st turn_ok_def refused_def fail_def loop_state_def)
  have c: "turn_ok attach (Break st args)" "turn_ok attach (Continue (set_output f options, x, y) args)" for f x y
    using assms by (simp_all add: st turn_ok_def)
  show ?thesis
    using assms unfolding option_turn_def st prod.case
    by (intro if_ok r c [unfolded st] with_value_ok) (simp_all add: loop_state_def set_output_def)
qed

lemma option_loop_sound:
  assumes "loop_state attach (fst st)" "error (fst st) = []"
  shows "case option_loop attach args st of Inl options \<Rightarrow> refused options
    | Inr (st', rest) \<Rightarrow> loop_state attach (fst st') \<and> error (fst st') = []"
  using assms
proof (induction attach args st rule: option_loop.induct)
  case (2 attach argument args st)
  from option_turn_ok [OF "2.prems", of argument args] "2.IH" show ?case
    by (auto simp: option_loop.simps turn_ok_def split: turn.splits)
qed (simp add: option_loop.simps)

subsection \<open>What the hooks become\<close>

text \<open>\<open>AddHook\<close> keeps the names distinct and the hooks among the available ones.\<close>

definition hooks_ok :: "HookDefinition list \<Rightarrow> HookDefinition list \<Rightarrow> bool" where
  "hooks_ok availableHooks hs \<longleftrightarrow> distinct (map canonicalName hs) \<and> set hs \<subseteq> set availableHooks"

lemma AddHook_ok: "hooks_ok availableHooks hs \<Longrightarrow> hook \<in> set availableHooks \<Longrightarrow> hooks_ok availableHooks (AddHook hs hook)"
  by (auto simp: hooks_ok_def AddHook_def list_ex_iff)

lemma AddHooks_ok:
  "hooks_ok availableHooks hs \<Longrightarrow> set new \<subseteq> set availableHooks \<Longrightarrow> hooks_ok availableHooks (foldl AddHook hs new)"
  by (induction new arbitrary: hs) (simp_all add: AddHook_ok)

lemma FindSupportedHook_Some: "FindSupportedHook hs name = Some h \<Longrightarrow> h \<in> set hs \<and> canonicalName h = name"
  by (induction hs) (auto split: if_splits)

definition only_hooks :: "CommandLineOptions \<Rightarrow> CommandLineOptions \<Rightarrow> bool" where
  "only_hooks o1 o2 \<longleftrightarrow> (\<exists>hs. o2 = o1\<lparr>hooks := hs\<rparr>)"

lemma only_hooks_refl: "only_hooks o1 o1"
  unfolding only_hooks_def by (rule exI [of _ "hooks o1"]) simp

lemma only_hooks_update: "only_hooks (o1\<lparr>hooks := hs\<rparr>) o2 \<Longrightarrow> only_hooks o1 o2"
  by (auto simp: only_hooks_def)

lemma requested_available: "requested availableHooks r = Inr new \<Longrightarrow> set new \<subseteq> set availableHooks"
  by (auto simp: requested_def dest: FindSupportedHook_Some split: if_splits option.splits)

lemma requested_error: "requested availableHooks r = Inl message \<Longrightarrow> message \<noteq> []"
  by (auto simp: requested_def split: if_splits option.splits)

lemma expand_loop_sound:
  assumes "hooks_ok availableHooks (hooks options)" "mode options = Error"
  shows "case expand_loop availableHooks rs options of (ok, options') \<Rightarrow>
     (ok \<longrightarrow> hooks_ok availableHooks (hooks options') \<and> only_hooks options options') \<and> (\<not> ok \<longrightarrow> refused options')"
  using assms
proof (induction availableHooks rs options rule: expand_loop.induct)
  case (2 availableHooks r rs options)
  show ?case
  proof (cases "requested availableHooks r")
    case (Inl message)
    then show ?thesis using 2(3) requested_error by (auto simp: expand_loop.simps refused_def)
  next
    case (Inr new)
    with 2 AddHooks_ok requested_available show ?thesis
      by (auto simp: expand_loop.simps dest: only_hooks_update split: prod.splits)
  qed
qed (simp add: expand_loop.simps only_hooks_refl)

definition accepted :: "bool \<Rightarrow> HookDefinition list \<Rightarrow> CommandLineOptions \<Rightarrow> bool" where
  "accepted attach availableHooks options \<longleftrightarrow> mode options = (if attach then Attach else Run) \<and>
     error options = [] \<and> hooks options \<noteq> [] \<and> hooks_ok availableHooks (hooks options) \<and>
     (quiet (output_options options) \<longrightarrow> outputPath (output_options options) \<noteq> []) \<and>
     (if attach then targetArguments options = [] \<and> targetProcessId options \<noteq> 0
      else targetArguments options \<noteq> [] \<and> targetProcessId options = 0)"

lemma Expand_sound:
  assumes "loop_state attach options \<or> mode options = Error \<and> hooks options = []"
  shows "case ExpandAndValidateHooks options availableHooks rs of (ok, options') \<Rightarrow>
     (ok \<longrightarrow> hooks options' \<noteq> [] \<and> hooks_ok availableHooks (hooks options') \<and> only_hooks options options') \<and>
     (\<not> ok \<longrightarrow> refused options')"
proof -
  have "hooks_ok availableHooks (hooks options)" "mode options = Error"
    using assms by (auto simp: hooks_ok_def loop_state_def)
  from expand_loop_sound [OF this, of rs] this(2) show ?thesis
    by (auto simp: ExpandAndValidateHooks_def refused_def only_hooks_def split: prod.splits)
qed

lemma finish_command_sound:
  assumes "loop_state attach options" "error options = []"
  shows "case finish_command attach (options, rs, formatSpecified) rest availableHooks of
     Inl options' \<Rightarrow> refused options' | Inr options' \<Rightarrow> accepted attach availableHooks options'"
proof -
  let ?o = "if attach then options else options\<lparr>targetArguments := targetArguments options @ rest\<rparr>"
  obtain ok o2 where e: "ExpandAndValidateHooks ?o availableHooks rs = (ok, o2)" by fastforce
  with Expand_sound [of attach ?o availableHooks rs] assms(1) have
    "ok \<Longrightarrow> hooks o2 \<noteq> [] \<and> hooks_ok availableHooks (hooks o2) \<and> only_hooks ?o o2" "\<not> ok \<Longrightarrow> refused o2"
    by (simp_all add: loop_state_def split: if_splits)
  with assms e show ?thesis
    by (auto simp: finish_command_def Let_def loop_state_def accepted_def only_hooks_def refused_def fail_def)
qed

definition parsed_ok :: "HookDefinition list \<Rightarrow> CommandLineOptions \<Rightarrow> bool" where
  "parsed_ok availableHooks options \<longleftrightarrow> refused options \<or> accepted True availableHooks options \<or>
     accepted False availableHooks options \<or> mode options \<in> {ListHooks, Help, Version} \<and> error options = []"

lemma if_parsed_ok:
  "parsed_ok av x \<Longrightarrow> parsed_ok av y \<Longrightarrow> parsed_ok av (if P then x else y)"
  by simp

lemma initial_loop_state: "loop_state attach initial_options" "error initial_options = []"
  by (simp_all add: loop_state_def initial_options_def)

lemma parse_command_cases:
  "refused (parse_command attach args availableHooks) \<or> accepted attach availableHooks (parse_command attach args availableHooks)"
proof (cases "option_loop attach args (initial_options, [], False)")
  case (Inl o1)
  then show ?thesis
    using option_loop_sound [of attach "(initial_options, [], False)" args] initial_loop_state
    by (simp add: parse_command_def)
next
  case (Inr r)
  obtain o1 rs f rest where r: "r = ((o1, rs, f), rest)" by (metis prod_cases4 surj_pair)
  have "loop_state attach o1" "error o1 = []"
    using option_loop_sound [of attach "(initial_options, [], False)" args] initial_loop_state Inr r by simp_all
  from finish_command_sound [OF this, where rs = rs and formatSpecified = f and rest = rest and availableHooks = availableHooks]
  moreover have "parse_command attach args availableHooks =
      (case finish_command attach (o1, rs, f) rest availableHooks of Inl options \<Rightarrow> options | Inr options \<Rightarrow> options)"
    by (simp add: parse_command_def Inr r)
  ultimately show ?thesis
    by (cases "finish_command attach (o1, rs, f) rest availableHooks") simp_all
qed

lemma parse_command_sound: "parsed_ok availableHooks (parse_command attach args availableHooks)"
  using parse_command_cases [of attach args availableHooks] by (cases attach) (auto simp: parsed_ok_def)

lemma parse_command_mode: "mode (parse_command attach args availableHooks) \<in> {Run, Attach, Error}"
  using parse_command_cases [of attach args availableHooks]
  by (cases attach) (auto simp: refused_def accepted_def)

text \<open>Whether a command line asks for help, the version or the list does not depend on the hooks.\<close>

definition steady :: "(HookDefinition list \<Rightarrow> CommandLineOptions) \<Rightarrow> HookDefinition list \<Rightarrow> bool" where
  "steady parse hs \<longleftrightarrow> mode (parse hs) \<in> {Run, Attach, Error} \<or> (\<forall>hs'. parse hs' = parse hs)"

lemma steady_if: "steady f hs \<Longrightarrow> steady g hs \<Longrightarrow> steady (\<lambda>hs. if P then f hs else g hs) hs"
  by (cases P) simp_all

lemma steady_command: "steady (\<lambda>hs. parse_command attach args hs) hs"
  using parse_command_mode by (simp add: steady_def)

lemma steady_const: "steady (\<lambda>hs. c) hs"
  by (simp add: steady_def)

lemma ParseCommandLine_mode:
  "mode (ParseCommandLine argv hs) \<in> {Run, Attach, Error} \<or> (\<forall>hs'. ParseCommandLine argv hs' = ParseCommandLine argv hs)"
proof -
  have "steady (ParseCommandLine argv) hs"
    unfolding ParseCommandLine_def Let_def by (intro steady_if steady_command steady_const)
  then show ?thesis by (simp add: steady_def)
qed

subsection \<open>Properties\<close>

lemma ParseCommandLine_complete:
  assumes "options = ParseCommandLine argv availableHooks" "argv \<noteq> []"
  shows "(mode options = Error \<longleftrightarrow> error options \<noteq> []) \<and>
     (mode options \<in> {Run, Attach} \<longrightarrow>
        hooks options \<noteq> [] \<and> distinct (map canonicalName (hooks options)) \<and> set (hooks options) \<subseteq> set availableHooks \<and>
        (quiet (output_options options) \<longrightarrow> outputPath (output_options options) \<noteq> [])) \<and>
     (mode options = Run \<longrightarrow> targetArguments options \<noteq> [] \<and> targetProcessId options = 0) \<and>
     (mode options = Attach \<longrightarrow> targetArguments options = [] \<and> targetProcessId options \<noteq> 0)"
proof -
  have "parsed_ok availableHooks options"
    unfolding assms(1) ParseCommandLine_def Let_def
    by (intro if_parsed_ok parse_command_sound) (simp_all add: parsed_ok_def refused_def initial_options_def)
  then show ?thesis
    by (auto simp: parsed_ok_def refused_def accepted_def hooks_ok_def)
qed

text \<open>C30: An accepted command line is complete and consistent. A command is refused exactly when it
  has a message; an accepted run or attach has at least one hook, each from the available ones
  and none twice, writes to a file when it is quiet, and a run has a target and no process
  identifier while an attach has an identifier and no target.\<close>

theorem accepted_command_complete:
  assumes "options = ParseCommandLine argv availableHooks" "argv \<noteq> []"
  shows "(mode options = Error \<longleftrightarrow> error options \<noteq> []) \<and>
     (mode options \<in> {Run, Attach} \<longrightarrow>
        hooks options \<noteq> [] \<and> distinct (map canonicalName (hooks options)) \<and> set (hooks options) \<subseteq> set availableHooks \<and>
        (quiet (output_options options) \<longrightarrow> outputPath (output_options options) \<noteq> [])) \<and>
     (mode options = Run \<longrightarrow> targetArguments options \<noteq> [] \<and> targetProcessId options = 0) \<and>
     (mode options = Attach \<longrightarrow> targetArguments options = [] \<and> targetProcessId options \<noteq> 0)"
  using assms by (rule ParseCommandLine_complete)

definition sample_hook :: HookDefinition where
  "sample_hook = \<lparr>moduleName = ''m'', exportName = ''A'', handlerExport = ''H'', trampolineExport = ''T'', canonicalName = ''m!A''\<rparr>"

lemma sample_accepted:
  "mode (ParseCommandLine [wide ''a'', wide ''run'', wide ''-k'', wide ''M!A'', wide ''--'', wide ''x''] [sample_hook]) = Run"
  by code_simp

lemma accepted_command_complete_witness:
  "hooks (ParseCommandLine [wide ''a'', wide ''run'', wide ''-k'', wide ''M!A'', wide ''--'', wide ''x''] [sample_hook]) \<noteq> []"
  using accepted_command_complete [OF refl, of "[wide ''a'', wide ''run'', wide ''-k'', wide ''M!A'', wide ''--'', wide ''x'']"
    "[sample_hook]"] by (simp add: sample_accepted)

subsection \<open>Process identifiers are decimal\<close>

definition wide_digit :: "u16 \<Rightarrow> bool" where
  "wide_digit c \<longleftrightarrow> 48 \<le> unat c \<and> unat c \<le> 57"

definition decimal :: "nat \<Rightarrow> wstring \<Rightarrow> nat" where
  "decimal a cs = foldl (\<lambda>a c. 10 * a + (unat c - 48)) a cs"

lemma decimal_mono: "a \<le> decimal a cs"
proof (induction cs rule: rev_induct)
  case (snoc c cs)
  then show ?case by (simp add: decimal_def)
qed (simp add: decimal_def)

lemma pid_digit:
  assumes "unat parsed \<le> 0xFFFFFFFF" "wide_digit c"
  shows "unat (parsed * 10 + ucast (c - 48) :: u64) = 10 * unat parsed + (unat c - 48)"
proof -
  have "unat (c - 48) = unat c - 48" using assms(2) by (simp add: wide_digit_def unat_sub word_le_nat_alt)
  moreover from this have "unat (ucast (c - 48) :: u64) = unat c - 48"
    using assms(2) unfolding unsigned_ucast_eq take_bit_nat_eq_self_iff wide_digit_def
    by (auto simp: unsigned_ucast_eq take_bit_nat_eq_self_iff)
  moreover have "unat (parsed * 10) = unat parsed * 10"
    using assms(1) by (simp add: unat_word_ariths)
  moreover have "unat parsed * 10 + unat c - 48 < 18446744073709551616"
    using assms by (auto simp: wide_digit_def)
  ultimately show ?thesis
    using assms by (simp add: unat_word_ariths wide_digit_def)
qed

lemma wide_digit_code: "wide_digit c \<longleftrightarrow> \<not> (c < 48 \<or> c > 57)"
  by (auto simp: wide_digit_def word_less_nat_alt)

lemma pid_loop_iff:
  "unat parsed \<le> 0xFFFFFFFF \<Longrightarrow> pid_loop cs parsed = Some r \<longleftrightarrow>
     list_all wide_digit cs \<and> decimal (unat parsed) cs \<le> 0xFFFFFFFF \<and> unat r = decimal (unat parsed) cs"
proof (induction cs arbitrary: parsed)
  case Nil
  then show ?case by (auto simp: decimal_def word_unat_eq_iff)
next
  case (Cons c cs)
  show ?case
  proof (cases "wide_digit c")
    case True
    let ?p = "parsed * 10 + ucast (c - 48) :: u64"
    have p: "unat ?p = 10 * unat parsed + (unat c - 48)" using pid_digit Cons.prems True by blast
    then have step: "decimal (unat parsed) (c # cs) = decimal (unat ?p) cs" by (simp add: decimal_def)
    show ?thesis
    proof (cases "unat ?p \<le> 0xFFFFFFFF")
      case le: True
      then have "pid_loop (c # cs) parsed = pid_loop cs ?p"
        using True by (simp add: wide_digit_code word_less_nat_alt Let_def)
      then show ?thesis using Cons.IH [OF le] True step by simp
    next
      case False
      then have "pid_loop (c # cs) parsed = None"
        using True by (simp add: wide_digit_code word_less_nat_alt Let_def)
      moreover have "\<not> decimal (unat parsed) (c # cs) \<le> 0xFFFFFFFF"
        using False decimal_mono [of "unat ?p" cs] step by simp
      ultimately show ?thesis by simp
    qed
  qed (auto simp: wide_digit_code)
qed

lemma ParseProcessId_iff:
  "ParseProcessId value = Some pid \<longleftrightarrow>
     value \<noteq> [] \<and> list_all wide_digit value \<and> 0 < decimal 0 value \<and> decimal 0 value < 2 ^ 32 \<and> unat pid = decimal 0 value"
proof -
  have narrow: "ucast r = pid \<longleftrightarrow> unat pid = unat r" if "unat r \<le> 0xFFFFFFFF" for r :: u64
  proof -
    have "unat (ucast r :: u32) = unat r" using that by (simp add: unsigned_ucast_eq take_bit_nat_eq_self_iff)
    then show ?thesis using word_unat_eq_iff [of "ucast r" pid] by metis
  qed
  show ?thesis
  proof (cases "pid_loop value 0")
    case None
    have "\<not> (list_all wide_digit value \<and> decimal 0 value < 2 ^ 32)"
    proof
      assume a: "list_all wide_digit value \<and> decimal 0 value < 2 ^ 32"
      then have "unat (of_nat (decimal 0 value) :: u64) = decimal 0 value" by (intro unat_of_nat_small) simp
      with a pid_loop_iff [of 0 "value" "of_nat (decimal 0 value)"] None show False by simp
    qed
    then show ?thesis using None by (auto simp: ParseProcessId_def)
  next
    case (Some r)
    with pid_loop_iff [of 0 "value" r] have
      "list_all wide_digit value" "decimal 0 value \<le> 0xFFFFFFFF" "unat r = decimal 0 value" by simp_all
    then show ?thesis using Some narrow [of r] unat_eq_0 [of r] by (auto simp: ParseProcessId_def)
  qed
qed

text \<open>C31: A process identifier is accepted exactly when it is a non-empty string of decimal digits
  whose value is between 1 and \<open>2 ^ 32 - 1\<close>, and then it is that value: no overflow, however
  long the digits are.\<close>

theorem ParseProcessId_exact:
  "ParseProcessId value = Some pid \<longleftrightarrow>
     value \<noteq> [] \<and> list_all wide_digit value \<and> 0 < decimal 0 value \<and> decimal 0 value < 2 ^ 32 \<and> unat pid = decimal 0 value"
  by (rule ParseProcessId_iff)

subsection \<open>Every option is understood\<close>

text \<open>The options as values, the words that state them (long or short) and what they set.\<close>

datatype cli_item = PidItem u32 | HookItem string | FormatItem TraceOutputFormat | OutputItem wstring
  | QuietItem | ColorItem TraceColorMode | StatusItem TraceColorMode

fun mode_word :: "TraceColorMode \<Rightarrow> string" where
  "mode_word Auto = ''auto''" | "mode_word Always = ''always''" | "mode_word Never = ''never''"

fun format_word :: "TraceOutputFormat \<Rightarrow> string" where
  "format_word Text = ''text''" | "format_word Jsonl = ''jsonl''"

fun item_name :: "bool \<Rightarrow> cli_item \<Rightarrow> string" where
  "item_name short (PidItem p) = (if short then ''-p'' else ''--pid'')"
| "item_name short (HookItem h) = (if short then ''-k'' else ''--hook'')"
| "item_name short (FormatItem f) = (if short then ''-f'' else ''--format'')"
| "item_name short (OutputItem p) = (if short then ''-o'' else ''--output'')"
| "item_name short QuietItem = (if short then ''-q'' else ''--quiet'')"
| "item_name short (ColorItem m) = ''--color''"
| "item_name short (StatusItem m) = ''--status''"

fun item_value :: "cli_item \<Rightarrow> wstring list" where
  "item_value (PidItem p) = [wide (dec (unat p))]"
| "item_value (HookItem h) = [wide h]"
| "item_value (FormatItem f) = [wide (format_word f)]"
| "item_value (OutputItem p) = [p]"
| "item_value QuietItem = []"
| "item_value (ColorItem m) = [wide (mode_word m)]"
| "item_value (StatusItem m) = [wide (mode_word m)]"

fun item_effect :: "parse_state \<Rightarrow> cli_item \<Rightarrow> parse_state" where
  "item_effect (options, rs, f) (PidItem p) = (options\<lparr>targetProcessId := p\<rparr>, rs, f)"
| "item_effect (options, rs, f) (HookItem h) = (options, rs @ [h], f)"
| "item_effect (options, rs, f) (FormatItem fm) = (set_output (\<lambda>out. out\<lparr>output_format := fm\<rparr>) options, rs, True)"
| "item_effect (options, rs, f) (OutputItem p) = (set_output (\<lambda>out. out\<lparr>outputPath := p\<rparr>) options, rs, f)"
| "item_effect (options, rs, f) QuietItem = (set_output (\<lambda>out. out\<lparr>quiet := True\<rparr>) options, rs, f)"
| "item_effect (options, rs, f) (ColorItem m) = (set_output (\<lambda>out. out\<lparr>color_mode := m\<rparr>) options, rs, f)"
| "item_effect (options, rs, f) (StatusItem m) = (set_output (\<lambda>out. out\<lparr>status_mode := m\<rparr>) options, rs, f)"

fun item_ok :: "bool \<Rightarrow> cli_item \<Rightarrow> bool" where
  "item_ok attach (PidItem p) \<longleftrightarrow> attach \<and> p \<noteq> 0"
| "item_ok attach (HookItem h) \<longleftrightarrow> h \<noteq> [] \<and> list_all (\<lambda>c. (of_char c :: nat) < 128) h"
| "item_ok attach _ \<longleftrightarrow> True"

lemma unat_wide_char [simp]: "unat (of_nat (of_char c) :: u16) = of_char c"
proof -
  have "(of_char c :: nat) < 256" by (metis of_char_mod_256 mod_less_divisor zero_less_numeral)
  then have "(of_char c :: nat) < 2 ^ LENGTH(16)" by (rule less_le_trans) simp
  then show ?thesis by (rule unat_of_nat_small)
qed

lemma wide_eq_iff [simp]: "wide s = wide t \<longleftrightarrow> s = t"
proof -
  have "inj (\<lambda>c. of_nat (of_char c) :: u16)" by (rule injI) (metis unat_wide_char of_char_eq_iff)
  then show ?thesis by (simp add: wide_def inj_map_eq_map)
qed

lemma wide_Nil_iff [simp]: "wide s = [] \<longleftrightarrow> s = []"
  by (simp add: wide_def)

lemma Narrow_wide: "list_all (\<lambda>c. (of_char c :: nat) < 128) h \<Longrightarrow> NarrowHookName (wide h) = h"
  by (auto simp: NarrowHookName_def wide_def list_all_iff word_less_nat_alt comp_def intro!: map_idI)

lemma color_value_word: "color_value (wide (mode_word m)) = Some m"
  by (cases m) (simp_all add: color_value_def)

lemma format_value_word: "format_value (wide (format_word f)) = Some f"
  by (cases f) (simp_all add: format_value_def)

lemma wide_dec_value: "decimal 0 (wide (dec n)) = n"
proof -
  have "decimal a (wide s) = foldl (\<lambda>a c. 10 * a + digit_val c) a s" for a s
    by (induction s arbitrary: a) (simp_all add: decimal_def wide_def digit_val_def)
  then show ?thesis by (metis read_dec_def read_dec_dec)
qed

lemma pid_word: "p \<noteq> 0 \<Longrightarrow> ParseProcessId (wide (dec (unat p))) = Some p"
proof -
  assume "p \<noteq> 0"
  have "list_all wide_digit (wide (dec (unat p)))"
    using dec_digits [of "unat p"] by (auto simp: list_all_iff wide_def wide_digit_def is_digit_of_char)
  moreover have "unat p < 2 ^ 32" using unsigned_less [of p] by simp
  ultimately show ?thesis
    using \<open>p \<noteq> 0\<close> by (subst ParseProcessId_iff) (simp add: wide_dec_value unat_gt_0)
qed

lemma option_turn_item:
  assumes "item_ok attach x"
  shows "option_turn attach (wide (item_name short x)) (item_value x @ args) st = Continue (item_effect st x) args"
proof -
  obtain options rs f where st: "st = (options, rs, f)" by (cases st)
  show ?thesis
    using assms
    by (cases x) (simp_all add: st option_turn_def with_value_def pid_word Narrow_wide color_value_word format_value_word)
qed

definition item_words :: "bool \<times> cli_item \<Rightarrow> wstring list" where
  "item_words i = wide (item_name (fst i) (snd i)) # item_value (snd i)"

lemma option_loop_items:
  "list_all (\<lambda>i. item_ok attach (snd i)) items \<Longrightarrow>
   option_loop attach (concat (map item_words items) @ args) st =
   option_loop attach args (foldl item_effect st (map snd items))"
  by (induction items arbitrary: st) (simp_all add: item_words_def option_loop.simps option_turn_item)

lemma item_effect_state:
  "item_ok attach x \<Longrightarrow> loop_state attach (fst st) \<Longrightarrow> loop_state attach (fst (item_effect st x))"
  by (cases st; cases x) (auto simp: loop_state_def set_output_def)

lemma items_state:
  "list_all (item_ok attach) xs \<Longrightarrow> loop_state attach (fst st) \<Longrightarrow> loop_state attach (fst (foldl item_effect st xs))"
  by (induction xs arbitrary: st) (simp_all add: item_effect_state)

lemma expand_loop_all:
  "list_all2 (\<lambda>r new. requested availableHooks r = Inr new) rs news \<Longrightarrow>
   expand_loop availableHooks rs options = (True, options\<lparr>hooks := foldl AddHook (hooks options) (concat news)\<rparr>)"
  by (induction rs news arbitrary: options rule: list_all2_induct) (simp_all add: expand_loop.simps)

lemma finish_command_all:
  assumes "list_all2 (\<lambda>r new. requested availableHooks r = Inr new) rs news" "foldl AddHook [] (concat news) \<noteq> []"
    and "loop_state attach options" "if attach then rest = [] \<and> targetProcessId options \<noteq> 0 else rest \<noteq> []"
    and "formatSpecified \<or> quiet (output_options options) \<Longrightarrow> outputPath (output_options options) \<noteq> []"
  shows "finish_command attach (options, rs, formatSpecified) rest availableHooks =
     Inr (options\<lparr>targetArguments := rest, hooks := foldl AddHook [] (concat news), mode := if attach then Attach else Run\<rparr>)"
proof -
  have e: "ExpandAndValidateHooks o1 availableHooks rs = (True, o1\<lparr>hooks := foldl AddHook [] (concat news)\<rparr>)"
    if "hooks o1 = []" for o1
    using that assms(2) by (simp add: ExpandAndValidateHooks_def expand_loop_all [OF assms(1)])
  show ?thesis
  proof (cases attach)
    case True
    moreover have "options\<lparr>targetArguments := []\<rparr> = options" using assms(3) by (simp add: loop_state_def)
    ultimately show ?thesis using assms(3-5) e [of options]
      by (auto simp: finish_command_def loop_state_def)
  next
    case False
    with assms(3-5) e [of "options\<lparr>targetArguments := rest\<rparr>"] show ?thesis
      by (auto simp: finish_command_def loop_state_def Let_def)
  qed
qed

text \<open>C29: Every valid command line is understood as it is written. For any sequence of options, each
  in its long or short form, that leaves options \<open>options\<close> and requested hooks \<open>rs\<close> (later
  options override earlier ones), with a file path wherever a format or quiet asks for it,
  requests that all resolve, and a target to run or a process to attach to, the parser accepts
  and returns exactly those options with the requested hooks in order, each once.\<close>

theorem valid_command_understood:
  assumes "list_all (item_ok attach) (map snd items)"
    and "foldl item_effect (initial_options, [], False) (map snd items) = (options, rs, formatSpecified)"
    and "if attach then target = [] \<and> targetProcessId options \<noteq> 0 else target \<noteq> []"
    and "formatSpecified \<or> quiet (output_options options) \<Longrightarrow> outputPath (output_options options) \<noteq> []"
    and "list_all2 (\<lambda>r new. requested availableHooks r = Inr new) rs news" "foldl AddHook [] (concat news) \<noteq> []"
  shows "ParseCommandLine (program # wide (if attach then ''attach'' else ''run'') # concat (map item_words items) @
       (if attach then [] else wide ''--'' # target)) availableHooks =
     options\<lparr>targetArguments := target, hooks := foldl AddHook [] (concat news), mode := if attach then Attach else Run\<rparr>"
proof -
  have "loop_state attach options"
    using items_state [OF assms(1), of "(initial_options, [], False)"] initial_loop_state by (simp add: assms(2))
  note finish = finish_command_all [OF assms(5,6) this assms(3,4)]
  have "option_loop attach (concat (map item_words items) @ (if attach then [] else wide ''--'' # target)) (initial_options, [], False)
      = Inr ((options, rs, formatSpecified), target)"
    using assms(1,3) by (subst option_loop_items)
      (auto simp: assms(2) list_all_iff option_loop.simps option_turn_def split: if_splits)
  then have "parse_command attach (concat (map item_words items) @ (if attach then [] else wide ''--'' # target)) availableHooks =
      options\<lparr>targetArguments := target, hooks := foldl AddHook [] (concat news), mode := if attach then Attach else Run\<rparr>"
    by (simp add: parse_command_def finish)
  moreover have "(wide (if attach then ''attach'' else ''run'') = wide ''attach'') = attach"
    by (simp only: wide_eq_iff) simp
  ultimately show ?thesis
    by (auto simp: ParseCommandLine_def Let_def)
qed

lemma valid_command_understood_witness:
  "hooks (ParseCommandLine [wide ''a'', wide ''run'', wide ''-k'', wide ''M!A'', wide ''--quiet'', wide ''-o'', wide ''t'',
     wide ''--'', wide ''x''] [sample_hook]) = [sample_hook]"
proof -
  have r: "requested [sample_hook] ''M!A'' = Inr [sample_hook]" by code_simp
  have "list_all (item_ok False) (map snd [(True, HookItem ''M!A''), (False, QuietItem), (True, OutputItem (wide ''t''))])"
    by code_simp
  from valid_command_understood [OF this, of "set_output (\<lambda>out. out\<lparr>quiet := True, outputPath := wide ''t''\<rparr>) initial_options"
      "[''M!A'']" False "[wide ''x'']" "[sample_hook]" "[[sample_hook]]" "wide ''a''"]
  show ?thesis
    by (simp add: r item_words_def AddHook_def set_output_def initial_options_def)
qed

subsection \<open>Usage\<close>

definition usage_lines :: "string list" where
  "usage_lines =
    [''Usage:'',
     ''  apiscope.exe [--help | --version | --list-hooks]'',
     ''  apiscope.exe run -k <module!export|all> [-k <module!export>] [-f text|jsonl] [-o <path>] [-q] -- <program> [args...]'',
     ''  apiscope.exe attach -p <pid> -k <module!export|all> [-k <module!export>] [-f text|jsonl] [-o <path>] [-q]'',
     '''',
     ''Options:'',
     ''  -h, --help              Show this help'',
     ''  -V, --version           Show version'',
     ''  -l, --list-hooks        List supported hooks'',
     ''  -p, --pid <pid>         Attach to a running process ID'',
     ''  -k, --hook <name|all>   Enable a module-qualified hook'',
     ''  -f, --format <format>   File output format: text or jsonl'',
     ''  -o, --output <path>     Tee events to a file'',
     ''  -q, --quiet             Suppress terminal event rendering'',
     ''      --color <mode>      Colorize terminal output: auto, always, never'',
     ''      --status <mode>     Live status footer: auto, always, never'']"

definition PrintUsage :: string where
  "PrintUsage = concat (map (\<lambda>line. line @ [CHR 0x0A]) usage_lines)"

end
