(* ===== verification/Launcher.thy ===== *)
theory Launcher
  imports Cli_Options
begin

section \<open>The launcher\<close>

text \<open>
  \<open>src/apiscope/main.cpp\<close>: what a command line does. The path of the executable, the discovery of
  hooks, the own process identifier, the version and the session (a function from the DLL path
  and the options to an exit code) are parameters. The outcome is the exit code, the standard
  output and whether a session ran with which DLL and options; the banner on the error output
  is left out, the error message is kept.
\<close>

definition MAX_PATH :: nat where
  "MAX_PATH = 260"

text \<open>\<open>find_last_of\<close> of no separator plus one is 0: \<open>substr(0, 0)\<close>.\<close>

definition wide_separator :: "u16 \<Rightarrow> bool" where
  "wide_separator c \<longleftrightarrow> c = 0x5C \<or> c = 0x2F"

definition GetSiblingPath :: "wstring \<Rightarrow> nat \<Rightarrow> wstring \<Rightarrow> wstring" where
  "GetSiblingPath executablePath n fileName =
     (if n = 0 \<or> n = MAX_PATH then fileName
      else rev (dropWhile (\<lambda>c. \<not> wide_separator c) (rev (take n executablePath))) @ fileName)"

record launcher_world =
  exe_path :: wstring
  exe_length :: nat
  discover :: "wstring \<Rightarrow> HookDefinition list"
  current_pid :: u32
  version_text :: string
  session_attach :: "wstring \<Rightarrow> CommandLineOptions \<Rightarrow> int"
  session_run :: "wstring \<Rightarrow> CommandLineOptions \<Rightarrow> int"

record outcome =
  exit_code :: int
  out_text :: string
  err_text :: string
  session :: "(wstring \<times> CommandLineOptions) option"
  inspected :: bool

definition finished :: "int \<Rightarrow> string \<Rightarrow> string \<Rightarrow> bool \<Rightarrow> outcome" where
  "finished code out err dll = \<lparr>exit_code = code, out_text = out, err_text = err, session = None, inspected = dll\<rparr>"

definition wmain :: "launcher_world \<Rightarrow> wstring list \<Rightarrow> outcome" where
  "wmain w argv =
     (let options = ParseCommandLine argv []
      in if mode options = Help then finished 0 PrintUsage [] False
         else if mode options = Version then finished 0 (''apiscope '' @ version_text w @ [CHR 0x0A]) [] False
         else
          (let hookDllPath = GetSiblingPath (exe_path w) (exe_length w) (wide ''apiscope-hooks.dll'');
               availableHooks = discover w hookDllPath;
               options = ParseCommandLine argv availableHooks
           in if mode options = ListHooks
              then (if availableHooks = [] then finished 1 [] (''[!] No hooks discovered in apiscope-hooks.dll'' @ [CHR 0x0A]) True
                    else finished 0 (PrintSupportedHooks availableHooks) [] True)
              else if mode options = Error
              then finished 1 PrintUsage (''[!] '' @ error options @ [CHR 0x0A]) True
              else if mode options = Attach \<and> targetProcessId options = current_pid w
              then finished 1 [] (''[!] Refusing to attach apiscope.exe to itself'' @ [CHR 0x0A]) True
              else \<lparr>exit_code = (if mode options = Attach then session_attach w hookDllPath options
                      else session_run w hookDllPath options),
                    out_text = [], err_text = [], session = Some (hookDllPath, options), inspected = True\<rparr>))"

subsection \<open>Properties\<close>

text \<open>C32: A session only ever starts on a valid command. The hook DLL is looked for beside the
  executable and is not inspected for help or the version; a session starts exactly when the
  command line, read against the hooks of that DLL, is an accepted run or attach that does not
  name the launcher itself: its hooks are among the discovered ones, none twice, and the exit
  code is the session's. Otherwise the exit code is 1 with a message, or 0 for help, the
  version and a non-empty hook list.\<close>

theorem session_only_when_valid:
  assumes "argv \<noteq> []" "result = wmain w argv"
    and "dll = GetSiblingPath (exe_path w) (exe_length w) (wide ''apiscope-hooks.dll'')"
    and "options = ParseCommandLine argv (discover w dll)"
  shows "(session result \<noteq> None \<longleftrightarrow> mode options = Run \<or> mode options = Attach \<and> targetProcessId options \<noteq> current_pid w) \<and>
     (session result \<noteq> None \<longrightarrow> session result = Some (dll, options) \<and> hooks options \<noteq> [] \<and>
        distinct (map canonicalName (hooks options)) \<and> set (hooks options) \<subseteq> set (discover w dll) \<and>
        exit_code result = (if mode options = Attach then session_attach w dll options else session_run w dll options)) \<and>
     (session result = None \<longrightarrow> (if mode options \<in> {Help, Version} \<or> mode options = ListHooks \<and> discover w dll \<noteq> []
        then exit_code result = 0 \<and> err_text result = [] else exit_code result = 1)) \<and>
     (inspected result \<longleftrightarrow> mode options \<notin> {Help, Version})"
proof -
  let ?first = "ParseCommandLine argv []"
  have "mode ?first = mode options \<or> mode ?first \<in> {Run, Attach, Error} \<and> mode options \<in> {Run, Attach, Error}"
    using ParseCommandLine_mode [of argv "[]"] ParseCommandLine_mode [of argv "discover w dll"] assms(4) by metis
  then have same: "mode ?first \<in> {Help, Version} \<longleftrightarrow> mode options \<in> {Help, Version}"
    "mode ?first \<in> {Help, Version} \<Longrightarrow> mode ?first = mode options"
    by auto
  have ok: "mode options \<in> {Run, Attach} \<Longrightarrow> hooks options \<noteq> [] \<and> distinct (map canonicalName (hooks options)) \<and>
      set (hooks options) \<subseteq> set (discover w dll)"
    using ParseCommandLine_complete [OF assms(4,1)] by blast
  show ?thesis
  proof (cases "mode ?first \<in> {Help, Version}")
    case True
    then show ?thesis using same by (auto simp: assms(2) wmain_def finished_def Let_def)
  next
    case False
    then have m: "mode ?first \<noteq> Help" "mode ?first \<noteq> Version" "mode options \<noteq> Help" "mode options \<noteq> Version"
      using same by auto
    have "result = (if mode options = ListHooks
        then (if discover w dll = [] then finished 1 [] (''[!] No hooks discovered in apiscope-hooks.dll'' @ [CHR 0x0A]) True
              else finished 0 (PrintSupportedHooks (discover w dll)) [] True)
        else if mode options = Error then finished 1 PrintUsage (''[!] '' @ error options @ [CHR 0x0A]) True
        else if mode options = Attach \<and> targetProcessId options = current_pid w
        then finished 1 [] (''[!] Refusing to attach apiscope.exe to itself'' @ [CHR 0x0A]) True
        else \<lparr>exit_code = (if mode options = Attach then session_attach w dll options else session_run w dll options),
              out_text = [], err_text = [], session = Some (dll, options), inspected = True\<rparr>)"
      unfolding assms(2) wmain_def Let_def by (simp only: m if_False flip: assms(3,4))
    then show ?thesis
      using m(3,4) ok by (cases "mode options") (simp_all add: finished_def)
  qed
qed

definition sample_world :: launcher_world where
  "sample_world = \<lparr>exe_path = wide ''C:/t/apiscope.exe'', exe_length = 17, discover = (\<lambda>dll. [sample_hook]),
     current_pid = 4, version_text = ''1'', session_attach = (\<lambda>dll options. 7), session_run = (\<lambda>dll options. 5)\<rparr>"

lemma session_only_when_valid_witness:
  "exit_code (wmain sample_world [wide ''a'', wide ''run'', wide ''-k'', wide ''M!A'', wide ''--'', wide ''x'']) = 5"
  using session_only_when_valid [OF _ refl refl refl, of "[wide ''a'', wide ''run'', wide ''-k'', wide ''M!A'', wide ''--'', wide ''x'']"
    sample_world] sample_accepted by (simp add: sample_world_def)

end
