(* ===== verification/Remote_Process.thy ===== *)
theory Remote_Process
  imports Prelude "HOL-Library.Monad_Syntax"
begin

section \<open>The target process\<close>

text \<open>
  The operations of the target process the launcher uses are Windows functions and so parameters:
  a record of functions on a state of the process. \<open>os_ok\<close> states their documented behaviour over
  two observations, the memory of the process and the regions \<open>VirtualAllocEx\<close> reserved: a read
  is all or nothing, a write that succeeds changes exactly its range and one that fails changes
  nothing, a new region leaves the memory around it alone and so does its release, and changes
  of protection and cache flushes do not touch the memory. Whether a call succeeds is free.
\<close>

record 's os =
  ReadProcessMemory :: "'s \<Rightarrow> addr \<Rightarrow> nat \<Rightarrow> byte list option"
  WriteProcessMemory :: "'s \<Rightarrow> addr \<Rightarrow> byte list \<Rightarrow> bool \<times> 's"
  VirtualProtectEx :: "'s \<Rightarrow> addr \<Rightarrow> nat \<Rightarrow> u32 \<Rightarrow> u32 option \<times> 's"
  VirtualAllocEx :: "'s \<Rightarrow> nat \<Rightarrow> u32 \<Rightarrow> addr \<times> 's"
  VirtualFreeEx :: "'s \<Rightarrow> addr \<Rightarrow> bool \<times> 's"
  FlushInstructionCache :: "'s \<Rightarrow> addr \<Rightarrow> nat \<Rightarrow> bool \<times> 's"

definition PAGE_NOACCESS :: u32 where "PAGE_NOACCESS = 0x01"
definition PAGE_READONLY :: u32 where "PAGE_READONLY = 0x02"
definition PAGE_READWRITE :: u32 where "PAGE_READWRITE = 0x04"
definition PAGE_EXECUTE :: u32 where "PAGE_EXECUTE = 0x10"
definition PAGE_EXECUTE_READ :: u32 where "PAGE_EXECUTE_READ = 0x20"
definition PAGE_EXECUTE_READWRITE :: u32 where "PAGE_EXECUTE_READWRITE = 0x40"

type_synonym 's observed = "('s \<Rightarrow> memory) \<times> ('s \<Rightarrow> addr \<Rightarrow> nat option)"

abbreviation rmem :: "'s observed \<Rightarrow> 's \<Rightarrow> memory" where "rmem \<equiv> fst"
abbreviation regions :: "'s observed \<Rightarrow> 's \<Rightarrow> addr \<Rightarrow> nat option" where "regions \<equiv> snd"

text \<open>An address outside the \<open>n\<close> bytes from \<open>a\<close>.\<close>

definition outside :: "addr \<Rightarrow> addr \<Rightarrow> nat \<Rightarrow> bool" where
  "outside x a n \<longleftrightarrow> n \<le> unat (x - a)"

definition apart :: "addr \<Rightarrow> nat \<Rightarrow> addr \<Rightarrow> nat \<Rightarrow> bool" where
  "apart b k a n \<longleftrightarrow> (\<forall>i < k. outside (b + of_nat i) a n)"

definition unchanged :: "'s observed \<Rightarrow> 's \<Rightarrow> 's \<Rightarrow> bool" where
  "unchanged v s s' \<longleftrightarrow> rmem v s' = rmem v s \<and> regions v s' = regions v s"

definition os_ok :: "'s os \<Rightarrow> 's observed \<Rightarrow> bool" where
  "os_ok os v \<longleftrightarrow>
     (\<forall>s a n bs. ReadProcessMemory os s a n = Some bs \<longrightarrow> bs = mem_bytes (rmem v s) a n) \<and>
     (\<forall>s a bs s'. WriteProcessMemory os s a bs = (True, s') \<longrightarrow>
        rmem v s' = mem_write (rmem v s) a bs \<and> regions v s' = regions v s) \<and>
     (\<forall>s a bs s'. WriteProcessMemory os s a bs = (False, s') \<longrightarrow> unchanged v s s') \<and>
     (\<forall>s a n p r s'. VirtualProtectEx os s a n p = (r, s') \<longrightarrow> unchanged v s s') \<and>
     (\<forall>s n p a s'. VirtualAllocEx os s n p = (a, s') \<longrightarrow>
        (if a = 0 then unchanged v s s'
         else regions v s a = None \<and> regions v s' = (regions v s)(a \<mapsto> n) \<and>
           (\<forall>x. outside x a n \<longrightarrow> rmem v s' x = rmem v s x))) \<and>
     (\<forall>s a s'. VirtualFreeEx os s a = (False, s') \<longrightarrow> unchanged v s s') \<and>
     (\<forall>s a s'. VirtualFreeEx os s a = (True, s') \<longrightarrow>
        (\<exists>n. regions v s a = Some n \<and> regions v s' = (regions v s)(a := None) \<and>
          (\<forall>x. outside x a n \<longrightarrow> rmem v s' x = rmem v s x))) \<and>
     (\<forall>s a n r s'. FlushInstructionCache os s a n = (r, s') \<longrightarrow> unchanged v s s')"

lemma os_read: "os_ok os v \<Longrightarrow> ReadProcessMemory os s a n = Some bs \<Longrightarrow> bs = mem_bytes (rmem v s) a n"
  by (simp add: os_ok_def)

lemma os_write_ok:
  "os_ok os v \<Longrightarrow> WriteProcessMemory os s a bs = (True, s') \<Longrightarrow>
     rmem v s' = mem_write (rmem v s) a bs \<and> regions v s' = regions v s"
  by (simp add: os_ok_def)

lemma os_write_fails: "os_ok os v \<Longrightarrow> WriteProcessMemory os s a bs = (False, s') \<Longrightarrow> unchanged v s s'"
  by (simp add: os_ok_def)

lemma os_protect: "os_ok os v \<Longrightarrow> VirtualProtectEx os s a n p = (r, s') \<Longrightarrow> unchanged v s s'"
  by (simp add: os_ok_def)

lemma os_flush: "os_ok os v \<Longrightarrow> FlushInstructionCache os s a n = (r, s') \<Longrightarrow> unchanged v s s'"
  by (simp add: os_ok_def)

lemma os_alloc_fails: "os_ok os v \<Longrightarrow> VirtualAllocEx os s n p = (0, s') \<Longrightarrow> unchanged v s s'"
  unfolding os_ok_def by presburger

lemma os_alloc:
  "os_ok os v \<Longrightarrow> VirtualAllocEx os s n p = (a, s') \<Longrightarrow> a \<noteq> 0 \<Longrightarrow>
     regions v s a = None \<and> regions v s' = (regions v s)(a \<mapsto> n) \<and> (\<forall>x. outside x a n \<longrightarrow> rmem v s' x = rmem v s x)"
  unfolding os_ok_def by presburger

lemma os_free_fails: "os_ok os v \<Longrightarrow> VirtualFreeEx os s a = (False, s') \<Longrightarrow> unchanged v s s'"
  by (simp add: os_ok_def)

lemma os_free:
  "os_ok os v \<Longrightarrow> VirtualFreeEx os s a = (True, s') \<Longrightarrow>
     \<exists>n. regions v s a = Some n \<and> regions v s' = (regions v s)(a := None) \<and>
       (\<forall>x. outside x a n \<longrightarrow> rmem v s' x = rmem v s x)"
  by (simp add: os_ok_def)

lemma unchanged_refl [simp]: "unchanged v s s"
  by (simp add: unchanged_def)

lemma unchanged_trans: "unchanged v s t \<Longrightarrow> unchanged v t u \<Longrightarrow> unchanged v s u"
  by (simp add: unchanged_def)

lemma mem_write_outside: "outside x a (length bs) \<Longrightarrow> mem_write m a bs x = m x"
  by (simp add: outside_def mem_write_def)

lemma mem_bytes_outside:
  "apart b k a n \<Longrightarrow> (\<And>x. outside x a n \<Longrightarrow> m' x = m x) \<Longrightarrow> mem_bytes m' b k = mem_bytes m b k"
  by (rule nth_equalityI) (auto simp: apart_def)

lemma outside_iff: "outside x a n \<longleftrightarrow> (\<forall>j < n. x \<noteq> a + of_nat j)"
proof
  assume o: "outside x a n"
  show "\<forall>j < n. x \<noteq> a + of_nat j"
  proof (intro allI impI notI)
    fix j assume "j < n" "x = a + of_nat j"
    then have "unat (x - a) \<le> j" by (simp add: unat_of_nat)
    with o \<open>j < n\<close> show False by (simp add: outside_def)
  qed
next
  assume o: "\<forall>j < n. x \<noteq> a + of_nat j"
  then have "\<not> unat (x - a) < n" by force
  then show "outside x a n" by (simp add: outside_def)
qed

lemma apart_sym: "apart b k a n \<longleftrightarrow> apart a n b k"
  unfolding apart_def outside_iff by metis

lemma outside_sub: "outside x a n \<Longrightarrow> n' \<le> n \<Longrightarrow> outside x a n'"
  by (simp add: outside_def)

lemma apart_sub: "apart b k a n \<Longrightarrow> k' \<le> k \<Longrightarrow> n' \<le> n \<Longrightarrow> apart b k' a n'"
  by (auto simp: apart_def outside_def intro: order_trans [of n' n])

lemma apart_below:
  assumes "unat b + k \<le> unat a" "unat a + n \<le> 2 ^ 64"
  shows "apart b k a n"
  unfolding apart_def outside_iff
proof (intro allI impI notI)
  fix i j assume "i < k" "j < n" "b + of_nat i = a + of_nat j"
  have add: "unat (c + of_nat m) = unat c + m" if "unat c + m < 2 ^ 64" for c :: addr and m
    using that by (simp add: unat_word_ariths unat_of_nat)
  have "unat (b + of_nat i) = unat b + i" "unat (a + of_nat j) = unat a + j"
    using assms \<open>i < k\<close> \<open>j < n\<close> by (intro add; simp)+
  with \<open>b + of_nat i = a + of_nat j\<close> assms(1) \<open>i < k\<close> show False by simp
qed

lemma take_drop_mem_bytes:
  "off + k \<le> n \<Longrightarrow> take k (drop off (mem_bytes m a n)) = mem_bytes m (a + of_nat off) k"
  by (rule nth_equalityI) (simp_all add: add.assoc)

lemma apart_write: "apart b k a n \<Longrightarrow> length bs \<le> n \<Longrightarrow> mem_bytes (mem_write m a bs) b k = mem_bytes m b k"
  by (rule mem_bytes_outside [where n = "length bs" and a = a]) (auto intro: apart_sub simp: mem_write_outside)

subsection \<open>A process whose calls fail on demand\<close>

text \<open>
  An instance of the documented behaviour for concrete runs: every call but a read counts, and
  the calls in \<open>failing\<close> fail. A region starts at \<open>next_region\<close>.
\<close>

record sim =
  sim_mem :: memory
  sim_regions :: "addr \<Rightarrow> nat option"
  next_region :: addr
  calls :: nat

definition ticked :: "sim \<Rightarrow> sim" where
  "ticked s = s\<lparr>calls := calls s + 1\<rparr>"

definition sim_os :: "nat set \<Rightarrow> sim os" where
  "sim_os failing = \<lparr>
     ReadProcessMemory = (\<lambda>s a n. Some (mem_bytes (sim_mem s) a n)),
     WriteProcessMemory = (\<lambda>s a bs. if calls s \<in> failing then (False, ticked s)
       else (True, ticked (s\<lparr>sim_mem := mem_write (sim_mem s) a bs\<rparr>))),
     VirtualProtectEx = (\<lambda>s a n p. (if calls s \<in> failing then None else Some PAGE_EXECUTE_READ, ticked s)),
     VirtualAllocEx = (\<lambda>s n p. if calls s \<in> failing \<or> next_region s = 0 \<or> sim_regions s (next_region s) \<noteq> None
       then (0, ticked s)
       else (next_region s, ticked (s\<lparr>sim_regions := (sim_regions s)(next_region s \<mapsto> n)\<rparr>))),
     VirtualFreeEx = (\<lambda>s a. if calls s \<in> failing \<or> sim_regions s a = None then (False, ticked s)
       else (True, ticked (s\<lparr>sim_regions := (sim_regions s)(a := None)\<rparr>))),
     FlushInstructionCache = (\<lambda>s a n. (calls s \<notin> failing, ticked s))\<rparr>"

lemma sim_os_ok: "os_ok (sim_os failing) (sim_mem, sim_regions)"
  by (auto simp: os_ok_def sim_os_def unchanged_def ticked_def split: if_splits)

end
