(* ===== verification/Remote_Exports.thy ===== *)
theory Remote_Exports
  imports Remote_Process
begin

section \<open>Headers and exports of a module in the target\<close>

text \<open>
  \<open>GetRemoteExport\<close>, \<open>GetRemoteModuleName\<close> and \<open>GetRemoteImageSize\<close> of
  \<open>src/apiscope/process_manager.cpp\<close>. The structures of the 64-bit PE format are read out of byte
  lists at their offsets. A function name is a C string; the comparison with the 256 bytes read
  from the target is the one \<open>Memory_Utils\<close> proves of \<open>CustomStrCmp\<close>: equality up to the first
  zero.
\<close>

subsection \<open>Structures\<close>

definition b_u16 :: "byte list \<Rightarrow> nat \<Rightarrow> u16" where
  "b_u16 bs off = of_le (take 2 (drop off bs))"

definition b_u32 :: "byte list \<Rightarrow> nat \<Rightarrow> u32" where
  "b_u32 bs off = of_le (take 4 (drop off bs))"

definition b_u64 :: "byte list \<Rightarrow> nat \<Rightarrow> u64" where
  "b_u64 bs off = of_le (take 8 (drop off bs))"

definition SIZEOF_DOS_HEADER :: nat where "SIZEOF_DOS_HEADER = 64"
definition SIZEOF_NT_HEADERS :: nat where "SIZEOF_NT_HEADERS = 264"
definition SIZEOF_EXPORT_DIRECTORY :: nat where "SIZEOF_EXPORT_DIRECTORY = 40"
definition IMAGE_DOS_SIGNATURE :: u16 where "IMAGE_DOS_SIGNATURE = 0x5A4D"
definition IMAGE_NT_SIGNATURE :: u32 where "IMAGE_NT_SIGNATURE = 0x4550"
definition IMAGE_NT_OPTIONAL_HDR64_MAGIC :: u16 where "IMAGE_NT_OPTIONAL_HDR64_MAGIC = 0x20B"

record nt_headers =
  Signature :: u32
  NumberOfSections :: u16
  SizeOfOptionalHeader :: u16
  OptionalMagic :: u16
  ImageBase :: u64
  SizeOfImage :: u32
  SizeOfHeaders :: u32
  ExportAddress :: u32
  ExportSize :: u32
  RelocAddress :: u32
  RelocSize :: u32

definition nt_headers_of :: "byte list \<Rightarrow> nt_headers" where
  "nt_headers_of bs = \<lparr>Signature = b_u32 bs 0, NumberOfSections = b_u16 bs 6, SizeOfOptionalHeader = b_u16 bs 20,
     OptionalMagic = b_u16 bs 24, ImageBase = b_u64 bs 48, SizeOfImage = b_u32 bs 80, SizeOfHeaders = b_u32 bs 84,
     ExportAddress = b_u32 bs 136, ExportSize = b_u32 bs 140, RelocAddress = b_u32 bs 176, RelocSize = b_u32 bs 180\<rparr>"

record export_directory =
  ExportName :: u32
  NumberOfFunctions :: u32
  NumberOfNames :: u32
  AddressOfFunctions :: u32
  AddressOfNames :: u32
  AddressOfNameOrdinals :: u32

definition export_directory_of :: "byte list \<Rightarrow> export_directory" where
  "export_directory_of bs = \<lparr>ExportName = b_u32 bs 12, NumberOfFunctions = b_u32 bs 20, NumberOfNames = b_u32 bs 24,
     AddressOfFunctions = b_u32 bs 28, AddressOfNames = b_u32 bs 32, AddressOfNameOrdinals = b_u32 bs 36\<rparr>"

text \<open>A 256-byte buffer whose last byte is set to zero, as a C string.\<close>

definition buffer_string :: "byte list \<Rightarrow> string" where
  "buffer_string bs = string_of (takeWhile (\<lambda>b. b \<noteq> 0) (take (length bs - 1) bs))"

subsection \<open>Reading\<close>

text \<open>The headers at a module base, when both signatures are right.\<close>

definition read_nt_headers :: "'s os \<Rightarrow> 's \<Rightarrow> addr \<Rightarrow> nt_headers option" where
  "read_nt_headers os s dllBase = do {
     dos \<leftarrow> ReadProcessMemory os s dllBase SIZEOF_DOS_HEADER;
     if b_u16 dos 0 \<noteq> IMAGE_DOS_SIGNATURE then None
     else do {
       nt \<leftarrow> ReadProcessMemory os s (dllBase + scast (b_u32 dos 60)) SIZEOF_NT_HEADERS;
       if Signature (nt_headers_of nt) \<noteq> IMAGE_NT_SIGNATURE then None else Some (nt_headers_of nt)
     }
   }"

record RemoteExport =
  address :: addr
  forwarder :: string

text \<open>
  The loop over the named exports: an unreadable name is skipped, the first equal name decides,
  a bad ordinal ends the search.
\<close>

fun export_loop :: "'s os \<Rightarrow> 's \<Rightarrow> addr \<Rightarrow> nt_headers \<Rightarrow> export_directory \<Rightarrow> string \<Rightarrow> u32 list \<Rightarrow> (u32 \<times> u16) list \<Rightarrow> RemoteExport option" where
  "export_loop os s dllBase nt dir functionName functions [] = None"
| "export_loop os s dllBase nt dir functionName functions ((name, ordinal) # names) =
     (case ReadProcessMemory os s (dllBase + ucast name) 256 of
        None \<Rightarrow> export_loop os s dllBase nt dir functionName functions names
      | Some current \<Rightarrow>
          if buffer_string current \<noteq> functionName then export_loop os s dllBase nt dir functionName functions names
          else if unat (NumberOfFunctions dir) \<le> unat ordinal then None
          else
           (let functionRVA = functions ! unat ordinal
            in if ExportAddress nt \<le> functionRVA \<and> functionRVA < ExportAddress nt + ExportSize nt
               then (case ReadProcessMemory os s (dllBase + ucast functionRVA) 256 of
                       None \<Rightarrow> None
                     | Some text \<Rightarrow> Some \<lparr>address = 0, forwarder = buffer_string text\<rparr>)
               else Some \<lparr>address = dllBase + ucast functionRVA, forwarder = []\<rparr>))"

definition u32_array :: "byte list \<Rightarrow> u32 list" where
  "u32_array bs = map (\<lambda>i. b_u32 bs (4 * i)) [0..<length bs div 4]"

definition u16_array :: "byte list \<Rightarrow> u16 list" where
  "u16_array bs = map (\<lambda>i. b_u16 bs (2 * i)) [0..<length bs div 2]"

definition GetRemoteExport :: "'s os \<Rightarrow> 's \<Rightarrow> addr \<Rightarrow> string \<Rightarrow> RemoteExport option" where
  "GetRemoteExport os s dllBase functionName = do {
     nt \<leftarrow> read_nt_headers os s dllBase;
     if ExportAddress nt = 0 then None
     else do {
       dir \<leftarrow> ReadProcessMemory os s (dllBase + ucast (ExportAddress nt)) SIZEOF_EXPORT_DIRECTORY;
       let dir = export_directory_of dir;
       functions \<leftarrow> ReadProcessMemory os s (dllBase + ucast (AddressOfFunctions dir)) (unat (NumberOfFunctions dir) * 4);
       names \<leftarrow> ReadProcessMemory os s (dllBase + ucast (AddressOfNames dir)) (unat (NumberOfNames dir) * 4);
       ordinals \<leftarrow> ReadProcessMemory os s (dllBase + ucast (AddressOfNameOrdinals dir)) (unat (NumberOfNames dir) * 2);
       export_loop os s dllBase nt dir functionName (u32_array functions) (zip (u32_array names) (u16_array ordinals))
     }
   }"

definition GetRemoteModuleName :: "'s os \<Rightarrow> 's \<Rightarrow> addr \<Rightarrow> string" where
  "GetRemoteModuleName os s dllBase = (case do {
     nt \<leftarrow> read_nt_headers os s dllBase;
     if ExportAddress nt = 0 then None
     else do {
       dir \<leftarrow> ReadProcessMemory os s (dllBase + ucast (ExportAddress nt)) SIZEOF_EXPORT_DIRECTORY;
       let dir = export_directory_of dir;
       if ExportName dir = 0 then None
       else do { name \<leftarrow> ReadProcessMemory os s (dllBase + ucast (ExportName dir)) 256; Some (buffer_string name) }
     }
   } of None \<Rightarrow> [] | Some name \<Rightarrow> name)"

definition GetRemoteImageSize :: "'s os \<Rightarrow> 's \<Rightarrow> addr \<Rightarrow> nat" where
  "GetRemoteImageSize os s dllBase =
     (case read_nt_headers os s dllBase of None \<Rightarrow> 0 | Some nt \<Rightarrow> unat (SizeOfImage nt))"

subsection \<open>A module to run on\<close>

lemma buffer_string_one:
  assumes "m a = byte_of c" "byte_of c \<noteq> 0" "m (a + 1) = 0"
  shows "buffer_string (mem_bytes m a 256) = [c]"
proof -
  have "mem_bytes m a 256 = byte_of c # 0 # mem_bytes m (a + 1 + 1) 254"
    using mem_bytes_Suc [of m a 255] mem_bytes_Suc [of m "a + 1" 254] assms by simp
  then show ?thesis using assms(2) by (simp add: buffer_string_def)
qed

text \<open>Two exports, \<open>H\<close> at 0x1000 and \<open>T\<close> at 0x2000, of a module at address 0.\<close>

definition export_image :: memory where
  "export_image a = (if a < 256 then
       (case map_of [(0, 0x4D), (1, 0x5A), (60, 64), (64, 0x50), (65, 0x45), (200, 0x90), (201, 1), (204, 40)] a of
          None \<Rightarrow> 0 | Some b \<Rightarrow> b)
     else if a < 512 then
       (case map_of [(420, 2), (424, 2), (428, 0xB8), (429, 1), (432, 0xC0), (433, 1), (436, 0xC8), (437, 1),
           (441, 0x10), (445, 0x20), (448, 0xF4), (449, 1), (452, 0xF6), (453, 1), (458, 1), (500, 0x48), (502, 0x54)] a of
          None \<Rightarrow> 0 | Some b \<Rightarrow> b)
     else 0)"

definition sample_process :: sim where
  "sample_process = \<lparr>sim_mem = export_image, sim_regions = (\<lambda>a. None), next_region = 0x5000, calls = 0\<rparr>"

lemma sim_read [simp]: "ReadProcessMemory (sim_os failing) s a n = Some (mem_bytes (sim_mem s) a n)"
  by (simp add: sim_os_def)

lemma export_image_words:
  "mem_bytes export_image 0 2 = [0x4D, 0x5A]" "mem_bytes export_image 60 4 = [64, 0, 0, 0]"
  "mem_bytes export_image 64 4 = [0x50, 0x45, 0, 0]" "mem_bytes export_image 200 4 = [0x90, 1, 0, 0]"
  "mem_bytes export_image 204 4 = [40, 0, 0, 0]"
  "mem_bytes export_image 420 4 = [2, 0, 0, 0]" "mem_bytes export_image 424 4 = [2, 0, 0, 0]"
  "mem_bytes export_image 428 4 = [0xB8, 1, 0, 0]" "mem_bytes export_image 432 4 = [0xC0, 1, 0, 0]"
  "mem_bytes export_image 436 4 = [0xC8, 1, 0, 0]"
  "mem_bytes export_image 440 8 = [0, 0x10, 0, 0, 0, 0x20, 0, 0]"
  "mem_bytes export_image 448 8 = [0xF4, 1, 0, 0, 0xF6, 1, 0, 0]"
  "mem_bytes export_image 456 4 = [0, 0, 1, 0]"
  by code_simp+

lemma export_image_names:
  "buffer_string (mem_bytes export_image 500 256) = ''H''" "buffer_string (mem_bytes export_image 502 256) = ''T''"
proof -
  have "export_image 500 = byte_of (CHR ''H'')" "export_image (500 + 1) = 0"
    "export_image 502 = byte_of (CHR ''T'')" "export_image (502 + 1) = 0"
    "byte_of (CHR ''H'') \<noteq> 0" "byte_of (CHR ''T'') \<noteq> 0"
    by code_simp+
  then show "buffer_string (mem_bytes export_image 500 256) = ''H''" "buffer_string (mem_bytes export_image 502 256) = ''T''"
    by (auto intro: buffer_string_one)
qed

lemma b_mem:
  "off + 2 \<le> n \<Longrightarrow> b_u16 (mem_bytes m a n) off = of_le (mem_bytes m (a + of_nat off) 2)"
  "off + 4 \<le> n \<Longrightarrow> b_u32 (mem_bytes m a n) off = of_le (mem_bytes m (a + of_nat off) 4)"
  "off + 8 \<le> n \<Longrightarrow> b_u64 (mem_bytes m a n) off = of_le (mem_bytes m (a + of_nat off) 8)"
  unfolding b_u16_def b_u32_def b_u64_def by (simp_all only: take_drop_mem_bytes)

lemma sample_arrays:
  "u32_array [0, 0x10, 0, 0, 0, 0x20, 0, 0] = [0x1000, 0x2000]" "u32_array [0xF4, 1, 0, 0, 0xF6, 1, 0, 0] = [500, 502]"
  "u16_array [0, 0, 1, 0] = [0, 1]"
  by (simp_all add: u32_array_def u16_array_def upt_rec b_u32_def b_u16_def of_le_def)

lemma sample_headers:
  "\<exists>nt. read_nt_headers (sim_os failing) sample_process 0 = Some nt \<and> ExportAddress nt = 400 \<and> ExportSize nt = 40"
  by (simp add: read_nt_headers_def sample_process_def nt_headers_of_def b_mem export_image_words of_le_def
      SIZEOF_DOS_HEADER_def SIZEOF_NT_HEADERS_def IMAGE_DOS_SIGNATURE_def IMAGE_NT_SIGNATURE_def)

lemma sample_directory:
  "sim_mem sample_process = export_image"
  "export_directory_of (mem_bytes export_image 400 40) = \<lparr>ExportName = of_le (mem_bytes export_image 412 4),
     NumberOfFunctions = 2, NumberOfNames = 2, AddressOfFunctions = 440, AddressOfNames = 448, AddressOfNameOrdinals = 456\<rparr>"
  by (simp_all add: sample_process_def export_directory_of_def b_mem export_image_words of_le_def)

text \<open>The exports of the sample, the names it does not export included.\<close>

lemma sample_export:
  "GetRemoteExport (sim_os failing) sample_process 0 n =
     (if n = ''H'' then Some \<lparr>address = 0x1000, forwarder = []\<rparr> else if n = ''T'' then Some \<lparr>address = 0x2000, forwarder = []\<rparr> else None)"
proof -
  obtain nt where nt: "read_nt_headers (sim_os failing) sample_process 0 = Some nt" "ExportAddress nt = 400" "ExportSize nt = 40"
    using sample_headers by blast
  show ?thesis
    by (auto simp: GetRemoteExport_def nt sample_directory SIZEOF_EXPORT_DIRECTORY_def export_image_words sample_arrays export_image_names)
qed

lemma sample_exports:
  "GetRemoteExport (sim_os failing) sample_process 0 ''H'' = Some \<lparr>address = 0x1000, forwarder = []\<rparr>"
  "GetRemoteExport (sim_os failing) sample_process 0 ''T'' = Some \<lparr>address = 0x2000, forwarder = []\<rparr>"
  by (simp_all add: sample_export)

end
