(* ===== verification/Hook_Manager.thy ===== *)
theory Hook_Manager
  imports Remote_Exports Hook_Registry
begin

section \<open>Installing and removing hooks\<close>

text \<open>
  \<open>src/apiscope/instruction_decoder.cpp\<close> and \<open>src/apiscope/hook_manager.cpp\<close>. The decoder library
  (Zydis) is a parameter that maps code bytes to the length and operands of the first
  instruction. Every operation threads the state of the target process; diagnostics are not
  modelled.
\<close>

subsection \<open>Decoding\<close>

datatype operand = MemoryOperand (based_on_rip: bool) | ImmediateOperand (is_relative: bool) | OtherOperand

type_synonym zydis = "byte list \<Rightarrow> (byte \<times> operand list) option"

record DecodedInstruction =
  instruction_length :: byte
  hasRipRelativeMemory :: bool
  hasRelativeImmediate :: bool

fun operand_loop :: "operand list \<Rightarrow> DecodedInstruction \<Rightarrow> DecodedInstruction" where
  "operand_loop [] result = result"
| "operand_loop (operand # operands) result =
     (let result = (case operand of MemoryOperand rip \<Rightarrow> if rip then result\<lparr>hasRipRelativeMemory := True\<rparr> else result
                    | _ \<Rightarrow> result);
          result = (case operand of ImmediateOperand relative \<Rightarrow>
                      if relative then result\<lparr>hasRelativeImmediate := True\<rparr> else result
                    | _ \<Rightarrow> result)
      in operand_loop operands result)"

definition DecodeInstruction64 :: "zydis \<Rightarrow> byte list \<Rightarrow> DecodedInstruction option" where
  "DecodeInstruction64 zydis code =
     (if code = [] then None
      else case zydis code of None \<Rightarrow> None
        | Some (len, operands) \<Rightarrow>
            Some (operand_loop operands \<lparr>instruction_length = len, hasRipRelativeMemory = False, hasRelativeImmediate = False\<rparr>))"

subsection \<open>The size of a patch\<close>

definition PATCH_SIZE :: nat where
  "PATCH_SIZE = 14"

definition TRAMPOLINE_SIZE :: nat where
  "TRAMPOLINE_SIZE = 1024"

function patch_loop :: "zydis \<Rightarrow> byte list \<Rightarrow> nat \<Rightarrow> nat" where
  "patch_loop zydis buffer totalSize =
     (if totalSize < PATCH_SIZE \<and> totalSize < length buffer
      then case DecodeInstruction64 zydis (drop totalSize buffer) of
             None \<Rightarrow> 0
           | Some instruction \<Rightarrow>
               if instruction_length instruction = 0 then 0
               else if hasRipRelativeMemory instruction then 0
               else if hasRelativeImmediate instruction then 0
               else patch_loop zydis buffer (totalSize + unat (instruction_length instruction))
      else if totalSize < PATCH_SIZE then 0 else totalSize)"
  by pat_completeness auto
termination
proof (relation "measure (\<lambda>(_, _, totalSize). PATCH_SIZE - totalSize)")
  fix zydis :: zydis and buffer :: "byte list" and totalSize :: nat and i :: DecodedInstruction
  assume "totalSize < PATCH_SIZE \<and> totalSize < length buffer" "instruction_length i \<noteq> 0"
  moreover from this have "0 < unat (instruction_length i)" by (simp add: unat_gt_0)
  ultimately have "PATCH_SIZE - (totalSize + unat (instruction_length i)) < PATCH_SIZE - totalSize" by linarith
  then show "((zydis, buffer, totalSize + unat (instruction_length i)), (zydis, buffer, totalSize)) \<in>
      measure (\<lambda>(_, _, totalSize). PATCH_SIZE - totalSize)" by simp
qed simp

declare patch_loop.simps [simp del]

definition CalculatePatchSize :: "zydis \<Rightarrow> 's os \<Rightarrow> 's \<Rightarrow> addr \<Rightarrow> nat" where
  "CalculatePatchSize zydis os s location =
     (case ReadProcessMemory os s location 32 of None \<Rightarrow> 0 | Some buffer \<Rightarrow> patch_loop zydis buffer 0)"

subsection \<open>Jumps and trampolines\<close>

text \<open>\<open>push imm32; mov dword [rsp+4], imm32; ret\<close>\<close>

definition jump_code :: "addr \<Rightarrow> byte list" where
  "jump_code target = [0x68] @ le_bytes (ucast target :: u32) @ [0xC7, 0x44, 0x24, 0x04] @
     le_bytes (ucast (drop_bit 32 target) :: u32) @ [0xC3]"

definition CreateTrampoline :: "'s os \<Rightarrow> addr \<Rightarrow> addr \<Rightarrow> nat \<Rightarrow> 's \<Rightarrow> bool \<times> 's" where
  "CreateTrampoline os originalFunction trampolineAddress patchSize s =
     (case ReadProcessMemory os s originalFunction patchSize of None \<Rightarrow> (False, s)
      | Some originalBytes \<Rightarrow>
         (let trampolineCode = originalBytes @ jump_code (originalFunction + of_nat patchSize);
              (written, s) = WriteProcessMemory os s trampolineAddress trampolineCode
          in if \<not> written then (False, s)
             else (let (old, s) = VirtualProtectEx os s trampolineAddress (patchSize + PATCH_SIZE) PAGE_EXECUTE_READ
                   in if old = None then (False, s)
                      else FlushInstructionCache os s trampolineAddress (patchSize + PATCH_SIZE))))"

record RemoteTrampoline =
  trampoline_address :: addr
  patchSize :: nat

definition CreateBypassTrampoline :: "zydis \<Rightarrow> 's os \<Rightarrow> addr \<Rightarrow> 's \<Rightarrow> RemoteTrampoline option \<times> 's" where
  "CreateBypassTrampoline zydis os originalFunction s =
     (let sz = CalculatePatchSize zydis os s originalFunction
      in if sz = 0 then (None, s)
         else (let (trampolineAddress, s) = VirtualAllocEx os s TRAMPOLINE_SIZE PAGE_READWRITE
               in if trampolineAddress = 0 then (None, s)
                  else (let (ok, s) = CreateTrampoline os originalFunction trampolineAddress sz s
                        in if \<not> ok then (None, snd (VirtualFreeEx os s trampolineAddress))
                           else (Some \<lparr>trampoline_address = trampolineAddress, patchSize = sz\<rparr>, s))))"

definition CreateBypassTrampolineForFunction :: "zydis \<Rightarrow> 's os \<Rightarrow> addr \<Rightarrow> string \<Rightarrow> 's \<Rightarrow> RemoteTrampoline option \<times> 's" where
  "CreateBypassTrampolineForFunction zydis os moduleBase functionName s =
     (case GetRemoteExport os s moduleBase functionName of None \<Rightarrow> (None, s)
      | Some remoteExport \<Rightarrow>
          if address remoteExport = 0 then (None, s)
          else CreateBypassTrampoline zydis os (address remoteExport) s)"

definition PatchFunction :: "'s os \<Rightarrow> addr \<Rightarrow> addr \<Rightarrow> nat \<Rightarrow> 's \<Rightarrow> bool \<times> 's" where
  "PatchFunction os originalFunction newAddress sz s =
     (let (old, s) = VirtualProtectEx os s originalFunction sz PAGE_EXECUTE_READWRITE
      in case old of None \<Rightarrow> (False, s)
         | Some oldProtect \<Rightarrow>
            (let patch = jump_code newAddress @ replicate (sz - PATCH_SIZE) 0x90;
                 (written, s) = WriteProcessMemory os s originalFunction patch
             in if \<not> written then (False, snd (VirtualProtectEx os s originalFunction sz oldProtect))
                else (let (restored, s) = VirtualProtectEx os s originalFunction sz oldProtect
                      in if restored = None then (False, s)
                         else FlushInstructionCache os s originalFunction sz)))"

subsection \<open>Hooks\<close>

record InstalledHook =
  ih_canonicalName :: string
  ih_sourceModuleBase :: addr
  ih_targetModuleBase :: addr
  ih_originalFunction :: addr
  ih_trampolineAddress :: addr
  ih_trampolineSlot :: addr
  ih_originalBytes :: "byte list"

definition null_bytes :: "byte list" where
  "null_bytes = le_bytes (0 :: u64)"

text \<open>The part after the trampoline exists: save the bytes, fill the slot, patch; or take it all back.\<close>

definition install_hook :: "'s os \<Rightarrow> addr \<Rightarrow> addr \<Rightarrow> addr \<Rightarrow> string \<Rightarrow> RemoteTrampoline \<Rightarrow> 's \<Rightarrow> InstalledHook option \<times> 's" where
  "install_hook os originalFunction hookedFunction trampolineVarAddr name trampoline s =
     (case ReadProcessMemory os s originalFunction (patchSize trampoline) of
        None \<Rightarrow> (None, snd (VirtualFreeEx os s (trampoline_address trampoline)))
      | Some originalBytes \<Rightarrow>
         (let (written, s) = WriteProcessMemory os s trampolineVarAddr (le_bytes (trampoline_address trampoline))
          in if \<not> written then (None, snd (VirtualFreeEx os s (trampoline_address trampoline)))
             else
              (let (patched, s) = PatchFunction os originalFunction hookedFunction (patchSize trampoline) s
               in if \<not> patched
                  then (let (_, s) = WriteProcessMemory os s trampolineVarAddr null_bytes
                        in (None, snd (VirtualFreeEx os s (trampoline_address trampoline))))
                  else (Some \<lparr>ih_canonicalName = name, ih_sourceModuleBase = 0, ih_targetModuleBase = 0,
                          ih_originalFunction = originalFunction, ih_trampolineAddress = trampoline_address trampoline,
                          ih_trampolineSlot = trampolineVarAddr, ih_originalBytes = originalBytes\<rparr>, s))))"

definition HookFunction :: "zydis \<Rightarrow> 's os \<Rightarrow> addr \<Rightarrow> addr \<Rightarrow> HookDefinition \<Rightarrow> 's \<Rightarrow> InstalledHook option \<times> 's" where
  "HookFunction zydis os originalFunction hookImageBase definition s =
     (if originalFunction = 0 then (None, s)
      else case GetRemoteExport os s hookImageBase (handlerExport definition) of None \<Rightarrow> (None, s)
      | Some handler \<Rightarrow>
         if address handler = 0 then (None, s)
         else case GetRemoteExport os s hookImageBase (trampolineExport definition) of None \<Rightarrow> (None, s)
         | Some slot \<Rightarrow>
            if address slot = 0 then (None, s)
            else
             (case CreateBypassTrampoline zydis os originalFunction s of
                (None, s) \<Rightarrow> (None, s)
              | (Some trampoline, s) \<Rightarrow>
                  install_hook os originalFunction (address handler) (address slot) (canonicalName definition) trampoline s))"

definition UnhookFunction :: "'s os \<Rightarrow> InstalledHook \<Rightarrow> 's \<Rightarrow> bool \<times> 's" where
  "UnhookFunction os hook s =
     (if ih_originalFunction hook = 0 \<or> ih_trampolineAddress hook = 0 \<or> ih_trampolineSlot hook = 0 \<or>
         ih_originalBytes hook = [] then (False, s)
      else
       (let sz = length (ih_originalBytes hook);
            (old, s) = VirtualProtectEx os s (ih_originalFunction hook) sz PAGE_EXECUTE_READWRITE
        in case old of None \<Rightarrow> (False, s)
           | Some oldProtect \<Rightarrow>
              (let (restored, s) = WriteProcessMemory os s (ih_originalFunction hook) (ih_originalBytes hook);
                   (protection, s) = VirtualProtectEx os s (ih_originalFunction hook) sz oldProtect;
                   (cacheFlushed, s) = FlushInstructionCache os s (ih_originalFunction hook) sz
               in if \<not> restored \<or> protection = None \<or> \<not> cacheFlushed then (False, s)
                  else (let (cleared, s) = WriteProcessMemory os s (ih_trampolineSlot hook) null_bytes
                        in if \<not> cleared then (False, s)
                           else VirtualFreeEx os s (ih_trampolineAddress hook)))))"

definition ReleaseUnloadedHook :: "'s os \<Rightarrow> InstalledHook \<Rightarrow> 's \<Rightarrow> bool \<times> 's" where
  "ReleaseUnloadedHook os hook s =
     (let (cleared, s) = WriteProcessMemory os s (ih_trampolineSlot hook) null_bytes;
          (freed, s) = VirtualFreeEx os s (ih_trampolineAddress hook)
      in (cleared \<and> freed, s))"

subsection \<open>Whole instructions\<close>

lemma operand_loop_flags:
  "instruction_length (operand_loop ops r) = instruction_length r \<and>
   hasRipRelativeMemory (operand_loop ops r) = (hasRipRelativeMemory r \<or> MemoryOperand True \<in> set ops) \<and>
   hasRelativeImmediate (operand_loop ops r) = (hasRelativeImmediate r \<or> ImmediateOperand True \<in> set ops)"
proof (induction ops arbitrary: r)
  case (Cons x ops)
  then show ?case by (cases x) (auto simp: Let_def)
qed simp

text \<open>
  Code splits into instructions from one offset to another when the decoder reads them one after
  the other, and it can be moved when none refers to its own address.
\<close>

inductive movable :: "zydis \<Rightarrow> byte list \<Rightarrow> nat \<Rightarrow> nat \<Rightarrow> bool" for zydis buffer where
  "movable zydis buffer t t"
| "zydis (drop t buffer) = Some (len, operands) \<Longrightarrow> 0 < len \<Longrightarrow> t < length buffer \<Longrightarrow>
   MemoryOperand True \<notin> set operands \<Longrightarrow> ImmediateOperand True \<notin> set operands \<Longrightarrow>
   movable zydis buffer (t + unat len) n \<Longrightarrow> movable zydis buffer t n"

inductive_cases movable_stepE: "movable zydis buffer t n"

text \<open>The documented bound of the decoder: an instruction lies inside the code it was read from.\<close>

definition decodes_inside :: "zydis \<Rightarrow> bool" where
  "decodes_inside zydis \<longleftrightarrow> (\<forall>code len operands. zydis code = Some (len, operands) \<longrightarrow> unat len \<le> length code)"

lemma patch_loop_movable:
  assumes "patch_loop zydis buffer t = n" "n \<noteq> 0"
  shows "movable zydis buffer t n \<and> PATCH_SIZE \<le> n \<and> n \<le> max t 269 \<and>
     (decodes_inside zydis \<and> t \<le> length buffer \<longrightarrow> n \<le> length buffer)"
  using assms
proof (induction zydis buffer t rule: patch_loop.induct)
  case (1 zydis buffer t)
  show ?case
  proof (cases "t < PATCH_SIZE \<and> t < length buffer")
    case False
    then show ?thesis using 1(2,3) by (subst (asm) patch_loop.simps) (auto intro: movable.intros split: if_splits)
  next
    case True
    then obtain i where i: "DecodeInstruction64 zydis (drop t buffer) = Some i" "instruction_length i \<noteq> 0"
      "\<not> hasRipRelativeMemory i" "\<not> hasRelativeImmediate i"
      "patch_loop zydis buffer (t + unat (instruction_length i)) = n"
      using 1(2,3) by (subst (asm) patch_loop.simps) (auto split: option.splits if_splits)
    then obtain len operands where z: "zydis (drop t buffer) = Some (len, operands)"
      "i = operand_loop operands \<lparr>instruction_length = len, hasRipRelativeMemory = False, hasRelativeImmediate = False\<rparr>"
      by (auto simp: DecodeInstruction64_def split: if_splits option.splits)
    then have len: "instruction_length i = len" "MemoryOperand True \<notin> set operands" "ImmediateOperand True \<notin> set operands"
      using i(3,4) by (simp_all add: operand_loop_flags)
    have IH: "movable zydis buffer (t + unat len) n \<and> PATCH_SIZE \<le> n \<and> n \<le> max (t + unat len) 269 \<and>
        (decodes_inside zydis \<and> t + unat len \<le> length buffer \<longrightarrow> n \<le> length buffer)"
      using "1.IH" [OF True i(1-4) i(5) 1(3)] len(1) by simp
    moreover have "movable zydis buffer t n"
      using movable.intros(2) [of zydis t buffer, OF z(1)] IH i(2) len True by (simp add: word_neq_0_conv)
    moreover have "decodes_inside zydis \<Longrightarrow> t + unat len \<le> length buffer"
      using z(1) True unfolding decodes_inside_def by fastforce
    moreover have "unat len < 256" "t < 14" using True by (simp_all add: PATCH_SIZE_def)
    ultimately show ?thesis by auto
  qed
qed

lemma CalculatePatchSize_bounds:
  "CalculatePatchSize zydis os s a = n \<Longrightarrow> n \<noteq> 0 \<Longrightarrow> PATCH_SIZE \<le> n \<and> n \<le> 269"
  using patch_loop_movable [of zydis _ 0 n] by (auto simp: CalculatePatchSize_def split: option.splits)

subsection \<open>Where a jump goes\<close>

text \<open>The processor's reading of the patch: the pushed low half and the stored high half are the
  address the return takes.\<close>

definition jump_target :: "byte list \<Rightarrow> addr option" where
  "jump_target code =
     (if length code \<ge> PATCH_SIZE \<and> code ! 0 = 0x68 \<and> take 4 (drop 5 code) = [0xC7, 0x44, 0x24, 0x04] \<and> code ! 13 = 0xC3
      then Some (of_le (take 4 (drop 1 code) @ take 4 (drop 9 code))) else None)"

lemma length_jump_code [simp]: "length (jump_code a) = PATCH_SIZE"
  by (simp add: jump_code_def PATCH_SIZE_def)

lemma le_bytes_halves: "le_bytes (ucast a :: u32) @ le_bytes (ucast (drop_bit 32 a) :: u32) = le_bytes (a :: u64)"
proof -
  have enc: "le_enc (m + n) x = le_enc m x @ le_enc n (x div 256 ^ m)" for m n x
    by (induction m arbitrary: x) (simp_all add: div_mult2_eq)
  have cut: "le_enc n (x mod 256 ^ n) = le_enc n x" for n x
  proof (induction n arbitrary: x)
    case (Suc n)
    have "x mod 256 ^ Suc n mod 256 = x mod 256" by (simp add: mod_mod_cancel)
    moreover have "x mod 256 ^ Suc n div 256 = x div 256 mod 256 ^ n"
      by (simp add: mod_mult2_eq)
    ultimately show ?case using Suc [of "x div 256"] by simp
  qed simp
  have "le_bytes a = le_enc 4 (unat a) @ le_enc 4 (unat a div 256 ^ 4)"
    using enc [of 4 4 "unat a"] by (simp add: le_bytes_def)
  moreover have "unat (ucast a :: u32) = unat a mod 256 ^ 4"
    by (simp add: unsigned_ucast_eq take_bit_eq_mod)
  moreover have "unat (ucast (drop_bit 32 a) :: u32) = unat a div 256 ^ 4 mod 256 ^ 4"
    by (simp add: unsigned_ucast_eq take_bit_eq_mod drop_bit_eq_div unat_div_distrib)
  ultimately show ?thesis using cut [of 4 "unat a"] cut [of 4 "unat a div 256 ^ 4"] by (simp add: le_bytes_def)
qed

lemma jump_code_target: "jump_target (jump_code a @ rest) = Some a"
proof -
  have "take 4 (drop 1 (jump_code a @ rest)) @ take 4 (drop 9 (jump_code a @ rest)) = le_bytes a"
    by (simp add: jump_code_def flip: le_bytes_halves)
  then show ?thesis
    by (simp add: jump_target_def of_le_le_bytes) (simp add: jump_code_def nth_append PATCH_SIZE_def)
qed

subsection \<open>What each step leaves\<close>

lemma CreateTrampoline_result:
  assumes ok: "os_ok os v" and run: "CreateTrampoline os f T k s = (done, s')" and k: "k \<le> 269"
  shows "regions v s' = regions v s \<and> (\<forall>x. outside x T (k + PATCH_SIZE) \<longrightarrow> rmem v s' x = rmem v s x) \<and>
     (done \<longrightarrow> mem_bytes (rmem v s') T (k + PATCH_SIZE) = mem_bytes (rmem v s) f k @ jump_code (f + of_nat k))"
proof (cases "ReadProcessMemory os s f k")
  case None
  then show ?thesis using run by (simp add: CreateTrampoline_def)
next
  case (Some bytes)
  have bytes: "bytes = mem_bytes (rmem v s) f k" by (rule os_read [OF ok Some])
  let ?code = "bytes @ jump_code (f + of_nat k)"
  have len: "length ?code = k + PATCH_SIZE" by (simp add: bytes)
  obtain w s1 where w: "WriteProcessMemory os s T ?code = (w, s1)" by fastforce
  show ?thesis
  proof (cases w)
    case False
    then have "unchanged v s s1" using os_write_fails [OF ok, of s T ?code s1] w by simp
    then show ?thesis using run w False Some by (simp add: CreateTrampoline_def unchanged_def)
  next
    case True
    then have s1: "rmem v s1 = mem_write (rmem v s) T ?code" "regions v s1 = regions v s"
      using os_write_ok [OF ok, of s T ?code s1] w by simp_all
    obtain old s2 where p: "VirtualProtectEx os s1 T (k + PATCH_SIZE) PAGE_EXECUTE_READ = (old, s2)" by fastforce
    then have "unchanged v s1 s2" using os_protect [OF ok] by blast
    moreover have "unchanged v s2 s'"
      using run w True Some p os_flush [OF ok] by (auto simp: CreateTrampoline_def split: if_splits)
    ultimately have "unchanged v s1 s'" by (rule unchanged_trans)
    then have "rmem v s' = mem_write (rmem v s) T ?code" "regions v s' = regions v s"
      using s1 by (simp_all add: unchanged_def)
    moreover have "mem_bytes (mem_write (rmem v s) T ?code) T (k + PATCH_SIZE) = ?code"
      using mem_bytes_mem_write [of ?code "rmem v s" T] len k by (simp add: PATCH_SIZE_def)
    ultimately show ?thesis using len by (simp add: bytes mem_write_outside)
  qed
qed

lemma PatchFunction_result:
  assumes ok: "os_ok os v" and run: "PatchFunction os f h k s = (done, s')" and k: "PATCH_SIZE \<le> k" "k \<le> 269"
  shows "regions v s' = regions v s \<and> (\<forall>x. outside x f k \<longrightarrow> rmem v s' x = rmem v s x) \<and>
     (mem_bytes (rmem v s') f k = jump_code h @ replicate (k - PATCH_SIZE) 0x90 \<or> \<not> done \<and> rmem v s' = rmem v s)"
proof -
  let ?patch = "jump_code h @ replicate (k - PATCH_SIZE) 0x90"
  have len: "length ?patch = k" using k by simp
  obtain old s1 where p: "VirtualProtectEx os s f k PAGE_EXECUTE_READWRITE = (old, s1)" by fastforce
  then have u1: "unchanged v s s1" using os_protect [OF ok] by blast
  show ?thesis
  proof (cases old)
    case None
    then show ?thesis using run p u1 by (simp add: PatchFunction_def unchanged_def)
  next
    case (Some prot)
    obtain w s2 where w: "WriteProcessMemory os s1 f ?patch = (w, s2)" by fastforce
    obtain r s3 where r: "VirtualProtectEx os s2 f k prot = (r, s3)" by fastforce
    then have u3: "unchanged v s2 s3" using os_protect [OF ok] by blast
    show ?thesis
    proof (cases w)
      case False
      then have "unchanged v s1 s2" using os_write_fails [OF ok, of s1 f ?patch s2] w by simp
      then show ?thesis using run p w r Some False u1 u3 by (simp add: PatchFunction_def unchanged_def)
    next
      case True
      then have s2: "rmem v s2 = mem_write (rmem v s1) f ?patch" "regions v s2 = regions v s1"
        using os_write_ok [OF ok, of s1 f ?patch s2] w by simp_all
      have "unchanged v s3 s'"
        using run p w r Some True os_flush [OF ok] by (auto simp: PatchFunction_def split: if_splits)
      then have m: "rmem v s' = mem_write (rmem v s) f ?patch" "regions v s' = regions v s"
        using s2 u1 u3 by (simp_all add: unchanged_def)
      moreover have "mem_bytes (mem_write (rmem v s) f ?patch) f k = ?patch"
        using mem_bytes_mem_write [of ?patch "rmem v s" f] len k by simp
      ultimately show ?thesis using len by (simp add: mem_write_outside)
    qed
  qed
qed

lemma CreateBypassTrampoline_result:
  assumes ok: "os_ok os v" and run: "CreateBypassTrampoline zydis os f s = (Some t, s')"
  shows "trampoline_address t = fst (VirtualAllocEx os s TRAMPOLINE_SIZE PAGE_READWRITE) \<and>
     trampoline_address t \<noteq> 0 \<and> patchSize t = CalculatePatchSize zydis os s f \<and>
     PATCH_SIZE \<le> patchSize t \<and> patchSize t \<le> 269 \<and>
     regions v s (trampoline_address t) = None \<and>
     regions v s' = (regions v s)(trampoline_address t \<mapsto> TRAMPOLINE_SIZE) \<and>
     (\<forall>x. outside x (trampoline_address t) TRAMPOLINE_SIZE \<longrightarrow> rmem v s' x = rmem v s x) \<and>
     (apart f (patchSize t) (trampoline_address t) TRAMPOLINE_SIZE \<longrightarrow>
        mem_bytes (rmem v s') (trampoline_address t) (patchSize t + PATCH_SIZE) =
        mem_bytes (rmem v s) f (patchSize t) @ jump_code (f + of_nat (patchSize t)))"
proof -
  let ?k = "CalculatePatchSize zydis os s f"
  obtain T s1 where a: "VirtualAllocEx os s TRAMPOLINE_SIZE PAGE_READWRITE = (T, s1)" by fastforce
  have nz: "?k \<noteq> 0" "T \<noteq> 0" using run a by (auto simp: CreateBypassTrampoline_def Let_def split: if_splits)
  obtain made s2 where c: "CreateTrampoline os f T ?k s1 = (made, s2)" by fastforce
  have r: "made" "t = \<lparr>trampoline_address = T, patchSize = ?k\<rparr>" "s' = s2"
    using run a c nz by (auto simp: CreateBypassTrampoline_def Let_def split: if_splits)
  have k: "PATCH_SIZE \<le> ?k" "?k \<le> 269" using CalculatePatchSize_bounds [OF refl nz(1)] by simp_all
  note alloc = os_alloc [OF ok a nz(2)] and create = CreateTrampoline_result [OF ok c k(2)]
  have "outside x T (?k + PATCH_SIZE)" if "outside x T TRAMPOLINE_SIZE" for x
  proof (rule outside_sub [OF that])
    show "?k + PATCH_SIZE \<le> TRAMPOLINE_SIZE"
      using k(2) unfolding TRAMPOLINE_SIZE_def PATCH_SIZE_def by linarith
  qed
  moreover have "mem_bytes (rmem v s1) f ?k = mem_bytes (rmem v s) f ?k" if "apart f ?k T TRAMPOLINE_SIZE"
    using that alloc by (intro mem_bytes_outside) auto
  ultimately show ?thesis using alloc create nz k r a by (simp add: r)
qed

text \<open>The writes of a successful hook, in order.\<close>

lemma HookFunction_steps:
  assumes "HookFunction zydis os f hookBase d s = (Some h, s')"
  obtains handler t s1 bytes s2 where
    "GetRemoteExport os s hookBase (handlerExport d) = Some handler" "address handler \<noteq> 0"
    "CreateBypassTrampoline zydis os f s = (Some t, s1)"
    "ReadProcessMemory os s1 f (patchSize t) = Some bytes"
    "WriteProcessMemory os s1 (ih_trampolineSlot h) (le_bytes (trampoline_address t)) = (True, s2)"
    "PatchFunction os f (address handler) (patchSize t) s2 = (True, s')"
    "f \<noteq> 0" "ih_trampolineSlot h \<noteq> 0" "ih_originalFunction h = f" "ih_trampolineAddress h = trampoline_address t"
    "ih_originalBytes h = bytes" "ih_canonicalName h = canonicalName d"
  using assms that
  by (auto simp: HookFunction_def install_hook_def split: if_splits option.splits prod.splits)

lemma HookFunction_result:
  assumes ok: "os_ok os v" and run: "HookFunction zydis os f hookBase d s = (Some h, s')"
    and T: "T = ih_trampolineAddress h" and slot: "slot = ih_trampolineSlot h" and k: "k = length (ih_originalBytes h)"
    and apart: "apart f k T TRAMPOLINE_SIZE" "apart slot 8 T TRAMPOLINE_SIZE" "apart slot 8 f k"
  shows "\<exists>handler. GetRemoteExport os s hookBase (handlerExport d) = Some handler \<and>
     mem_bytes (rmem v s') f k = jump_code (address handler) @ replicate (k - PATCH_SIZE) 0x90 \<and>
     mem_bytes (rmem v s') T (k + PATCH_SIZE) = mem_bytes (rmem v s) f k @ jump_code (f + of_nat k) \<and>
     mem_bytes (rmem v s') slot 8 = le_bytes T \<and>
     ih_originalBytes h = mem_bytes (rmem v s) f k \<and> ih_originalFunction h = f \<and> PATCH_SIZE \<le> k \<and>
     f \<noteq> 0 \<and> T \<noteq> 0 \<and> slot \<noteq> 0 \<and> regions v s' = (regions v s)(T \<mapsto> TRAMPOLINE_SIZE) \<and>
     (\<forall>x. outside x f k \<longrightarrow> outside x T TRAMPOLINE_SIZE \<longrightarrow> outside x slot 8 \<longrightarrow> rmem v s' x = rmem v s x)"
proof -
  obtain handler t s1 bytes s2 where st:
    "GetRemoteExport os s hookBase (handlerExport d) = Some handler" "address handler \<noteq> 0"
    "CreateBypassTrampoline zydis os f s = (Some t, s1)"
    "ReadProcessMemory os s1 f (patchSize t) = Some bytes"
    "WriteProcessMemory os s1 slot (le_bytes (trampoline_address t)) = (True, s2)"
    "PatchFunction os f (address handler) (patchSize t) s2 = (True, s')"
    "f \<noteq> 0" "slot \<noteq> 0" "ih_originalFunction h = f" "T = trampoline_address t" "ih_originalBytes h = bytes"
    by (rule HookFunction_steps [OF run]) (simp add: T slot)
  have bytes: "bytes = mem_bytes (rmem v s1) f (patchSize t)" by (rule os_read [OF ok st(4)])
  then have k': "patchSize t = k" by (simp add: k st(11))
  note bypass = CreateBypassTrampoline_result [OF ok st(3), folded st(10), unfolded k']
  have b: "PATCH_SIZE \<le> k" "k \<le> 269" using bypass by simp_all
  note wrote = os_write_ok [OF ok st(5), folded st(10)]
  note patch = PatchFunction_result [OF ok st(6) [unfolded k'] b]
  have tsub: "apart f k T (k + PATCH_SIZE)" "apart slot 8 T (k + PATCH_SIZE)"
    using b apart by (auto intro!: apart_sub [OF apart(1)] apart_sub [OF apart(2)] simp: TRAMPOLINE_SIZE_def PATCH_SIZE_def)
  have len8: "length (le_bytes T) = 8" by simp
  have f_kept: "mem_bytes (rmem v s1) f k = mem_bytes (rmem v s) f k"
    using bypass apart(1) by (intro mem_bytes_outside) auto
  have "mem_bytes (rmem v s') slot 8 = mem_bytes (rmem v s2) slot 8"
    using patch apart(3) by (intro mem_bytes_outside) auto
  also have "\<dots> = le_bytes T"
    using wrote mem_bytes_mem_write [of "le_bytes T" "rmem v s1" slot] len8 by simp
  finally have s_slot: "mem_bytes (rmem v s') slot 8 = le_bytes T" .
  have "mem_bytes (rmem v s') T (k + PATCH_SIZE) = mem_bytes (rmem v s2) T (k + PATCH_SIZE)"
    using patch tsub(1) by (intro mem_bytes_outside [where a = f and n = k]) (auto simp: apart_sym)
  also have "\<dots> = mem_bytes (rmem v s1) T (k + PATCH_SIZE)"
    using wrote tsub(2) by (simp add: apart_write [where n = 8] apart_sym)
  also have "\<dots> = mem_bytes (rmem v s) f k @ jump_code (f + of_nat k)" using bypass apart(1) by blast
  finally have s_T: "mem_bytes (rmem v s') T (k + PATCH_SIZE) = mem_bytes (rmem v s) f k @ jump_code (f + of_nat k)" .
  have "rmem v s' x = rmem v s x" if "outside x f k" "outside x T TRAMPOLINE_SIZE" "outside x slot 8" for x
    using that patch wrote bypass len8 by (simp add: mem_write_outside)
  then show ?thesis
    using s_slot s_T patch wrote bypass b st f_kept bytes k' by auto
qed

lemma UnhookFunction_result:
  assumes ok: "os_ok os v" and run: "UnhookFunction os h s = (True, s')"
    and T: "T = ih_trampolineAddress h" and slot: "slot = ih_trampolineSlot h" and f: "f = ih_originalFunction h"
    and k: "k = length (ih_originalBytes h)" "k \<le> 2 ^ 64"
    and region: "regions v s T = Some TRAMPOLINE_SIZE"
    and apart: "apart f k T TRAMPOLINE_SIZE" "apart slot 8 T TRAMPOLINE_SIZE" "apart slot 8 f k"
  shows "mem_bytes (rmem v s') f k = ih_originalBytes h \<and> mem_bytes (rmem v s') slot 8 = null_bytes \<and>
     regions v s' = (regions v s)(T := None) \<and>
     (\<forall>x. outside x f k \<longrightarrow> outside x T TRAMPOLINE_SIZE \<longrightarrow> outside x slot 8 \<longrightarrow> rmem v s' x = rmem v s x)"
proof -
  obtain old s1 where p: "VirtualProtectEx os s f k PAGE_EXECUTE_READWRITE = (old, s1)" by fastforce
  obtain prot where prot: "old = Some prot" using run p by (cases old) (auto simp: UnhookFunction_def f k Let_def split: if_splits)
  obtain w s2 where w: "WriteProcessMemory os s1 f (ih_originalBytes h) = (w, s2)" by fastforce
  obtain r s3 where r: "VirtualProtectEx os s2 f k prot = (r, s3)" by fastforce
  obtain c s4 where c: "FlushInstructionCache os s3 f k = (c, s4)" by fastforce
  obtain z s5 where z: "WriteProcessMemory os s4 slot null_bytes = (z, s5)" by fastforce
  have st: "w" "z" "VirtualFreeEx os s5 T = (True, s')"
    using run p prot w r c z by (auto simp: UnhookFunction_def f k T slot Let_def split: if_splits)
  have u: "unchanged v s s1" "unchanged v s2 s3" "unchanged v s3 s4"
    using os_protect [OF ok] os_flush [OF ok] p r c by blast+
  have m2: "rmem v s2 = mem_write (rmem v s1) f (ih_originalBytes h)" "regions v s2 = regions v s1"
    using os_write_ok [OF ok, of s1 f "ih_originalBytes h" s2] w st(1) by simp_all
  have m5: "rmem v s5 = mem_write (rmem v s4) slot null_bytes" "regions v s5 = regions v s4"
    using os_write_ok [OF ok, of s4 slot null_bytes s5] z st(2) by simp_all
  have len: "length null_bytes = 8" by (simp add: null_bytes_def)
  have reg5: "regions v s5 = regions v s" using u m2 m5 by (simp add: unchanged_def)
  have free: "regions v s' = (regions v s)(T := None)" "\<And>x. outside x T TRAMPOLINE_SIZE \<Longrightarrow> rmem v s' x = rmem v s5 x"
    using os_free [OF ok st(3)] region unfolding reg5 by auto
  have m4: "rmem v s4 = mem_write (rmem v s) f (ih_originalBytes h)" using u m2 by (simp add: unchanged_def)
  have "mem_bytes (rmem v s') f k = mem_bytes (rmem v s5) f k"
    using free(2) apart(1) by (intro mem_bytes_outside) auto
  also have "\<dots> = mem_bytes (rmem v s4) f k"
    using m5(1) apart(3) len by (simp add: apart_write [where n = 8] apart_sym)
  also have "\<dots> = ih_originalBytes h"
    using m4 k mem_bytes_mem_write [of "ih_originalBytes h" "rmem v s" f] by simp
  finally have f_bytes: "mem_bytes (rmem v s') f k = ih_originalBytes h" .
  have "mem_bytes (rmem v s') slot 8 = mem_bytes (rmem v s5) slot 8"
    using free(2) apart(2) by (intro mem_bytes_outside) auto
  also have "\<dots> = null_bytes"
    using m5(1) len mem_bytes_mem_write [of null_bytes "rmem v s4" slot] by simp
  finally have "mem_bytes (rmem v s') slot 8 = null_bytes" .
  moreover have "rmem v s' x = rmem v s x" if "outside x f k" "outside x T TRAMPOLINE_SIZE" "outside x slot 8" for x
    using that free(2) m5(1) m4 len k(1) by (simp add: mem_write_outside)
  ultimately show ?thesis using f_bytes free(1) by blast
qed

subsection \<open>Properties\<close>

text \<open>C34: A patch covers whole movable instructions. The size is 0 or at least 14 and at most 269
  (so code and jump fit the trampoline of 1024 bytes), the bytes read from the function split
  into instructions that end exactly there, and none of them refers to its own address; with
  a decoder that stays inside its input the size stays within the 32 bytes read.\<close>

theorem patch_size_whole_instructions:
  assumes "CalculatePatchSize zydis os s f = n" "n \<noteq> 0"
  shows "PATCH_SIZE \<le> n \<and> n + PATCH_SIZE \<le> TRAMPOLINE_SIZE \<and>
     (\<exists>buffer. ReadProcessMemory os s f 32 = Some buffer \<and> movable zydis buffer 0 n \<and>
        (decodes_inside zydis \<longrightarrow> n \<le> length buffer))"
proof -
  obtain buffer where b: "ReadProcessMemory os s f 32 = Some buffer" "patch_loop zydis buffer 0 = n"
    using assms by (auto simp: CalculatePatchSize_def split: option.splits)
  from patch_loop_movable [OF b(2) assms(2)] b(1) show ?thesis
    by (auto simp: PATCH_SIZE_def TRAMPOLINE_SIZE_def)
qed


subsection \<open>A run\<close>

definition nop_decoder :: zydis where
  "nop_decoder code = Some (1, [])"

definition sample_definition :: HookDefinition where
  "sample_definition = \<lparr>moduleName = ''m'', exportName = ''A'', handlerExport = ''H'', trampolineExport = ''T'', canonicalName = ''m!A''\<rparr>"

lemma nop_patch: "length buffer = 32 \<Longrightarrow> patch_loop nop_decoder buffer 0 = 14"
proof -
  assume "length buffer = 32"
  moreover from this have "buffer \<noteq> []" by auto
  ultimately show ?thesis by (simp add: patch_loop.simps PATCH_SIZE_def DecodeInstruction64_def nop_decoder_def)
qed

lemma nop_patch_size: "CalculatePatchSize nop_decoder (sim_os failing) s f = 14"
  by (simp add: CalculatePatchSize_def nop_patch)

lemma sample_hooked:
  "\<exists>h s1. HookFunction nop_decoder (sim_os {}) 0x3000 0 sample_definition sample_process = (Some h, s1) \<and>
     ih_trampolineAddress h = 0x5000 \<and> ih_trampolineSlot h = 0x2000 \<and> length (ih_originalBytes h) = 14"
  unfolding HookFunction_def sample_definition_def
  by (simp add: sample_exports CreateBypassTrampoline_def nop_patch_size)
     (simp add: sim_os_def ticked_def sample_process_def CreateTrampoline_def install_hook_def PatchFunction_def Let_def)

lemma sample_apart:
  "apart 0x3000 14 0x5000 TRAMPOLINE_SIZE" "apart 0x2000 8 0x5000 TRAMPOLINE_SIZE" "apart (0x2000 :: addr) 8 0x3000 14"
  by (rule apart_below; simp add: TRAMPOLINE_SIZE_def)+

lemma sample_refused:
  "\<exists>s'. HookFunction nop_decoder (sim_os {7}) 0x3000 0 sample_definition sample_process = (None, s') \<and>
     mem_bytes (sim_mem s') 0x3000 14 = jump_code 0x1000 \<and> mem_bytes (sim_mem s') 0x2000 8 = null_bytes \<and>
     sim_regions s' 0x5000 = None"
proof -
  have len: "length (jump_code 0x1000) = 14" "length null_bytes = 8" by (simp_all add: jump_code_def null_bytes_def)
  have written: "mem_bytes (mem_write (mem_write m 0x3000 (jump_code 0x1000)) 0x2000 null_bytes) 0x3000 14 = jump_code 0x1000"
    "mem_bytes (mem_write (mem_write m 0x3000 (jump_code 0x1000)) 0x2000 null_bytes) 0x2000 8 = null_bytes" for m
    using mem_bytes_mem_write [of "jump_code 0x1000" m "0x3000"]
      mem_bytes_mem_write [of null_bytes "mem_write m 0x3000 (jump_code 0x1000)" "0x2000"]
      apart_write [OF sample_apart(3) [unfolded apart_sym [of _ _ "0x3000"]], of null_bytes] len by simp_all
  show ?thesis
    unfolding HookFunction_def sample_definition_def
    by (simp add: sample_exports CreateBypassTrampoline_def nop_patch_size)
       (simp add: sim_os_def ticked_def sample_process_def CreateTrampoline_def install_hook_def PatchFunction_def Let_def
         written, simp add: PATCH_SIZE_def written)
qed

lemma patch_size_whole_instructions_witness:
  "movable nop_decoder (mem_bytes export_image 0x3000 32) 0 14"
  using patch_size_whole_instructions [OF nop_patch_size [of "{}" sample_process "0x3000"]]
  by (simp add: sample_process_def)


subsection \<open>A hook that fails\<close>

text \<open>Releasing a trampoline, whether it succeeds or not, stays inside its region.\<close>

lemma released:
  assumes "os_ok os v" "VirtualFreeEx os s T = (freed, s')" "regions v s T = Some n" "outside x T n"
  shows "rmem v s' x = rmem v s x"
  using assms os_free [of os v s T s'] os_free_fails [of os v s T s']
  by (cases freed) (auto simp: unchanged_def)

lemma CreateBypassTrampoline_fails:
  assumes ok: "os_ok os v" and run: "CreateBypassTrampoline zydis os f s = (None, s')"
    and T: "T = fst (VirtualAllocEx os s TRAMPOLINE_SIZE PAGE_READWRITE)"
  shows "\<forall>x. outside x T TRAMPOLINE_SIZE \<longrightarrow> rmem v s' x = rmem v s x"
proof (cases "CalculatePatchSize zydis os s f = 0")
  case True
  then show ?thesis using run by (simp add: CreateBypassTrampoline_def)
next
  case False
  let ?k = "CalculatePatchSize zydis os s f"
  obtain s1 where a: "VirtualAllocEx os s TRAMPOLINE_SIZE PAGE_READWRITE = (T, s1)" using T by (metis prod.collapse)
  show ?thesis
  proof (cases "T = 0")
    case True
    then have "s' = s1" using run a False by (simp add: CreateBypassTrampoline_def Let_def)
    then show ?thesis using os_alloc_fails [OF ok] a True by (simp add: unchanged_def)
  next
    case nz: False
    obtain made s2 where c: "CreateTrampoline os f T ?k s1 = (made, s2)" by fastforce
    obtain freed s3 where fr: "VirtualFreeEx os s2 T = (freed, s3)" by fastforce
    have "\<not> made" "s' = s3"
      using run a c fr False nz by (auto simp: CreateBypassTrampoline_def Let_def split: if_splits)
    moreover have k: "?k \<le> 269" using CalculatePatchSize_bounds [OF refl False] by simp
    have "?k + PATCH_SIZE \<le> TRAMPOLINE_SIZE"
      using k unfolding TRAMPOLINE_SIZE_def PATCH_SIZE_def by linarith
    note room = this
    have kept: "rmem v s2 x = rmem v s x" if "outside x T TRAMPOLINE_SIZE" for x
      using CreateTrampoline_result [OF ok c k] os_alloc [OF ok a nz] outside_sub [OF that room] that by simp
    have reg: "regions v s2 T = Some TRAMPOLINE_SIZE"
      using CreateTrampoline_result [OF ok c k] os_alloc [OF ok a nz] by simp
    ultimately show ?thesis using released [OF ok fr reg] kept by simp
  qed
qed

text \<open>Clearing the slot, whether it succeeds or not, stays inside the slot.\<close>

lemma slot_cleared:
  assumes "os_ok os v" "WriteProcessMemory os s slot null_bytes = (z, s')"
  shows "regions v s' = regions v s" "outside x slot 8 \<Longrightarrow> rmem v s' x = rmem v s x"
  using assms os_write_ok [of os v s slot null_bytes s'] os_write_fails [of os v s slot null_bytes s']
  by (cases z; auto simp: unchanged_def mem_write_outside null_bytes_def)+

text \<open>An installation that is refused before it patches: the trampoline is released.\<close>

lemma install_hook_early:
  assumes ok: "os_ok os v" and run: "install_hook os f handler slot name tr s = (None, s')" and tr: "trampoline_address tr = T"
    and early: "ReadProcessMemory os s f (patchSize tr) = None \<or> \<not> fst (WriteProcessMemory os s slot (le_bytes T))"
    and region: "regions v s T = Some TRAMPOLINE_SIZE" and x: "outside x T TRAMPOLINE_SIZE"
  shows "rmem v s' x = rmem v s x"
proof -
  obtain w s1 where w: "WriteProcessMemory os s slot (le_bytes T) = (w, s1)" by fastforce
  have "\<exists>s0. unchanged v s s0 \<and> s' = snd (VirtualFreeEx os s0 T)"
  proof (cases "ReadProcessMemory os s f (patchSize tr)")
    case None
    then have "s' = snd (VirtualFreeEx os s T)" using run tr by (simp add: install_hook_def)
    then show ?thesis by (intro exI [of _ s]) simp
  next
    case (Some bytes)
    then have "\<not> w" using early w by simp
    then have "s' = snd (VirtualFreeEx os s1 T)" using run tr w Some by (simp add: install_hook_def)
    moreover have "unchanged v s s1" using w \<open>\<not> w\<close> by (intro os_write_fails [OF ok]) simp
    ultimately show ?thesis by blast
  qed
  then obtain s0 freed where s0: "unchanged v s s0" "VirtualFreeEx os s0 T = (freed, s')" by (metis prod.collapse)
  then have "regions v s0 T = Some TRAMPOLINE_SIZE" using region by (simp add: unchanged_def)
  then show ?thesis using released [OF ok s0(2) _ x] s0(1) by (simp add: unchanged_def)
qed

text \<open>One that is refused after it tried to patch: slot and trampoline are given up, the patch stays as it is.\<close>

lemma install_hook_late:
  assumes ok: "os_ok os v" and run: "install_hook os f handler slot name tr s = (None, s')"
    and tr: "trampoline_address tr = T" "patchSize tr = k" "PATCH_SIZE \<le> k" "k \<le> 269"
    and late: "ReadProcessMemory os s f k \<noteq> None" "WriteProcessMemory os s slot (le_bytes T) = (True, s1)"
    and region: "regions v s T = Some TRAMPOLINE_SIZE" and ap: "apart f k T TRAMPOLINE_SIZE" "apart f k slot 8"
  shows "(\<forall>x. outside x f k \<longrightarrow> outside x T TRAMPOLINE_SIZE \<longrightarrow> outside x slot 8 \<longrightarrow> rmem v s' x = rmem v s x) \<and>
     (mem_bytes (rmem v s') f k = mem_bytes (rmem v s) f k \<or> jump_target (mem_bytes (rmem v s') f k) = Some handler)"
proof -
  obtain p s2 where p: "PatchFunction os f handler k s1 = (p, s2)" by fastforce
  obtain z s3 where z: "WriteProcessMemory os s2 slot null_bytes = (z, s3)" by fastforce
  have "s' = snd (VirtualFreeEx os s3 T)" using run tr late p z by (auto simp: install_hook_def split: if_splits)
  then obtain freed where freed: "VirtualFreeEx os s3 T = (freed, s')" by (metis prod.collapse)
  have s1: "rmem v s1 = mem_write (rmem v s) slot (le_bytes T)" "regions v s1 = regions v s"
    using os_write_ok [OF ok, of s slot "le_bytes T" s1] late by simp_all
  note s2 = PatchFunction_result [OF ok p tr(3,4)]
  have "regions v s3 T = Some TRAMPOLINE_SIZE" using slot_cleared(1) [OF ok z] s2 s1(2) region by simp
  note s' = released [OF ok freed this]
  have "mem_bytes (rmem v s') f k = mem_bytes (rmem v s3) f k" by (rule mem_bytes_outside [OF ap(1)]) (rule s')
  also have "\<dots> = mem_bytes (rmem v s2) f k" by (rule mem_bytes_outside [OF ap(2)]) (rule slot_cleared(2) [OF ok z])
  finally have patch: "mem_bytes (rmem v s') f k = mem_bytes (rmem v s2) f k" .
  have "mem_bytes (rmem v s1) f k = mem_bytes (rmem v s) f k" unfolding s1(1) by (rule apart_write [OF ap(2)]) simp
  moreover have "rmem v s' x = rmem v s x" if "outside x f k" "outside x T TRAMPOLINE_SIZE" "outside x slot 8" for x
    using that s1(1) s2 slot_cleared(2) [OF ok z] s' by (simp add: mem_write_outside)
  ultimately show ?thesis
    using patch s2 jump_code_target [of handler "replicate (k - PATCH_SIZE) 0x90"] by auto
qed

text \<open>C33: A refused hook leaves the function alone, or is the patch itself. When an installation is
  refused, everything outside the trampoline, the slot and the function is unchanged; and the
  bytes of the function are the original ones unless they are the complete patch.\<close>

theorem refused_hook_outcome:
  assumes "os_ok os v" "HookFunction zydis os f hookBase d s = (None, s')"
    and "T = fst (VirtualAllocEx os s TRAMPOLINE_SIZE PAGE_READWRITE)" "k = CalculatePatchSize zydis os s f"
    and "GetRemoteExport os s hookBase (handlerExport d) = Some handler"
    and "GetRemoteExport os s hookBase (trampolineExport d) = Some slot"
    and "apart f k T TRAMPOLINE_SIZE" "apart f k (address slot) 8"
  shows "(\<forall>x. outside x f k \<longrightarrow> outside x T TRAMPOLINE_SIZE \<longrightarrow> outside x (address slot) 8 \<longrightarrow> rmem v s' x = rmem v s x) \<and>
     (mem_bytes (rmem v s') f k = mem_bytes (rmem v s) f k \<or>
      jump_target (mem_bytes (rmem v s') f k) = Some (address handler))"
proof -
  have safe: ?thesis if "\<forall>x. outside x T TRAMPOLINE_SIZE \<longrightarrow> rmem v s' x = rmem v s x"
    using that assms(7) mem_bytes_outside [of f k T TRAMPOLINE_SIZE "rmem v s'" "rmem v s"] by auto
  obtain t s1 where b: "CreateBypassTrampoline zydis os f s = (t, s1)" by fastforce
  show ?thesis
  proof (cases "f = 0 \<or> address handler = 0 \<or> address slot = 0")
    case True
    then have "s' = s" using assms(2) unfolding HookFunction_def assms(5,6) by (auto split: if_splits)
    then show ?thesis by simp
  next
    case nz: False
    show ?thesis
    proof (cases t)
      case None
      then have "s' = s1" using assms(2,5,6) nz b by (simp add: HookFunction_def)
      then show ?thesis using safe CreateBypassTrampoline_fails [OF assms(1) _ assms(3), of zydis f s1] b None by simp
    next
      case (Some tr)
      note bypass = CreateBypassTrampoline_result [OF assms(1) b [unfolded Some]]
      have tr: "trampoline_address tr = T" "patchSize tr = k" using bypass assms(3,4) by simp_all
      have s1: "regions v s1 T = Some TRAMPOLINE_SIZE" "\<And>x. outside x T TRAMPOLINE_SIZE \<Longrightarrow> rmem v s1 x = rmem v s x"
        and k: "PATCH_SIZE \<le> k" "k \<le> 269" using bypass tr by simp_all
      have inst: "install_hook os f (address handler) (address slot) (canonicalName d) tr s1 = (None, s')"
        using assms(2) nz b unfolding HookFunction_def assms(5,6) Some by simp
      obtain w s2 where w: "WriteProcessMemory os s1 (address slot) (le_bytes T) = (w, s2)" by fastforce
      show ?thesis
      proof (cases "ReadProcessMemory os s1 f k = None \<or> \<not> w")
        case True
        then show ?thesis using safe install_hook_early [OF assms(1) inst tr(1) _ s1(1)] s1(2) tr(2) w by simp
      next
        case False
        then have "WriteProcessMemory os s1 (address slot) (le_bytes T) = (True, s2)" using w by simp
        from install_hook_late [OF assms(1) inst tr k _ this s1(1) assms(7,8)] False
        show ?thesis using s1(2) mem_bytes_outside [OF assms(7), of "rmem v s1" "rmem v s"] by simp
      qed
    qed
  qed
qed

lemma refused_hook_outcome_witness:
  "\<exists>s'. HookFunction nop_decoder (sim_os {7}) 0x3000 0 sample_definition sample_process = (None, s') \<and>
     (mem_bytes (sim_mem s') 0x3000 14 = mem_bytes (sim_mem sample_process) 0x3000 14 \<or>
      jump_target (mem_bytes (sim_mem s') 0x3000 14) = Some 0x1000)"
proof -
  obtain s' where s': "HookFunction nop_decoder (sim_os {7}) 0x3000 0 sample_definition sample_process = (None, s')"
    using sample_refused by blast
  have T: "0x5000 = fst (VirtualAllocEx (sim_os {7}) sample_process TRAMPOLINE_SIZE PAGE_READWRITE)"
    by (simp add: sim_os_def sample_process_def)
  show ?thesis
    using refused_hook_outcome [OF sim_os_ok s' T nop_patch_size [symmetric], where handler = "\<lparr>address = 0x1000, forwarder = []\<rparr>"
        and slot = "\<lparr>address = 0x2000, forwarder = []\<rparr>"] s' sample_apart
    by (auto simp: sample_definition_def sample_exports apart_sym)
qed

text \<open>C35: The second outcome is real. In a run where only the protection cannot be restored after the
  patch was written, the installation is refused, its trampoline is released and its slot
  cleared, and yet the function jumps to the handler, which then calls through the cleared slot.\<close>

theorem refused_hook_left_installed:
  "\<exists>s'. HookFunction nop_decoder (sim_os {7}) 0x3000 0 sample_definition sample_process = (None, s') \<and>
     jump_target (mem_bytes (sim_mem s') 0x3000 14) = Some 0x1000 \<and> mem_bytes (sim_mem s') 0x2000 8 = le_bytes (0 :: u64) \<and>
     sim_regions s' 0x5000 = None"
proof -
  obtain s' where s': "HookFunction nop_decoder (sim_os {7}) 0x3000 0 sample_definition sample_process = (None, s')"
    "mem_bytes (sim_mem s') 0x3000 14 = jump_code 0x1000" "mem_bytes (sim_mem s') 0x2000 8 = null_bytes" "sim_regions s' 0x5000 = None"
    using sample_refused by blast
  then show ?thesis using jump_code_target [of "0x1000" "[]"] by (auto simp: null_bytes_def)
qed

end
