(* ===== verification/Process_Manager.thy ===== *)
theory Process_Manager
  imports Remote_Exports
begin

section \<open>Injecting a DLL\<close>

text \<open>
  \<open>InjectDll\<close> and \<open>ReflectiveDLLInject\<close> of \<open>src/apiscope/process_manager.cpp\<close>. The file and the
  local allocation are parameters; the local copy of the image is a byte list of the size of the
  image, zero at first. The relocation pass works in place: it reads the blocks out of the image it
  is changing, and a write outside the image is an outcome of its own. Positions in the image are
  natural numbers, since an image of 32-bit size at a user address does not wrap.
\<close>

definition IsRangeWithin :: "nat \<Rightarrow> nat \<Rightarrow> nat \<Rightarrow> bool" where
  "IsRangeWithin offset len bufferSize \<longleftrightarrow> offset \<le> bufferSize \<and> len \<le> bufferSize - offset"

lemma IsRangeWithin_iff: "IsRangeWithin offset len n \<longleftrightarrow> offset + len \<le> n"
  by (auto simp: IsRangeWithin_def)

definition IMAGE_SCN_MEM_EXECUTE :: u32 where "IMAGE_SCN_MEM_EXECUTE = 0x20000000"
definition IMAGE_SCN_MEM_READ :: u32 where "IMAGE_SCN_MEM_READ = 0x40000000"
definition IMAGE_SCN_MEM_WRITE :: u32 where "IMAGE_SCN_MEM_WRITE = 0x80000000"
definition IMAGE_REL_BASED_DIR64 :: u16 where "IMAGE_REL_BASED_DIR64 = 10"

definition GetMemoryProtection :: "u32 \<Rightarrow> u32" where
  "GetMemoryProtection characteristics =
     (let isExecutable = and characteristics IMAGE_SCN_MEM_EXECUTE \<noteq> 0;
          isReadable = and characteristics IMAGE_SCN_MEM_READ \<noteq> 0;
          isWritable = and characteristics IMAGE_SCN_MEM_WRITE \<noteq> 0
      in if isExecutable \<and> isWritable then PAGE_EXECUTE_READWRITE
         else if isExecutable \<and> \<not> isWritable \<and> isReadable then PAGE_EXECUTE_READ
         else if isExecutable \<and> \<not> isWritable \<and> \<not> isReadable then PAGE_EXECUTE
         else if \<not> isExecutable \<and> isWritable then PAGE_READWRITE
         else if \<not> isExecutable \<and> \<not> isWritable \<and> isReadable then PAGE_READONLY
         else PAGE_NOACCESS)"

subsection \<open>Sections\<close>

definition SIZEOF_SECTION_HEADER :: nat where "SIZEOF_SECTION_HEADER = 40"

record section_header =
  VirtualSize :: u32
  SectionAddress :: u32
  SizeOfRawData :: u32
  PointerToRawData :: u32
  Characteristics :: u32

definition section_header_of :: "byte list \<Rightarrow> nat \<Rightarrow> section_header" where
  "section_header_of bs off = \<lparr>VirtualSize = b_u32 bs (off + 8), SectionAddress = b_u32 bs (off + 12),
     SizeOfRawData = b_u32 bs (off + 16), PointerToRawData = b_u32 bs (off + 20), Characteristics = b_u32 bs (off + 36)\<rparr>"

text \<open>\<open>IMAGE_FIRST_SECTION\<close> and the headers from there.\<close>

definition section_headers_offset :: "byte list \<Rightarrow> nt_headers \<Rightarrow> nat" where
  "section_headers_offset file nt = unat (b_u32 file 60) + 24 + unat (SizeOfOptionalHeader nt)"

definition section_headers :: "byte list \<Rightarrow> nt_headers \<Rightarrow> section_header list" where
  "section_headers file nt = map (\<lambda>i. section_header_of file (section_headers_offset file nt + SIZEOF_SECTION_HEADER * i))
     [0..<unat (NumberOfSections nt)]"

fun copy_sections :: "byte list \<Rightarrow> section_header list \<Rightarrow> byte list \<Rightarrow> byte list option" where
  "copy_sections file [] img = Some img"
| "copy_sections file (sec # sections) img =
     (if \<not> IsRangeWithin (unat (PointerToRawData sec)) (unat (SizeOfRawData sec)) (length file) \<or>
         \<not> IsRangeWithin (unat (SectionAddress sec)) (unat (SizeOfRawData sec)) (length img) then None
      else copy_sections file sections (list_write img (unat (SectionAddress sec))
        (take (unat (SizeOfRawData sec)) (drop (unat (PointerToRawData sec)) file))))"

text \<open>The local image before relocation: zeros, the headers, the sections.\<close>

definition layout :: "byte list \<Rightarrow> nt_headers \<Rightarrow> byte list option" where
  "layout file nt = copy_sections file (section_headers file nt)
     (list_write (replicate (unat (SizeOfImage nt)) 0) 0 (take (unat (SizeOfHeaders nt)) file))"

subsection \<open>Relocation\<close>

datatype relocation = Relocated "byte list" | InvalidRelocation | OutOfBounds

definition add_at :: "u64 \<Rightarrow> nat \<Rightarrow> byte list \<Rightarrow> byte list" where
  "add_at delta target img = list_write img target (le_bytes (b_u64 img target + delta))"

fun relocate_entries :: "u64 \<Rightarrow> nat \<Rightarrow> nat list \<Rightarrow> byte list \<Rightarrow> relocation" where
  "relocate_entries delta reloc [] img = Relocated img"
| "relocate_entries delta reloc (i # entries) img =
     (let relocData = b_u16 img (reloc + 8 + 2 * i);
          type = drop_bit 12 relocData;
          offset = and relocData 0xFFF
      in if type = IMAGE_REL_BASED_DIR64
         then (let va = b_u32 img reloc
               in if \<not> IsRangeWithin (unat (va + ucast offset)) 8 (length img) then InvalidRelocation
                  else if length img < unat va + unat offset + 8 then OutOfBounds
                  else relocate_entries delta reloc entries (add_at delta (unat va + unat offset) img))
         else relocate_entries delta reloc entries img)"

function relocation_loop :: "u64 \<Rightarrow> nat \<Rightarrow> nat \<Rightarrow> byte list \<Rightarrow> relocation" where
  "relocation_loop delta relocationEnd reloc img =
     (if reloc + 8 \<le> relocationEnd \<and> b_u32 img reloc \<noteq> 0
      then if unat (b_u32 img (reloc + 4)) < 8 \<or> relocationEnd < reloc + unat (b_u32 img (reloc + 4))
        then InvalidRelocation
        else (case relocate_entries delta reloc [0..<(unat (b_u32 img (reloc + 4)) - 8) div 2] img of
            Relocated img' \<Rightarrow> relocation_loop delta relocationEnd (reloc + unat (b_u32 img' (reloc + 4))) img'
          | InvalidRelocation \<Rightarrow> InvalidRelocation
          | OutOfBounds \<Rightarrow> OutOfBounds)
      else Relocated img)"
  by pat_completeness auto

text \<open>
  The advance is read after the block was processed. It may be 0, when the block patched its own
  size, but then the next turn stops.
\<close>

termination
proof (relation "measures [\<lambda>(_, relocationEnd, reloc, _). relocationEnd - reloc,
    \<lambda>(_, _, reloc, img). unat (b_u32 img (reloc + 4))]")
  fix delta :: u64 and relocationEnd reloc :: nat and img img' :: "byte list"
  assume "reloc + 8 \<le> relocationEnd \<and> b_u32 img reloc \<noteq> 0"
    and "\<not> (unat (b_u32 img (reloc + 4)) < 8 \<or> relocationEnd < reloc + unat (b_u32 img (reloc + 4)))"
  then show "((delta, relocationEnd, reloc + unat (b_u32 img' (reloc + 4)), img'), delta, relocationEnd, reloc, img)
      \<in> measures [\<lambda>(_, relocationEnd, reloc, _). relocationEnd - reloc,
          \<lambda>(_, _, reloc, img). unat (b_u32 img (reloc + 4))]"
    by (cases "unat (b_u32 img' (reloc + 4)) = 0") auto
qed simp

declare relocation_loop.simps [simp del]

definition relocate :: "nt_headers \<Rightarrow> addr \<Rightarrow> byte list \<Rightarrow> relocation" where
  "relocate nt remoteDllBase img =
     (let delta = remoteDllBase - ImageBase nt
      in if delta \<noteq> 0 \<and> RelocSize nt \<noteq> 0
         then if \<not> IsRangeWithin (unat (RelocAddress nt)) (unat (RelocSize nt)) (length img) then InvalidRelocation
           else relocation_loop delta (unat (RelocAddress nt) + unat (RelocSize nt)) (unat (RelocAddress nt)) img
         else Relocated img)"

subsection \<open>The injection\<close>

fun protect_sections :: "'s os \<Rightarrow> addr \<Rightarrow> nat \<Rightarrow> section_header list \<Rightarrow> 's \<Rightarrow> bool \<times> 's" where
  "protect_sections os remoteDllBase dllImageSize [] s = (True, s)"
| "protect_sections os remoteDllBase dllImageSize (sec # sections) s =
     (if 0 < unat (VirtualSize sec)
      then if \<not> IsRangeWithin (unat (SectionAddress sec)) (unat (VirtualSize sec)) dllImageSize then (False, s)
        else (let (old, s) = VirtualProtectEx os s (remoteDllBase + ucast (SectionAddress sec)) (unat (VirtualSize sec))
                (GetMemoryProtection (Characteristics sec))
              in if old = None then (False, s) else protect_sections os remoteDllBase dllImageSize sections s)
      else protect_sections os remoteDllBase dllImageSize sections s)"

text \<open>Steps 7 and 8: write the image, protect its sections, flush.\<close>

definition map_image :: "'s os \<Rightarrow> addr \<Rightarrow> section_header list \<Rightarrow> byte list \<Rightarrow> 's \<Rightarrow> bool \<times> 's" where
  "map_image os remoteDllBase sections img s =
     (let (written, s) = WriteProcessMemory os s remoteDllBase img
      in if \<not> written then (False, s)
         else (let (protected, s) = protect_sections os remoteDllBase (length img) sections s
               in if \<not> protected then (False, s)
                  else FlushInstructionCache os s remoteDllBase (length img)))"

datatype injection = Injected addr | Rejected | Corrupted

definition release :: "'s os \<Rightarrow> addr \<Rightarrow> 's \<Rightarrow> injection \<times> 's" where
  "release os remoteDllBase s = (Rejected, snd (VirtualFreeEx os s remoteDllBase))"

text \<open>Steps 4 to 10, once the remote region exists.\<close>

definition fill_region :: "'s os \<Rightarrow> byte list \<Rightarrow> nt_headers \<Rightarrow> addr \<Rightarrow> 's \<Rightarrow> injection \<times> 's" where
  "fill_region os file nt remoteDllBase s =
     (case layout file nt of None \<Rightarrow> release os remoteDllBase s
      | Some img \<Rightarrow>
         (case relocate nt remoteDllBase img of
            InvalidRelocation \<Rightarrow> release os remoteDllBase s
          | OutOfBounds \<Rightarrow> (Corrupted, s)
          | Relocated img \<Rightarrow>
             (let (mapped, s) = map_image os remoteDllBase (section_headers file nt) img s
              in if \<not> mapped then release os remoteDllBase s else (Injected remoteDllBase, s))))"

text \<open>Step 1: the headers of a file whose image can be laid out.\<close>

definition check_headers :: "byte list \<Rightarrow> nt_headers option" where
  "check_headers file =
     (if length file < SIZEOF_DOS_HEADER then None
      else if b_u16 file 0 \<noteq> IMAGE_DOS_SIGNATURE \<or> sint (b_u32 file 60) < 0 \<or>
         \<not> IsRangeWithin (unat (b_u32 file 60)) SIZEOF_NT_HEADERS (length file) then None
      else
       (let nt = nt_headers_of (drop (unat (b_u32 file 60)) file)
        in if Signature nt \<noteq> IMAGE_NT_SIGNATURE \<or> OptionalMagic nt \<noteq> IMAGE_NT_OPTIONAL_HDR64_MAGIC then None
           else if \<not> IsRangeWithin (section_headers_offset file nt) (unat (NumberOfSections nt) * SIZEOF_SECTION_HEADER)
              (length file) then None
           else if SizeOfImage nt = 0 \<or> length file < unat (SizeOfHeaders nt) \<or> SizeOfImage nt < SizeOfHeaders nt then None
           else Some nt))"

definition ReflectiveDLLInject :: "'s os \<Rightarrow> (nat \<Rightarrow> bool) \<Rightarrow> byte list \<Rightarrow> 's \<Rightarrow> injection \<times> 's" where
  "ReflectiveDLLInject os local_alloc file s =
     (case check_headers file of None \<Rightarrow> (Rejected, s)
      | Some nt \<Rightarrow>
         (let (remoteDllBase, s) = VirtualAllocEx os s (unat (SizeOfImage nt)) PAGE_READWRITE
          in if remoteDllBase = 0 then (Rejected, s)
             else if \<not> local_alloc (unat (SizeOfImage nt)) then release os remoteDllBase s
             else fill_region os file nt remoteDllBase s))"

record 'h file_os =
  CreateFileW :: "wstring \<Rightarrow> 'h option"
  GetFileSize :: "'h \<Rightarrow> u32"
  ReadFile :: "'h \<Rightarrow> u32 \<Rightarrow> byte list option"
  VirtualAlloc :: "nat \<Rightarrow> bool"

definition INVALID_FILE_SIZE :: u32 where "INVALID_FILE_SIZE = 0xFFFFFFFF"

definition InjectDll :: "'s os \<Rightarrow> 'h file_os \<Rightarrow> wstring \<Rightarrow> 's \<Rightarrow> injection \<times> 's" where
  "InjectDll os files dllPath s =
     (case CreateFileW files dllPath of None \<Rightarrow> (Rejected, s)
      | Some hFile \<Rightarrow>
         (let dwDllSize = GetFileSize files hFile
          in if dwDllSize = INVALID_FILE_SIZE \<or> dwDllSize = 0 then (Rejected, s)
             else if \<not> VirtualAlloc files (unat dwDllSize) then (Rejected, s)
             else (case ReadFile files hFile dwDllSize of None \<Rightarrow> (Rejected, s)
                   | Some lpDllBuffer \<Rightarrow>
                       if length lpDllBuffer \<noteq> unat dwDllSize then (Rejected, s)
                       else ReflectiveDLLInject os (VirtualAlloc files) lpDllBuffer s)))"

subsection \<open>Relocation by a list read up front\<close>

text \<open>
  The specification reads the whole directory of the image as it was laid out: the positions to
  relocate in order, and whether every block is well formed.
\<close>

definition entry_targets :: "nat \<Rightarrow> byte list \<Rightarrow> nat list \<Rightarrow> nat list" where
  "entry_targets reloc img entries =
     map (\<lambda>i. unat (b_u32 img reloc) + unat (and (b_u16 img (reloc + 8 + 2 * i)) 0xFFF))
       (filter (\<lambda>i. drop_bit 12 (b_u16 img (reloc + 8 + 2 * i)) = IMAGE_REL_BASED_DIR64) entries)"

function directory_targets :: "nat \<Rightarrow> nat \<Rightarrow> byte list \<Rightarrow> nat list \<times> bool" where
  "directory_targets relocationEnd reloc img =
     (if reloc + 8 \<le> relocationEnd \<and> b_u32 img reloc \<noteq> 0
      then (let sz = unat (b_u32 img (reloc + 4))
            in if sz < 8 \<or> relocationEnd < reloc + sz then ([], False)
               else (let (targets, ok) = directory_targets relocationEnd (reloc + sz) img
                     in (entry_targets reloc img [0..<(sz - 8) div 2] @ targets, ok)))
      else ([], True))"
  by pat_completeness auto
termination by (relation "measure (\<lambda>(relocationEnd, reloc, _). relocationEnd - reloc)") auto

declare directory_targets.simps [simp del]

text \<open>Two images that agree between two positions.\<close>

definition agree :: "nat \<Rightarrow> nat \<Rightarrow> byte list \<Rightarrow> byte list \<Rightarrow> bool" where
  "agree lo hi img img' \<longleftrightarrow> length img' = length img \<and>
     (\<forall>off k. lo \<le> off \<longrightarrow> off + k \<le> hi \<longrightarrow> take k (drop off img') = take k (drop off img))"

lemma agree_refl: "agree lo hi img img"
  by (simp add: agree_def)

lemma agree_trans: "agree lo hi a b \<Longrightarrow> agree lo hi b c \<Longrightarrow> agree lo hi a c"
  by (simp add: agree_def)

lemma agree_reads:
  assumes "agree lo hi img img'" "lo \<le> off"
  shows "off + 2 \<le> hi \<Longrightarrow> b_u16 img' off = b_u16 img off" "off + 4 \<le> hi \<Longrightarrow> b_u32 img' off = b_u32 img off"
  using assms by (simp_all add: agree_def b_u16_def b_u32_def)

lemma slice_list_write:
  assumes "t + length bs \<le> length xs" "off + k \<le> t \<or> t + length bs \<le> off"
  shows "take k (drop off (list_write xs t bs)) = take k (drop off xs)"
  using assms(2)
proof
  assume "off + k \<le> t"
  then have "take (k + off) (list_write xs t bs) = take (k + off) xs"
    using assms(1) by (intro take_list_write_below) auto
  then show ?thesis by (simp add: take_drop)
next
  assume "t + length bs \<le> off"
  then show ?thesis using assms(1) by (simp add: list_write_def)
qed

lemma length_add_at [simp]: "t + 8 \<le> length img \<Longrightarrow> length (add_at delta t img) = length img"
  by (simp add: add_at_def length_list_write)

lemma add_at_agree:
  assumes "t + 8 \<le> length img" "t + 8 \<le> lo \<or> hi \<le> t"
  shows "agree lo hi img (add_at delta t img)"
proof -
  have "take k (drop off (add_at delta t img)) = take k (drop off img)" if "lo \<le> off" "off + k \<le> hi" for off k
    unfolding add_at_def by (rule slice_list_write) (use assms that in auto)
  then show ?thesis using assms(1) by (simp add: agree_def)
qed

lemma entry_targets_agree:
  assumes "agree lo hi img img'" "lo \<le> reloc" "reloc + 4 \<le> hi" "\<forall>i \<in> set entries. reloc + 8 + 2 * i + 2 \<le> hi"
  shows "entry_targets reloc img' entries = entry_targets reloc img entries"
  using assms(4)
proof (induction entries)
  case (Cons i entries)
  then have "b_u16 img' (reloc + 8 + 2 * i) = b_u16 img (reloc + 8 + 2 * i)" "b_u32 img' reloc = b_u32 img reloc"
    using assms agree_reads [OF assms(1)] by auto
  then show ?case using Cons by (simp add: entry_targets_def)
qed (simp add: entry_targets_def)

lemma directory_targets_agree:
  "agree lo relocationEnd img img' \<Longrightarrow> lo \<le> reloc \<Longrightarrow>
     directory_targets relocationEnd reloc img' = directory_targets relocationEnd reloc img"
proof (induction relocationEnd reloc img rule: directory_targets.induct)
  case (1 relocationEnd reloc img)
  show ?case
  proof (cases "reloc + 8 \<le> relocationEnd")
    case False
    then show ?thesis by (simp add: directory_targets.simps)
  next
    case True
    have va: "b_u32 img' reloc = b_u32 img reloc" and sz: "b_u32 img' (reloc + 4) = b_u32 img (reloc + 4)"
      using agree_reads(2) [OF 1(2)] 1(3) True by simp_all
    let ?sz = "unat (b_u32 img (reloc + 4))"
    show ?thesis
    proof (cases "b_u32 img reloc = 0 \<or> ?sz < 8 \<or> relocationEnd < reloc + ?sz")
      case True
      then show ?thesis
        by (subst (1 2) directory_targets.simps) (auto simp: va sz Let_def)
    next
      case False
      then have "directory_targets relocationEnd (reloc + ?sz) img' = directory_targets relocationEnd (reloc + ?sz) img"
        using 1 True by (intro "1.IH") (auto simp: Let_def)
      moreover have "entry_targets reloc img' [0..<(?sz - 8) div 2] = entry_targets reloc img [0..<(?sz - 8) div 2]"
        using False 1(2,3) by (intro entry_targets_agree) auto
      ultimately show ?thesis using True False
        by (subst (1 2) directory_targets.simps) (simp add: va sz Let_def)
    qed
  qed
qed

text \<open>
  A target is fair when its address does not wrap at 32 bits and its eight bytes stay clear of the
  directory being read.
\<close>

definition fair_target :: "nat \<Rightarrow> nat \<Rightarrow> nat \<Rightarrow> bool" where
  "fair_target lo hi t \<longleftrightarrow> t < 2 ^ 32 \<and> (t + 8 \<le> lo \<or> hi \<le> t)"

lemma unat_ucast_u16: "unat (ucast (off :: u16) :: u32) = unat off"
proof -
  have "unat off < 2 ^ LENGTH(16)" by (rule unsigned_less)
  then show ?thesis by (simp add: unsigned_ucast_eq take_bit_nat_eq_self)
qed

lemma unat_va_offset:
  assumes "unat (va :: u32) + unat (off :: u16) < 2 ^ 32"
  shows "unat (va + ucast off) = unat va + unat off"
proof -
  have "unat (ucast off :: u32) = unat off" by (simp add: unat_ucast_u16)
  then show ?thesis using assms by (simp add: unat_word_ariths)
qed

lemma relocate_entries_spec:
  assumes "lo \<le> reloc" "reloc + 4 \<le> hi" "\<forall>i \<in> set entries. reloc + 8 + 2 * i + 2 \<le> hi"
    and "\<forall>t \<in> set (entry_targets reloc img entries). fair_target lo hi t"
  shows "relocate_entries delta reloc entries img =
     (if \<forall>t \<in> set (entry_targets reloc img entries). t + 8 \<le> length img
      then Relocated (fold (add_at delta) (entry_targets reloc img entries) img) else InvalidRelocation)"
  using assms(3,4)
proof (induction entries arbitrary: img)
  case Nil
  then show ?case by (simp add: entry_targets_def)
next
  case (Cons i entries)
  let ?e = "b_u16 img (reloc + 8 + 2 * i)" and ?rest = "entry_targets reloc img entries"
  let ?t = "unat (b_u32 img reloc) + unat (and ?e 0xFFF)"
  show ?case
  proof (cases "drop_bit 12 ?e = IMAGE_REL_BASED_DIR64")
    case False
    then have "entry_targets reloc img (i # entries) = ?rest" by (simp add: entry_targets_def)
    then show ?thesis using Cons False by (simp add: Let_def)
  next
    case True
    then have ts: "entry_targets reloc img (i # entries) = ?t # ?rest" by (simp add: entry_targets_def)
    then have fair: "fair_target lo hi ?t" using Cons.prems(2) by simp
    then have u: "unat (b_u32 img reloc + ucast (and ?e 0xFFF)) = ?t"
      by (intro unat_va_offset) (simp add: fair_target_def)
    show ?thesis
    proof (cases "?t + 8 \<le> length img")
      case False
      then show ?thesis using True u by (simp add: ts Let_def IsRangeWithin_iff)
    next
      case t: True
      let ?img = "add_at delta ?t img"
      have agree: "agree lo hi img ?img" using t fair by (intro add_at_agree) (auto simp: fair_target_def)
      have same: "entry_targets reloc ?img entries = ?rest"
        using Cons.prems(1) assms(1,2) by (intro entry_targets_agree [OF agree]) auto
      have "relocate_entries delta reloc entries ?img =
          (if \<forall>t \<in> set ?rest. t + 8 \<le> length img then Relocated (fold (add_at delta) ?rest ?img) else InvalidRelocation)"
        using Cons.IH [of ?img] Cons.prems ts same t by simp
      then show ?thesis using True t u by (simp add: ts Let_def IsRangeWithin_iff)
    qed
  qed
qed

lemma fold_add_at_agree:
  assumes "\<forall>t \<in> set ts. fair_target lo hi t \<and> t + 8 \<le> length img"
  shows "agree lo hi img (fold (add_at delta) ts img)"
  using assms
proof (induction ts arbitrary: img)
  case (Cons t ts)
  then have "agree lo hi img (add_at delta t img)" by (intro add_at_agree) (auto simp: fair_target_def)
  moreover have "agree lo hi (add_at delta t img) (fold (add_at delta) ts (add_at delta t img))"
    using Cons by (intro Cons.IH) auto
  ultimately show ?case by (auto intro: agree_trans)
qed (simp add: agree_refl)

lemma relocation_loop_spec:
  assumes "lo \<le> reloc" "directory_targets relocationEnd reloc img = (ts, ok)"
    and "\<forall>t \<in> set ts. fair_target lo relocationEnd t"
  shows "relocation_loop delta relocationEnd reloc img =
     (if ok \<and> (\<forall>t \<in> set ts. t + 8 \<le> length img) then Relocated (fold (add_at delta) ts img) else InvalidRelocation)"
  using assms
proof (induction delta relocationEnd reloc img arbitrary: ts rule: relocation_loop.induct)
  case (1 delta relocationEnd reloc img)
  let ?sz = "unat (b_u32 img (reloc + 4))"
  let ?entries = "[0..<(?sz - 8) div 2]"
  consider (stop) "\<not> (reloc + 8 \<le> relocationEnd \<and> b_u32 img reloc \<noteq> 0)"
    | (bad) "reloc + 8 \<le> relocationEnd" "b_u32 img reloc \<noteq> 0" "?sz < 8 \<or> relocationEnd < reloc + ?sz"
    | (block) "reloc + 8 \<le> relocationEnd" "b_u32 img reloc \<noteq> 0" "\<not> (?sz < 8 \<or> relocationEnd < reloc + ?sz)" by blast
  then show ?case
  proof cases
    case stop
    then show ?thesis using 1(3) by (auto simp: relocation_loop.simps directory_targets.simps)
  next
    case bad
    then show ?thesis using 1(3) by (auto simp: relocation_loop.simps directory_targets.simps Let_def)
  next
    case block
    obtain ts' where dir: "directory_targets relocationEnd (reloc + ?sz) img = (ts', ok)"
      and ts: "ts = entry_targets reloc img ?entries @ ts'"
      using 1(3) block by (subst (asm) directory_targets.simps) (auto simp: Let_def split: prod.splits)
    let ?now = "entry_targets reloc img ?entries"
    have entries: "relocate_entries delta reloc ?entries img =
        (if \<forall>t \<in> set ?now. t + 8 \<le> length img then Relocated (fold (add_at delta) ?now img) else InvalidRelocation)"
      using block 1(2,4) ts by (intro relocate_entries_spec [where lo = lo and hi = relocationEnd]) auto
    show ?thesis
    proof (cases "\<forall>t \<in> set ?now. t + 8 \<le> length img")
      case False
      then show ?thesis using block entries ts by (subst relocation_loop.simps) auto
    next
      case True
      let ?img = "fold (add_at delta) ?now img"
      have agree: "agree lo relocationEnd img ?img"
        using True 1(4) ts by (intro fold_add_at_agree) auto
      have sz: "b_u32 ?img (reloc + 4) = b_u32 img (reloc + 4)"
        using agree_reads(2) [OF agree] 1(2) block by simp
      have rel: "relocate_entries delta reloc ?entries img = Relocated ?img" using entries True by simp
      have len: "length ?img = length img" using agree by (simp add: agree_def)
      have "relocation_loop delta relocationEnd (reloc + ?sz) ?img =
          (if ok \<and> (\<forall>t \<in> set ts'. t + 8 \<le> length img) then Relocated (fold (add_at delta) ts' ?img) else InvalidRelocation)"
        using "1.IH" [of ?img ts'] block rel sz len 1(2,4) ts dir directory_targets_agree [OF agree, of "reloc + ?sz"] by auto
      then show ?thesis using block rel sz ts True by (subst relocation_loop.simps) auto
    qed
  qed
qed

subsection \<open>Lengths and the remote image\<close>

lemma relocate_entries_length: "relocate_entries delta reloc entries img = Relocated img' \<Longrightarrow> length img' = length img"
  by (induction entries arbitrary: img) (auto simp: Let_def split: if_splits)

lemma relocation_loop_length: "relocation_loop delta relocationEnd reloc img = Relocated img' \<Longrightarrow> length img' = length img"
proof (induction delta relocationEnd reloc img rule: relocation_loop.induct)
  case (1 delta relocationEnd reloc img)
  then show ?case
    by (simp add: relocation_loop.simps [of delta relocationEnd reloc img] split: if_splits relocation.splits)
      (metis relocate_entries_length)
qed

lemma relocate_length: "relocate nt b img = Relocated img' \<Longrightarrow> length img' = length img"
  by (auto simp: relocate_def Let_def split: if_splits dest: relocation_loop_length)

lemma copy_sections_length: "copy_sections file sections img = Some img' \<Longrightarrow> length img' = length img"
  by (induction sections arbitrary: img) (auto simp: IsRangeWithin_iff length_list_write split: if_splits)

lemma layout_length:
  assumes "layout file nt = Some img" "check_headers file = Some nt"
  shows "length img = unat (SizeOfImage nt)"
proof -
  have "unat (SizeOfHeaders nt) \<le> unat (SizeOfImage nt)" "unat (SizeOfHeaders nt) \<le> length file"
    using assms(2) by (auto simp: check_headers_def Let_def word_less_nat_alt split: if_splits)
  then show ?thesis
    using copy_sections_length [OF assms(1) [unfolded layout_def]] by (simp add: length_list_write)
qed

lemma protect_sections_result:
  assumes ok: "os_ok os v"
  shows "protect_sections os b n sections s = (r, s') \<Longrightarrow> unchanged v s s'"
proof (induction sections arbitrary: s)
  case (Cons sec sections)
  obtain old s1 where p: "VirtualProtectEx os s (b + ucast (SectionAddress sec)) (unat (VirtualSize sec))
      (GetMemoryProtection (Characteristics sec)) = (old, s1)" by fastforce
  then have "unchanged v s s1" by (rule os_protect [OF ok])
  then show ?case using Cons p by (auto split: if_splits intro: unchanged_trans)
qed simp

lemma map_image_result:
  assumes ok: "os_ok os v" and run: "map_image os b sections img s = (r, s')"
  shows "regions v s' = regions v s \<and> (\<forall>x. outside x b (length img) \<longrightarrow> rmem v s' x = rmem v s x) \<and>
     (r \<longrightarrow> rmem v s' = mem_write (rmem v s) b img)"
proof -
  obtain w s1 where w: "WriteProcessMemory os s b img = (w, s1)" by fastforce
  obtain p s2 where p: "protect_sections os b (length img) sections s1 = (p, s2)" by fastforce
  show ?thesis
  proof (cases w)
    case False
    then show ?thesis using run w os_write_fails [OF ok, of s b img s1] by (auto simp: map_image_def unchanged_def)
  next
    case True
    then have m: "rmem v s1 = mem_write (rmem v s) b img" "regions v s1 = regions v s"
      using os_write_ok [OF ok, of s b img s1] w by simp_all
    have "unchanged v s1 s2" by (rule protect_sections_result [OF ok p])
    moreover have "unchanged v s2 s'" if p by (rule os_flush [OF ok]) (use run w p True that in \<open>simp add: map_image_def\<close>)
    moreover have "\<not> r \<and> s' = s2" if "\<not> p" using run w p True that by (simp add: map_image_def)
    ultimately show ?thesis using m by (cases p) (auto simp: unchanged_def mem_write_outside)
  qed
qed

subsection \<open>Properties\<close>


lemma add_at_elsewhere:
  assumes "t + 8 \<le> length img" "t' + 8 \<le> t \<or> t + 8 \<le> t'"
  shows "b_u64 (add_at delta t img) t' = b_u64 img t'"
  unfolding b_u64_def add_at_def by (subst slice_list_write) (use assms in auto)

lemma add_at_here: "t + 8 \<le> length img \<Longrightarrow> b_u64 (add_at delta t img) t = b_u64 img t + delta"
proof -
  assume "t + 8 \<le> length img"
  then have "take 8 (drop t (add_at delta t img)) = le_bytes (b_u64 img t + delta)"
    by (simp add: add_at_def list_write_def)
  then show ?thesis by (simp add: b_u64_def [of "add_at delta t img"] of_le_le_bytes)
qed

text \<open>Pointers that do not overlap each grow by the delta, once.\<close>

lemma fold_add_at_pointer:
  assumes "sorted_wrt (\<lambda>t u. t + 8 \<le> u \<or> u + 8 \<le> t) ts" "\<forall>t \<in> set ts. t + 8 \<le> length img" "t \<in> set ts"
  shows "b_u64 (fold (add_at delta) ts img) t = b_u64 img t + delta"
proof -
  have other: "b_u64 (fold (add_at delta) us img) t = b_u64 img t"
    if "\<forall>u \<in> set us. (t + 8 \<le> u \<or> u + 8 \<le> t) \<and> u + 8 \<le> length img" for us img
    using that by (induction us arbitrary: img) (auto simp: add_at_elsewhere)
  from assms show ?thesis
  proof (induction ts arbitrary: img)
    case (Cons u ts)
    show ?case
    proof (cases "u = t")
      case True
      then have "b_u64 (fold (add_at delta) ts (add_at delta t img)) t = b_u64 (add_at delta t img) t"
        using Cons.prems by (intro other) auto
      then show ?thesis using True Cons.prems(2) by (simp add: add_at_here)
    next
      case False
      then have "t \<in> set ts" using Cons.prems(3) by simp
      moreover from this have "u + 8 \<le> t \<or> t + 8 \<le> u" using Cons.prems(1) by auto
      ultimately show ?thesis using Cons by (auto simp: add_at_elsewhere)
    qed
  qed simp
qed

text \<open>What a step after the allocation leaves: the region itself, or its release.\<close>

lemma release_result:
  assumes ok: "os_ok os v" and run: "release os b s1 = (r, s')" and alloc: "regions v s b = None"
    and s1: "regions v s1 = (regions v s)(b \<mapsto> n)" "\<forall>x. outside x b n \<longrightarrow> rmem v s1 x = rmem v s x"
  shows "r = Rejected \<and> (\<forall>x. outside x b n \<longrightarrow> rmem v s' x = rmem v s x) \<and>
     (regions v s' = regions v s \<or> VirtualFreeEx os s1 b = (False, s') \<and> regions v s' = (regions v s)(b \<mapsto> n))"
proof -
  obtain freed where f: "VirtualFreeEx os s1 b = (freed, s')" "r = Rejected"
    using run by (cases "VirtualFreeEx os s1 b") (auto simp: release_def)
  have "rmem v s' x = rmem v s x" if "outside x b n" for x
    using that s1 f(1) os_free [OF ok, of s1 b s'] os_free_fails [OF ok, of s1 b s']
    by (cases freed) (auto simp: unchanged_def)
  moreover have "regions v s' = regions v s" if freed
    using that s1 f(1) os_free [OF ok, of s1 b s'] alloc by (auto simp: fun_upd_idem)
  moreover have "regions v s' = (regions v s)(b \<mapsto> n)" if "\<not> freed"
    using that s1 f(1) os_free_fails [OF ok, of s1 b s'] by (auto simp: unchanged_def)
  ultimately show ?thesis using f by (cases freed) auto
qed

definition rejected_cleanly :: "'s os \<Rightarrow> 's observed \<Rightarrow> 's \<Rightarrow> 's \<Rightarrow> bool" where
  "rejected_cleanly os v s s' \<longleftrightarrow> unchanged v s s' \<or>
     (\<exists>b n. regions v s b = None \<and> (\<forall>x. outside x b n \<longrightarrow> rmem v s' x = rmem v s x) \<and>
        (regions v s' = regions v s \<or>
         (\<exists>s1. VirtualFreeEx os s1 b = (False, s')) \<and> regions v s' = (regions v s)(b \<mapsto> n)))"

lemma release_clean:
  assumes "os_ok os v" "release os b t = (r, s')" "regions v s b = None"
    and "regions v t = (regions v s)(b \<mapsto> n)" "\<forall>x. outside x b n \<longrightarrow> rmem v t x = rmem v s x"
  shows "r = Rejected \<and> rejected_cleanly os v s s'"
  using release_result [OF assms] assms(3) unfolding rejected_cleanly_def by blast

definition injected_image :: "'s observed \<Rightarrow> byte list \<Rightarrow> addr \<Rightarrow> 's \<Rightarrow> 's \<Rightarrow> bool" where
  "injected_image v file b s s' \<longleftrightarrow>
     (\<exists>nt laid img. check_headers file = Some nt \<and> layout file nt = Some laid \<and> relocate nt b laid = Relocated img \<and>
        length img = unat (SizeOfImage nt) \<and> b \<noteq> 0 \<and> regions v s b = None \<and>
        regions v s' = (regions v s)(b \<mapsto> length img) \<and> mem_bytes (rmem v s') b (length img) = img \<and>
        (\<forall>x. outside x b (length img) \<longrightarrow> rmem v s' x = rmem v s x))"

lemma fill_region_result:
  assumes ok: "os_ok os v" and run: "fill_region os file nt b s1 = (r, s')" and nt: "check_headers file = Some nt"
    and n: "n = unat (SizeOfImage nt)" and b: "b \<noteq> 0" "regions v s b = None"
    and s1: "regions v s1 = (regions v s)(b \<mapsto> n)" "\<forall>x. outside x b n \<longrightarrow> rmem v s1 x = rmem v s x"
  shows "(\<forall>b'. r = Injected b' \<longrightarrow> b' = b \<and> injected_image v file b s s') \<and> (r = Rejected \<longrightarrow> rejected_cleanly os v s s') \<and>
     (r = Corrupted \<longrightarrow> (\<exists>laid. layout file nt = Some laid \<and> relocate nt b laid = OutOfBounds))"
proof -
  note clean = release_clean [OF ok _ b(2)]
  show ?thesis
  proof (cases "layout file nt")
    case None
    then show ?thesis using clean [OF _ s1, of r s'] run by (simp add: fill_region_def)
  next
    case (Some laid)
    note laid = this
    have len: "length laid = n" using layout_length [OF laid nt] n by simp
    show ?thesis
    proof (cases "relocate nt b laid")
      case InvalidRelocation
      then show ?thesis using clean [OF _ s1, of r s'] run laid by (simp add: fill_region_def)
    next
      case OutOfBounds
      then show ?thesis using run laid by (auto simp: fill_region_def)
    next
      case (Relocated img)
      then have img: "length img = n" using relocate_length len by metis
      obtain mapped s2 where m: "map_image os b (section_headers file nt) img s1 = (mapped, s2)" by fastforce
      note r = map_image_result [OF ok m]
      have s2: "regions v s2 = (regions v s)(b \<mapsto> n)" "\<forall>x. outside x b n \<longrightarrow> rmem v s2 x = rmem v s x"
        using r s1 img by auto
      show ?thesis
      proof (cases mapped)
        case False
        then show ?thesis using clean [OF _ s2, of r s'] run laid Relocated m by (simp add: fill_region_def)
      next
        case True
        then have "r = Injected b" "s' = s2" using run laid Relocated m by (simp_all add: fill_region_def)
        moreover have "mem_bytes (rmem v s2) b (length img) = img"
        proof -
          have "unat (SizeOfImage nt) < 2 ^ LENGTH(32)" by (rule unsigned_less)
          then have "length img \<le> 2 ^ 64" using img n by simp
          then show ?thesis using mem_bytes_mem_write r True by metis
        qed
        ultimately show ?thesis using laid Relocated nt b s2 img n by (auto simp: injected_image_def)
      qed
    qed
  qed
qed


subsection \<open>A file to run on\<close>

text \<open>
  A file without sections whose header part holds one relocation block of one entry, given by its
  ten bytes. Its image is two bytes longer than the file.
\<close>

definition sample_dll :: "byte list \<Rightarrow> byte list" where
  "sample_dll block = [0x4D, 0x5A] @ replicate 58 0 @ [64, 0, 0, 0, 0x50, 0x45] @ replicate 18 0 @ [240, 0, 0, 0, 0x0B, 2] @
     replicate 54 0 @ [84, 1, 0, 0, 82, 1, 0, 0] @ replicate 88 0 @ [72, 1, 0, 0, 10, 0, 0, 0] @ replicate 80 0 @ block"

definition sample_headers :: nt_headers where
  "sample_headers = \<lparr>Signature = 0x4550, NumberOfSections = 0, SizeOfOptionalHeader = 240, OptionalMagic = 0x20B, ImageBase = 0,
     SizeOfImage = 340, SizeOfHeaders = 338, ExportAddress = 0, ExportSize = 0, RelocAddress = 328, RelocSize = 10\<rparr>"

definition sample_block :: "byte list" where "sample_block = [8, 0, 0, 0, 10, 0, 0, 0, 0, 0xA0]"
definition wrapping_block :: "byte list" where "wrapping_block = [0xF8, 0xFF, 0xFF, 0xFF, 10, 0, 0, 0, 8, 0xA0]"

lemmas sample_reads = b_u16_def b_u32_def b_u64_def of_le_def

lemma le_dec_zeros: "le_dec (replicate n 0) = 0"
  by (induction n) simp_all

lemma sample_checked: "length block = 10 \<Longrightarrow> check_headers (sample_dll block) = Some sample_headers"
  by (simp add: check_headers_def sample_dll_def SIZEOF_DOS_HEADER_def SIZEOF_NT_HEADERS_def IsRangeWithin_iff sample_reads
      nt_headers_of_def sample_headers_def section_headers_offset_def SIZEOF_SECTION_HEADER_def IMAGE_DOS_SIGNATURE_def
      IMAGE_NT_SIGNATURE_def IMAGE_NT_OPTIONAL_HDR64_MAGIC_def Let_def le_dec_zeros)

lemma sample_laid: "length block = 10 \<Longrightarrow> layout (sample_dll block) sample_headers = Some (sample_dll block @ [0, 0])"
proof -
  have "replicate 2 0 = [0, 0 :: byte]" by (simp add: numeral_eq_Suc)
  then show "length block = 10 \<Longrightarrow> layout (sample_dll block) sample_headers = Some (sample_dll block @ [0, 0])"
    by (simp add: layout_def section_headers_def sample_headers_def list_write_def sample_dll_def)
qed

lemma sample_length: "length block = 10 \<Longrightarrow> length (sample_dll block) = 338"
  by (simp add: sample_dll_def)

text \<open>Reads inside the block, and the first bytes of a sample file.\<close>

lemma sample_block_reads:
  assumes "length block = 10"
  shows "b_u32 (sample_dll block @ rest) 328 = of_le (take 4 block)"
    "b_u32 (sample_dll block @ rest) 332 = of_le (take 4 (drop 4 block))"
    "b_u16 (sample_dll block @ rest) 336 = of_le (drop 8 block)"
  using assms by (simp_all add: sample_dll_def b_u32_def b_u16_def)

lemma sample_targets: "directory_targets 338 328 (sample_dll sample_block @ [0, 0]) = ([8], True)"
proof -
  have "drop_bit 12 (0xA000 :: u16) = 10" "and (0xA000 :: u16) 0xFFF = 0" by code_simp+
  then show ?thesis
    by (simp add: directory_targets.simps sample_block_reads sample_block_def of_le_def entry_targets_def IMAGE_REL_BASED_DIR64_def)
qed


definition sample_files :: "byte list \<Rightarrow> unit file_os" where
  "sample_files content = \<lparr>CreateFileW = (\<lambda>path. Some ()), GetFileSize = (\<lambda>h. of_nat (length content)),
     ReadFile = (\<lambda>h n. Some content), VirtualAlloc = (\<lambda>n. True)\<rparr>"

definition sample_allocated :: sim where
  "sample_allocated = ticked (sample_process\<lparr>sim_regions := [0x5000 \<mapsto> 340]\<rparr>)"

lemma sample_run:
  "length block = 10 \<Longrightarrow> InjectDll (sim_os {}) (sample_files (sample_dll block)) [] sample_process =
     fill_region (sim_os {}) (sample_dll block) sample_headers 0x5000 sample_allocated"
proof -
  have "VirtualAllocEx (sim_os {}) sample_process (unat (SizeOfImage sample_headers)) PAGE_READWRITE = (0x5000, sample_allocated)"
    by (simp add: sim_os_def sample_process_def sample_headers_def sample_allocated_def)
  then show "length block = 10 \<Longrightarrow> ?thesis"
    by (simp add: InjectDll_def sample_files_def INVALID_FILE_SIZE_def sample_length ReflectiveDLLInject_def sample_checked)
qed

lemma sample_mapped: "\<exists>s'. map_image (sim_os {}) b (section_headers content sample_headers) img s = (True, s')"
  by (simp add: map_image_def section_headers_def sample_headers_def) (simp add: sim_os_def)

lemma sample_relocated:
  "relocate sample_headers 0x5000 (sample_dll sample_block @ [0, 0]) = Relocated (add_at 0x5000 8 (sample_dll sample_block @ [0, 0]))"
  using relocation_loop_spec [OF order_refl sample_targets, of "0x5000"]
  by (simp add: relocate_def sample_headers_def fair_target_def IsRangeWithin_iff sample_length sample_block_def Let_def)

lemma sample_injected:
  "\<exists>s'. InjectDll (sim_os {}) (sample_files (sample_dll sample_block)) [] sample_process = (Injected 0x5000, s')"
  using sample_relocated sample_mapped [of "0x5000" "sample_dll sample_block" "add_at 0x5000 8 (sample_dll sample_block @ [0, 0])" sample_allocated]
  by (auto simp: sample_run sample_block_def fill_region_def sample_laid)


text \<open>C37: A relocation can leave the image. The check of a target adds the offset to the address of
  the block in 32 bits and can wrap, while the write adds them in 64 bits: a file whose block
  lies at 0xFFFFFFF8 with offset 8 passes every check and writes 4 GB behind a local image of
  340 bytes.\<close>

theorem relocation_leaves_image:
  "fst (InjectDll (sim_os {}) (sample_files (sample_dll wrapping_block)) [] sample_process) = Corrupted"
proof -
  have bits: "drop_bit 12 (0xA008 :: u16) = 10" "and (0xA008 :: u16) 0xFFF = 8" by code_simp+
  let ?img = "sample_dll wrapping_block @ [0, 0]"
  have reads: "b_u32 ?img 328 = 0xFFFFFFF8" "b_u32 ?img 332 = 10" "b_u16 ?img 336 = 0xA008"
    by (simp_all add: sample_block_reads wrapping_block_def of_le_def)
  have "length ?img = 340" by (simp add: sample_length wrapping_block_def)
  then have "relocation_loop 0x5000 338 328 ?img = OutOfBounds"
    by (simp add: relocation_loop.simps reads Let_def bits IMAGE_REL_BASED_DIR64_def IsRangeWithin_iff)
  then have "relocate sample_headers 0x5000 ?img = OutOfBounds"
    by (simp add: relocate_def sample_headers_def IsRangeWithin_iff sample_length wrapping_block_def Let_def)
  then show ?thesis by (simp add: sample_run wrapping_block_def fill_region_def sample_laid)
qed

end
