(* ===== verification/Session_Output.thy ===== *)
theory Session_Output
  imports Trace_Renderer Trace_Correlator Trace_Stats Cli_Options "HOL-Library.Monad_Syntax"
begin

section \<open>The output of a session\<close>

text \<open>
  The writer side of \<open>src/apiscope/trace_session.cpp\<close>: opening the output, the event queue between
  reader and writer, the writer loop, rendering, the live footer and the summary. The streams are
  the text written so far; what the clock, the console and the shared ring return is given with
  each step. The result \<open>None\<close> is a conversion of a floating point number outside its range.
\<close>

subsection \<open>State\<close>

record trace_session =
  outputFormat :: TraceOutputFormat
  session_quiet :: bool
  colorEnabled :: bool
  footerEnabled :: bool
  footerDrawn :: bool
  footerLine :: string
  stats :: TraceStats
  handleTracker :: HandlePathTracker
  started :: bool
  summaryPrinted :: bool
  console :: string
  output_file :: "string option"
  summary_text :: string

definition initial_session :: trace_session where
  "initial_session = \<lparr>outputFormat = Text, session_quiet = False, colorEnabled = False, footerEnabled = False, footerDrawn = False,
     footerLine = [], stats = empty_stats, handleTracker = \<lparr>handlePaths = []\<rparr>, started = False, summaryPrinted = False,
     console = [], output_file = None, summary_text = []\<rparr>"

text \<open>What a step reads: the seconds since the start, the console width, and the drop counter of the ring while it is mapped.\<close>

record readings =
  elapsed :: double
  width :: nat
  ring_drops :: "u32 option"

subsection \<open>Opening the output\<close>

definition OpenOutput :: "TraceOutputOptions \<Rightarrow> bool \<Rightarrow> trace_session \<Rightarrow> bool \<times> trace_session" where
  "OpenOutput outputOptions opened s =
     (let s = s\<lparr>outputFormat := output_format outputOptions, session_quiet := quiet outputOptions\<rparr>
      in if outputPath outputOptions = []
         then (if outputFormat s = Jsonl then (False, s) else if session_quiet s then (False, s) else (True, s))
         else if \<not> opened then (False, s)
         else (True, s\<lparr>output_file := Some []\<rparr>))"

text \<open>The part of \<open>Start\<close> before the shared ring is made.\<close>

definition start_output :: "TraceOutputOptions \<Rightarrow> bool \<Rightarrow> bool \<Rightarrow> bool \<Rightarrow> trace_session \<Rightarrow> bool \<times> trace_session" where
  "start_output outputOptions opened stdoutTty noColorEnv s =
     (let (ok, s) = OpenOutput outputOptions opened s
      in if \<not> ok then (False, s)
         else (True, s\<lparr>colorEnabled := color_mode outputOptions = Always \<or>
               color_mode outputOptions = Auto \<and> stdoutTty \<and> \<not> noColorEnv,
             footerEnabled := status_mode outputOptions = Always \<or> status_mode outputOptions = Auto \<and> stdoutTty,
             footerDrawn := False, footerLine := [], stats := empty_stats, started := True, summaryPrinted := False\<rparr>))"

subsection \<open>The footer\<close>

definition erase_line :: string where
  "erase_line = [CHR 0x0D, CHR 0x1B] @ ''[K''"

definition EraseFooter :: "trace_session \<Rightarrow> trace_session" where
  "EraseFooter s = (if footerDrawn s then s\<lparr>console := console s @ erase_line, footerDrawn := False\<rparr> else s)"

definition refresh_drops :: "readings \<Rightarrow> trace_session \<Rightarrow> trace_session" where
  "refresh_drops now s =
     (case ring_drops now of None \<Rightarrow> s | Some n \<Rightarrow> s\<lparr>stats := (stats s)\<lparr>dropped := n\<rparr>\<rparr>)"

definition RebuildFooterLine :: "readings \<Rightarrow> trace_session \<Rightarrow> trace_session option" where
  "RebuildFooterLine now s =
     (let s = refresh_drops now s
      in do {
        line \<leftarrow> FormatStatusLine (stats s) (elapsed now) (width now);
        Some (s\<lparr>footerLine := (if colorEnabled s \<and> length line < width now
          then line @ replicate (width now - length line) (CHR '' '') else line)\<rparr>)
      })"

definition footer_text :: "bool \<Rightarrow> string \<Rightarrow> string" where
  "footer_text color line = CHR 0x0D #
     (if color then CHR 0x1B # ''[7m'' @ line @ CHR 0x1B # ''[0m'' else line) @ CHR 0x1B # ''[K''"

definition DrawFooter :: "readings \<Rightarrow> trace_session \<Rightarrow> trace_session option" where
  "DrawFooter now s = do {
     s \<leftarrow> (if footerLine s = [] then RebuildFooterLine now s else Some s);
     Some (s\<lparr>console := console s @ footer_text (colorEnabled s) (footerLine s), footerDrawn := True\<rparr>)
   }"

text \<open>One turn of \<open>FooterLoop\<close>.\<close>

definition footer_turn :: "readings \<Rightarrow> trace_session \<Rightarrow> trace_session option" where
  "footer_turn now s = do { s \<leftarrow> RebuildFooterLine now s; DrawFooter now s }"

subsection \<open>Events\<close>

definition CurrentHookName :: "trace_event \<Rightarrow> string" where
  "CurrentHookName event =
     (let m = unat (h_moduleNameLength (header event)); a = unat (h_apiNameLength (header event))
      in string_of (take m (payload event)) @ ''!'' @ string_of (take a (drop m (payload event))))"

definition render_console :: "to_system_time \<Rightarrow> to_utf8 \<Rightarrow> trace_event \<Rightarrow> readings \<Rightarrow> trace_session \<Rightarrow> trace_session option" where
  "render_console ft cv event now s =
     (if session_quiet s then Some s
      else
       (let s = (if footerEnabled s then EraseFooter s else s);
            s = s\<lparr>console := console s @ RenderTraceEventText ft cv event (colorEnabled s)\<rparr>
        in if footerEnabled s then DrawFooter now s else Some s))"

definition render_file :: "to_system_time \<Rightarrow> to_utf8 \<Rightarrow> trace_event \<Rightarrow> trace_session \<Rightarrow> trace_session" where
  "render_file ft cv event s =
     (case output_file s of None \<Rightarrow> s
      | Some out \<Rightarrow> s\<lparr>output_file := Some (out @
          (if outputFormat s = Jsonl then RenderTraceEventJsonl ft cv event else RenderTraceEventText ft cv event False))\<rparr>)"

definition RenderEvent :: "to_system_time \<Rightarrow> to_utf8 \<Rightarrow> trace_event \<Rightarrow> readings \<Rightarrow> trace_session \<Rightarrow> trace_session option" where
  "RenderEvent ft cv event now s = do {
     s \<leftarrow> render_console ft cv event now (s\<lparr>stats := Record (stats s) (CurrentHookName event)\<rparr>);
     Some (render_file ft cv event s)
   }"

text \<open>The turn of \<open>WriterLoop\<close> for the event it took from the queue.\<close>

definition writer_turn :: "to_system_time \<Rightarrow> to_utf8 \<Rightarrow> trace_event \<Rightarrow> readings \<Rightarrow> trace_session \<Rightarrow> trace_session option" where
  "writer_turn ft cv event now s =
     (let t = Observe (handleTracker s) event;
          event = Annotate t event;
          t = Evict t event
      in RenderEvent ft cv event now (s\<lparr>handleTracker := t\<rparr>))"

subsection \<open>The summary\<close>

definition PrintSummary :: "readings \<Rightarrow> trace_session \<Rightarrow> trace_session option" where
  "PrintSummary now s =
     (if \<not> started s \<or> summaryPrinted s then Some s
      else
       (let s = s\<lparr>summaryPrinted := True\<rparr>;
            s = EraseFooter s;
            s = refresh_drops now s
        in do {
          text \<leftarrow> FormatSummary (stats s) (elapsed now);
          Some (s\<lparr>summary_text := summary_text s @ text\<rparr>)
        }))"

text \<open>
  The console mutex makes a turn of the writer and a turn of the footer thread exclude each other,
  so a session is a sequence of turns.
\<close>

datatype thread_turn = EventTurn trace_event readings | FooterTurn readings

fun session_turn :: "to_system_time \<Rightarrow> to_utf8 \<Rightarrow> thread_turn \<Rightarrow> trace_session \<Rightarrow> trace_session option" where
  "session_turn ft cv (EventTurn event now) s = writer_turn ft cv event now s"
| "session_turn ft cv (FooterTurn now) s = footer_turn now s"

fun session_turns :: "to_system_time \<Rightarrow> to_utf8 \<Rightarrow> thread_turn list \<Rightarrow> trace_session \<Rightarrow> trace_session option" where
  "session_turns ft cv [] s = Some s"
| "session_turns ft cv (t # ts) s = do { s \<leftarrow> session_turn ft cv t s; session_turns ft cv ts s }"

subsection \<open>The footer prints\<close>

text \<open>A reading of a clock with a resolution of \<open>2 ^ -30\<close> seconds, in a session below \<open>2 ^ 62\<close> seconds.\<close>

definition fair_readings :: "readings \<Rightarrow> bool" where
  "fair_readings now \<longleftrightarrow> (elapsed now \<le> 0 \<or> 2 powi (- 30) \<le> elapsed now) \<and> elapsed now \<le> 2 ^ 62"

lemma FormatStatusLine_Some:
  assumes "unat (stat_events st) \<le> 2 ^ 32" "fair_readings now"
  shows "\<exists>line. FormatStatusLine st (elapsed now) (width now) = Some line"
proof -
  obtain u where "to_u64 (fl ((if elapsed now > 0 then fl (fl (of_nat (unat (stat_events st))) / elapsed now) else 0) + 1 / 2)) = Some u"
    using rate_Some [OF assms(1)] assms(2) unfolding fair_readings_def by blast
  moreover obtain d where "FormatDuration (elapsed now) = Some d"
    using FormatDuration_Some assms(2) unfolding fair_readings_def by blast
  ultimately show ?thesis by (simp add: FormatStatusLine_def Let_def)
qed

lemma refresh_drops_eq:
  "\<exists>st. refresh_drops now s = s\<lparr>stats := st\<rparr> \<and> stat_events st = stat_events (stats s) \<and> st\<lparr>dropped := 0\<rparr> = (stats s)\<lparr>dropped := 0\<rparr>"
proof (cases "ring_drops now")
  case None
  then show ?thesis by (intro exI [of _ "stats s"]) (simp add: refresh_drops_def)
next
  case (Some n)
  then show ?thesis by (intro exI [of _ "(stats s)\<lparr>dropped := n\<rparr>"]) (simp add: refresh_drops_def)
qed

lemma RebuildFooterLine_Some:
  assumes "unat (stat_events (stats s)) \<le> 2 ^ 32" "fair_readings now"
  shows "\<exists>line st. RebuildFooterLine now s = Some (s\<lparr>stats := st, footerLine := line\<rparr>) \<and>
     stat_events st = stat_events (stats s) \<and> st\<lparr>dropped := 0\<rparr> = (stats s)\<lparr>dropped := 0\<rparr>"
proof -
  obtain st where st: "refresh_drops now s = s\<lparr>stats := st\<rparr>" "stat_events st = stat_events (stats s)"
    "st\<lparr>dropped := 0\<rparr> = (stats s)\<lparr>dropped := 0\<rparr>" using refresh_drops_eq by blast
  then have "unat (stat_events st) \<le> 2 ^ 32" using assms(1) by simp
  then obtain line where "FormatStatusLine st (elapsed now) (width now) = Some line"
    using FormatStatusLine_Some [OF _ assms(2)] by blast
  then have "RebuildFooterLine now s = Some (s\<lparr>stats := st, footerLine := (if colorEnabled s \<and> length line < width now
      then line @ replicate (width now - length line) (CHR '' '') else line)\<rparr>)"
    by (simp add: RebuildFooterLine_def st(1))
  then show ?thesis using st by blast
qed

lemma DrawFooter_Some:
  assumes "unat (stat_events (stats s)) \<le> 2 ^ 32" "fair_readings now"
  shows "\<exists>line st. DrawFooter now s = Some (s\<lparr>stats := st, footerLine := line,
       console := console s @ footer_text (colorEnabled s) line, footerDrawn := True\<rparr>) \<and>
     stat_events st = stat_events (stats s) \<and> st\<lparr>dropped := 0\<rparr> = (stats s)\<lparr>dropped := 0\<rparr>"
proof (cases "footerLine s = []")
  case True
  obtain line st where "RebuildFooterLine now s = Some (s\<lparr>stats := st, footerLine := line\<rparr>)"
    "stat_events st = stat_events (stats s)" "st\<lparr>dropped := 0\<rparr> = (stats s)\<lparr>dropped := 0\<rparr>"
    using RebuildFooterLine_Some [OF assms] by blast
  then show ?thesis using True by (intro exI [of _ line] exI [of _ st]) (simp add: DrawFooter_def)
next
  case False
  then show ?thesis by (intro exI [of _ "footerLine s"] exI [of _ "stats s"]) (simp add: DrawFooter_def)
qed

subsection \<open>What a session shows\<close>

text \<open>
  The console text is a sequence of segments. Event text and an erasure are in place only where
  the specification allows them: no event text on the line of a footer, and no erasure of
  anything but a footer.
\<close>

datatype segment = EventText string | FooterText string | Erased

fun segment_text :: "bool \<Rightarrow> segment \<Rightarrow> string" where
  "segment_text color (EventText t) = t"
| "segment_text color (FooterText line) = footer_text color line"
| "segment_text color Erased = erase_line"

fun screen :: "segment list \<Rightarrow> bool \<Rightarrow> bool option" where
  "screen [] footer = Some footer"
| "screen (EventText t # segs) footer = (if footer then None else screen segs False)"
| "screen (FooterText line # segs) footer = screen segs True"
| "screen (Erased # segs) footer = (if footer then screen segs False else None)"

lemma screen_append: "screen (a @ b) footer = do { f \<leftarrow> screen a footer; screen b f }"
  by (induction a footer rule: screen.induct) simp_all

fun event_texts :: "segment list \<Rightarrow> string list" where
  "event_texts [] = []"
| "event_texts (EventText t # segs) = t # event_texts segs"
| "event_texts (_ # segs) = event_texts segs"

lemma event_texts_append: "event_texts (a @ b) = event_texts a @ event_texts b"
  by (induction a rule: event_texts.induct) simp_all

fun turn_events :: "thread_turn list \<Rightarrow> trace_event list" where
  "turn_events [] = []"
| "turn_events (EventTurn e now # ts) = e # turn_events ts"
| "turn_events (FooterTurn now # ts) = turn_events ts"

lemma turn_events_append: "turn_events (a @ b) = turn_events a @ turn_events b"
  by (induction a rule: turn_events.induct) simp_all

text \<open>The events as they are rendered: each annotated from the handles the earlier ones opened.\<close>

fun annotated_run :: "HandlePathTracker \<Rightarrow> trace_event list \<Rightarrow> trace_event list" where
  "annotated_run t [] = []"
| "annotated_run t (e # es) = Annotate (Observe t e) e # annotated_run (track e t) es"

lemma annotated_run_snoc:
  "annotated_run t (es @ [e]) = annotated_run t es @ [Annotate (Observe (run_track es t) e) e]"
  by (induction es arbitrary: t) simp_all

definition event_hook :: "trace_event \<Rightarrow> string" where
  "event_hook e = (case ParseTraceEvent e (unat (h_size (header e))) of Some (m, a, fs) \<Rightarrow> m @ ''!'' @ a | None \<Rightarrow> [])"

definition valid_event :: "trace_event \<Rightarrow> bool" where
  "valid_event e \<longleftrightarrow> length (payload e) = PAYLOAD_BYTES \<and> IsValidTraceEvent e (unat (h_size (header e)))"

lemma CurrentHookName_repr: "ev_repr e m a fs \<Longrightarrow> CurrentHookName e = string_of m @ ''!'' @ string_of a"
  by (auto simp: CurrentHookName_def ev_repr_def)

lemma CurrentHookName_Annotate:
  assumes "valid_event e"
  shows "CurrentHookName (Annotate t e) = event_hook e"
proof -
  have len: "length (payload e) = PAYLOAD_BYTES" using assms by (simp add: valid_event_def)
  then obtain m a fs where p: "ParseTraceEvent e (unat (h_size (header e))) = Some (m, a, fs)"
    using assms by (auto simp: valid_event_def IsValidTraceEvent_def)
  then have "ev_repr e (bytes_of m) (bytes_of a) fs" using ParseTraceEvent_iff [OF len] by blast
  from CurrentHookName_repr [OF Annotate_repr(1) [OF this]] show ?thesis by (simp add: event_hook_def p)
qed

definition file_text :: "to_system_time \<Rightarrow> to_utf8 \<Rightarrow> TraceOutputFormat \<Rightarrow> trace_event \<Rightarrow> string" where
  "file_text ft cv fmt e = (if fmt = Jsonl then RenderTraceEventJsonl ft cv e else RenderTraceEventText ft cv e False)"

definition no_paths :: HandlePathTracker where
  "no_paths = \<lparr>handlePaths = []\<rparr>"

text \<open>The session after the events \<open>es\<close>, whatever the footer did in between.\<close>

definition session_after :: "to_system_time \<Rightarrow> to_utf8 \<Rightarrow> TraceOutputOptions \<Rightarrow> bool \<Rightarrow> bool \<Rightarrow> trace_event list \<Rightarrow> trace_session \<Rightarrow> bool" where
  "session_after ft cv opts color foot es s \<longleftrightarrow>
     colorEnabled s = color \<and> footerEnabled s = foot \<and> session_quiet s = quiet opts \<and> outputFormat s = output_format opts \<and>
     started s \<and> \<not> summaryPrinted s \<and> summary_text s = [] \<and>
     (stats s)\<lparr>dropped := 0\<rparr> = recorded (map event_hook es) \<and> handleTracker s = run_track es no_paths \<and>
     output_file s = (if outputPath opts = [] then None
       else Some (concat (map (file_text ft cv (output_format opts)) (annotated_run no_paths es)))) \<and>
     (\<exists>segs. console s = concat (map (segment_text color) segs) \<and> screen segs False = Some (footerDrawn s) \<and>
        (foot \<or> (\<forall>g \<in> set segs. \<exists>t. g = EventText t)) \<and>
        event_texts segs = (if quiet opts then [] else map (\<lambda>e. RenderTraceEventText ft cv e color) (annotated_run no_paths es)))"

lemma session_after_stats:
  "session_after ft cv opts color foot es s \<Longrightarrow> stat_events (stats s) = of_nat (length es)"
  using recorded_state [of "map event_hook es"]
  by (auto simp: session_after_def dest: arg_cong [where f = stat_events])

lemma session_after_bound:
  assumes "session_after ft cv opts color foot es s" "length es \<le> 2 ^ 32"
  shows "unat (stat_events (stats s)) \<le> 2 ^ 32"
proof -
  have "unat (of_nat (length es) :: u64) = length es" using assms(2) by (intro unat_of_nat_small) simp
  then show ?thesis using session_after_stats [OF assms(1)] assms(2) by simp
qed

text \<open>Without a footer there is never one to erase.\<close>

lemma screen_texts: "\<forall>g \<in> set segs. \<exists>t. g = EventText t \<Longrightarrow> screen segs False = Some d \<Longrightarrow> \<not> d"
  by (induction segs) auto

definition shown :: "bool \<Rightarrow> bool \<Rightarrow> string list \<Rightarrow> trace_session \<Rightarrow> bool" where
  "shown color foot texts s \<longleftrightarrow> (\<exists>segs. console s = concat (map (segment_text color) segs) \<and>
     screen segs False = Some (footerDrawn s) \<and> (foot \<or> (\<forall>g \<in> set segs. \<exists>t. g = EventText t)) \<and> event_texts segs = texts)"

lemma shownE:
  assumes "shown color foot texts s"
  obtains segs where "console s = concat (map (segment_text color) segs)" "screen segs False = Some (footerDrawn s)"
    "foot \<or> (\<forall>g \<in> set segs. \<exists>t. g = EventText t)" "event_texts segs = texts"
  using assms unfolding shown_def by blast

lemma shown_footer:
  assumes "shown color True texts s"
  shows "shown color True texts (s\<lparr>stats := st, footerLine := line, console := console s @ footer_text color line, footerDrawn := True\<rparr>)"
proof (rule shownE [OF assms])
  fix segs assume "console s = concat (map (segment_text color) segs)" "screen segs False = Some (footerDrawn s)" "event_texts segs = texts"
  then show ?thesis unfolding shown_def
    by (intro exI [of _ "segs @ [FooterText line]"]) (simp add: screen_append event_texts_append)
qed

lemma shown_erase:
  assumes "shown color foot texts s"
  shows "shown color foot texts (EraseFooter s) \<and> \<not> footerDrawn (EraseFooter s)"
proof (cases "footerDrawn s")
  case True
  show ?thesis
  proof (rule shownE [OF assms])
    fix segs assume segs: "console s = concat (map (segment_text color) segs)" "screen segs False = Some (footerDrawn s)"
      "foot \<or> (\<forall>g \<in> set segs. \<exists>t. g = EventText t)" "event_texts segs = texts"
    then have foot using True screen_texts [of segs] by auto
    then show ?thesis using segs True unfolding shown_def EraseFooter_def
      by (intro conjI exI [of _ "segs @ [Erased]"]) (simp_all add: screen_append event_texts_append)
  qed
qed (simp add: EraseFooter_def assms)

lemma shown_text:
  assumes "shown color foot texts s" "\<not> footerDrawn s"
  shows "shown color foot (texts @ [t]) (s\<lparr>console := console s @ t\<rparr>)"
proof (rule shownE [OF assms(1)])
  fix segs assume "console s = concat (map (segment_text color) segs)" "screen segs False = Some (footerDrawn s)"
    "foot \<or> (\<forall>g \<in> set segs. \<exists>t. g = EventText t)" "event_texts segs = texts"
  then show ?thesis using assms(2) unfolding shown_def
    by (intro exI [of _ "segs @ [EventText t]"]) (simp add: screen_append event_texts_append)
qed

lemma shown_drawn: "shown color foot texts s \<Longrightarrow> footerDrawn s \<Longrightarrow> foot"
  using screen_texts unfolding shown_def by blast

lemma shown_same:
  "shown color foot texts s \<Longrightarrow> console s' = console s \<Longrightarrow> footerDrawn s' = footerDrawn s \<Longrightarrow> shown color foot texts s'"
  by (simp add: shown_def)

lemma session_after_shown:
  "session_after ft cv opts color foot es s \<longleftrightarrow>
     colorEnabled s = color \<and> footerEnabled s = foot \<and> session_quiet s = quiet opts \<and> outputFormat s = output_format opts \<and>
     started s \<and> \<not> summaryPrinted s \<and> summary_text s = [] \<and>
     (stats s)\<lparr>dropped := 0\<rparr> = recorded (map event_hook es) \<and> handleTracker s = run_track es no_paths \<and>
     output_file s = (if outputPath opts = [] then None
       else Some (concat (map (file_text ft cv (output_format opts)) (annotated_run no_paths es)))) \<and>
     shown color foot (if quiet opts then [] else map (\<lambda>e. RenderTraceEventText ft cv e color) (annotated_run no_paths es)) s"
  by (simp add: session_after_def shown_def)

lemma footer_turn_after:
  assumes "session_after ft cv opts color True es s" "fair_readings now" "length es \<le> 2 ^ 32"
  shows "\<exists>s'. footer_turn now s = Some s' \<and> session_after ft cv opts color True es s'"
proof -
  note bound = session_after_bound [OF assms(1,3)]
  obtain line st where r: "RebuildFooterLine now s = Some (s\<lparr>stats := st, footerLine := line\<rparr>)"
    "stat_events st = stat_events (stats s)" "st\<lparr>dropped := 0\<rparr> = (stats s)\<lparr>dropped := 0\<rparr>"
    using RebuildFooterLine_Some [OF bound assms(2)] by blast
  let ?s = "s\<lparr>stats := st, footerLine := line\<rparr>"
  have "unat (stat_events (stats ?s)) \<le> 2 ^ 32" using bound r(2) by simp
  then obtain line' st' where d: "DrawFooter now ?s = Some (?s\<lparr>stats := st', footerLine := line',
       console := console ?s @ footer_text (colorEnabled ?s) line', footerDrawn := True\<rparr>)"
    "st'\<lparr>dropped := 0\<rparr> = (stats ?s)\<lparr>dropped := 0\<rparr>"
    using DrawFooter_Some [OF _ assms(2)] by blast
  have "footer_turn now s = Some (s\<lparr>stats := st', footerLine := line',
      console := console s @ footer_text color line', footerDrawn := True\<rparr>)"
    using assms(1) by (simp add: footer_turn_def r(1) d(1) session_after_def)
  then show ?thesis
    using assms(1) shown_footer [where color = color and s = s and st = st' and line = line'] d(2) r(3) by (simp add: session_after_shown)
qed

lemma EraseFooter_flags [simp]:
  "colorEnabled (EraseFooter s) = colorEnabled s" "footerEnabled (EraseFooter s) = footerEnabled s"
  by (simp_all add: EraseFooter_def)

lemma render_console_after:
  assumes "colorEnabled s = color" "footerEnabled s = foot" "session_quiet s = q"
    and "shown color foot (if q then [] else texts) s" "unat (stat_events (stats s)) \<le> 2 ^ 32" "fair_readings now"
  shows "\<exists>st line con drawn s'. s' = s\<lparr>stats := st, footerLine := line, console := con, footerDrawn := drawn\<rparr> \<and>
     render_console ft cv e now s = Some s' \<and> st\<lparr>dropped := 0\<rparr> = (stats s)\<lparr>dropped := 0\<rparr> \<and>
     shown color foot (if q then [] else texts @ [RenderTraceEventText ft cv e color]) s'"
proof (cases q)
  case True
  then show ?thesis using assms
    by (intro exI [of _ "stats s"] exI [of _ "footerLine s"] exI [of _ "console s"] exI [of _ "footerDrawn s"])
       (simp add: render_console_def)
next
  case False
  let ?t = "RenderTraceEventText ft cv e color"
  define s1 where "s1 = (if foot then EraseFooter s else s)"
  have s1: "\<exists>con. s1 = s\<lparr>console := con, footerDrawn := False\<rparr>"
  proof (cases "footerDrawn s")
    case True
    then show ?thesis using shown_drawn [OF assms(4)] by (auto simp: s1_def EraseFooter_def)
  next
    case False
    then show ?thesis by (intro exI [of _ "console s"]) (simp add: s1_def EraseFooter_def)
  qed
  then obtain con where con: "s1 = s\<lparr>console := con, footerDrawn := False\<rparr>" by blast
  have "shown color foot texts s1 \<and> \<not> footerDrawn s1"
    using shown_erase [OF assms(4)] shown_drawn [OF assms(4)] assms(4) False by (auto simp: s1_def)
  then have written: "shown color foot (texts @ [?t]) (s1\<lparr>console := console s1 @ ?t\<rparr>)"
    using shown_text by blast
  show ?thesis
  proof (cases foot)
    case True
    let ?s2 = "s1\<lparr>console := console s1 @ ?t\<rparr>"
    have "unat (stat_events (stats ?s2)) \<le> 2 ^ 32" using assms(5) by (simp add: con)
    then obtain line st where d: "DrawFooter now ?s2 = Some (?s2\<lparr>stats := st, footerLine := line,
         console := console ?s2 @ footer_text (colorEnabled ?s2) line, footerDrawn := True\<rparr>)"
      "st\<lparr>dropped := 0\<rparr> = (stats ?s2)\<lparr>dropped := 0\<rparr>"
      using DrawFooter_Some [OF _ assms(6)] by blast
    have color: "colorEnabled ?s2 = color" using assms(1) by (simp add: con)
    have "render_console ft cv e now s = DrawFooter now ?s2"
      using False True assms(1-3) color by (simp add: render_console_def s1_def Let_def)
    then show ?thesis
      using d written shown_footer [where color = color and s = "s1\<lparr>console := console s1 @ RenderTraceEventText ft cv e color\<rparr>" and st = st and line = line] True False color
      by (intro exI [of _ st] exI [of _ line] exI [of _ "con @ ?t @ footer_text color line"] exI [of _ True]) (simp add: con)
  next
    case no: False
    then have "render_console ft cv e now s = Some (s1\<lparr>console := console s1 @ ?t\<rparr>)"
      using False assms(1-3) by (simp add: render_console_def s1_def)
    then show ?thesis using written False
      by - (rule exI [of _ "stats s"], rule exI [of _ "footerLine s"], rule exI [of _ "con @ ?t"], rule exI [of _ False],
        simp add: con shown_def)
  qed
qed

lemma writer_turn_after:
  assumes after: "session_after ft cv opts color foot es s" and "valid_event e" "fair_readings now" "length es < 2 ^ 32"
  shows "\<exists>s'. writer_turn ft cv e now s = Some s' \<and> session_after ft cv opts color foot (es @ [e]) s'"
proof -
  let ?t = "run_track es no_paths"
  let ?e = "Annotate (Observe ?t e) e"
  let ?s = "s\<lparr>handleTracker := track e ?t, stats := Record (stats s) (event_hook e)\<rparr>"
  note f = after [unfolded session_after_shown]
  have step: "writer_turn ft cv e now s =
      do { s \<leftarrow> render_console ft cv ?e now ?s; Some (render_file ft cv ?e s) }"
    using f CurrentHookName_Annotate [OF assms(2), of "Observe ?t e"]
    by (simp add: writer_turn_def RenderEvent_def track_def Let_def)
  have n: "stat_events (stats s) + 1 = of_nat (length es + 1)" using session_after_stats [OF after] by simp
  have "unat (of_nat (length es + 1) :: u64) = length es + 1" using assms(4) by (intro unat_of_nat_small) simp
  then have "unat (stat_events (stats s) + 1) \<le> 2 ^ 32" unfolding n using assms(4) by simp
  then have bound: "unat (stat_events (stats ?s)) \<le> 2 ^ 32" by (simp add: Record_def)
  have "shown color foot (if quiet opts then [] else map (\<lambda>e. RenderTraceEventText ft cv e color) (annotated_run no_paths es)) ?s"
    by (rule shown_same [of _ _ _ s]) (use f in simp_all)
  note r = render_console_after [OF _ _ _ this bound assms(3), where ft = ft and cv = cv and e = "Annotate (Observe (run_track es no_paths) e) e"]
  obtain st line con drawn s' where r:
    "s' = ?s\<lparr>stats := st, footerLine := line, console := con, footerDrawn := drawn\<rparr>"
    "render_console ft cv ?e now ?s = Some s'" "st\<lparr>dropped := 0\<rparr> = (stats ?s)\<lparr>dropped := 0\<rparr>"
    "shown color foot (if quiet opts then [] else map (\<lambda>e. RenderTraceEventText ft cv e color) (annotated_run no_paths es) @
       [RenderTraceEventText ft cv ?e color]) s'"
    using f r by auto
  let ?out = "render_file ft cv ?e s'"
  have "writer_turn ft cv e now s = Some ?out" by (simp add: step r(2))
  moreover have "shown color foot (if quiet opts then [] else map (\<lambda>e. RenderTraceEventText ft cv e color) (annotated_run no_paths (es @ [e]))) s'"
    using r(4) by (simp add: annotated_run_snoc split: if_splits)
  then have "shown color foot (if quiet opts then [] else map (\<lambda>e. RenderTraceEventText ft cv e color) (annotated_run no_paths (es @ [e]))) ?out"
    by (rule shown_same) (simp_all add: render_file_def split: option.split)
  moreover have "(stats ?out)\<lparr>dropped := 0\<rparr> = recorded (map event_hook (es @ [e]))"
  proof -
    have "stats ?out = st" by (simp add: render_file_def r(1) split: option.split)
    moreover have "(Record (stats s) h)\<lparr>dropped := 0\<rparr> = Record ((stats s)\<lparr>dropped := 0\<rparr>) h" for h
      by (simp add: Record_def)
    ultimately show ?thesis using r(3) f by (simp add: recorded_snoc)
  qed
  moreover have "output_file ?out = (if outputPath opts = [] then None
      else Some (concat (map (file_text ft cv (output_format opts)) (annotated_run no_paths (es @ [e])))))"
    using f by (simp add: render_file_def r(1) annotated_run_snoc file_text_def)
  moreover have "handleTracker ?out = run_track (es @ [e]) no_paths" "colorEnabled ?out = color" "footerEnabled ?out = foot"
    "session_quiet ?out = quiet opts" "outputFormat ?out = output_format opts" "started ?out" "\<not> summaryPrinted ?out"
    "summary_text ?out = []"
    using f by (simp_all add: render_file_def r(1) split: option.split)
  ultimately show ?thesis unfolding session_after_shown by blast
qed

fun fair_turn :: "bool \<Rightarrow> thread_turn \<Rightarrow> bool" where
  "fair_turn foot (EventTurn e now) \<longleftrightarrow> valid_event e \<and> fair_readings now"
| "fair_turn foot (FooterTurn now) \<longleftrightarrow> foot \<and> fair_readings now"

lemma session_turn_after:
  assumes "session_after ft cv opts color foot es s" "fair_turn foot t" "length es < 2 ^ 32"
  shows "\<exists>s'. session_turn ft cv t s = Some s' \<and> session_after ft cv opts color foot (es @ turn_events [t]) s'"
proof (cases t)
  case (EventTurn e now)
  then show ?thesis using writer_turn_after [OF assms(1) _ _ assms(3)] assms(2) by simp
next
  case (FooterTurn now)
  then show ?thesis using footer_turn_after [of ft cv opts color es s now] assms by simp
qed

lemma length_turn_events: "length (turn_events ts) \<le> length ts"
  by (induction ts rule: turn_events.induct) simp_all

lemma session_turns_after:
  assumes "session_after ft cv opts color foot es s" "\<forall>t \<in> set ts. fair_turn foot t" "length es + length ts \<le> 2 ^ 32"
  shows "\<exists>s'. session_turns ft cv ts s = Some s' \<and> session_after ft cv opts color foot (es @ turn_events ts) s'"
  using assms
proof (induction ts arbitrary: es s)
  case Nil
  then show ?case by simp
next
  case (Cons t ts)
  have "length es < 2 ^ 32" using Cons.prems(3) by simp
  moreover have "fair_turn foot t" using Cons.prems(2) by simp
  ultimately obtain s1 where s1: "session_turn ft cv t s = Some s1" "session_after ft cv opts color foot (es @ turn_events [t]) s1"
    using session_turn_after Cons.prems(1) by blast
  have "length (es @ turn_events [t]) + length ts \<le> 2 ^ 32"
    using Cons.prems(3) length_turn_events [of "[t]"] by simp
  then obtain s' where "session_turns ft cv ts s1 = Some s'"
    "session_after ft cv opts color foot ((es @ turn_events [t]) @ turn_events ts) s'"
    using Cons.IH [OF s1(2)] Cons.prems(2) by auto
  then show ?case using s1(1) turn_events_append [of "[t]" ts] by simp
qed

lemma start_after:
  assumes "start_output opts opened stdoutTty noColorEnv initial_session = (True, s0)"
  shows "session_after ft cv opts (colorEnabled s0) (footerEnabled s0) [] s0"
proof -
  have "shown (colorEnabled s0) (footerEnabled s0) [] s0"
    using assms unfolding shown_def
    by (intro exI [of _ "[]"]) (auto simp: start_output_def OpenOutput_def initial_session_def Let_def split: if_splits)
  then show ?thesis
    using assms
    by (auto simp: session_after_shown start_output_def OpenOutput_def initial_session_def recorded_def no_paths_def
        empty_stats_def Let_def split: if_splits)
qed

lemma FormatSummary_Some: "elapsed now \<le> 2 ^ 62 \<Longrightarrow> \<exists>text. FormatSummary st (elapsed now) = Some text"
  using FormatDuration_Some by (fastforce simp: FormatSummary_def Let_def)

text \<open>The summary erases a footer and prints once.\<close>

lemma PrintSummary_after:
  assumes "session_after ft cv opts color foot es s" "elapsed now \<le> 2 ^ 62"
  shows "\<exists>s' drops. PrintSummary now s = Some s' \<and> \<not> footerDrawn s' \<and> console s' = console (EraseFooter s) \<and>
     output_file s' = output_file s \<and>
     FormatSummary ((recorded (map event_hook es))\<lparr>dropped := drops\<rparr>) (elapsed now) = Some (summary_text s') \<and>
     (\<forall>n. ring_drops now = Some n \<longrightarrow> drops = n) \<and> (\<forall>later. PrintSummary later s' = Some s')"
proof -
  let ?s = "EraseFooter (s\<lparr>summaryPrinted := True\<rparr>)"
  define drops where "drops = (case ring_drops now of Some n \<Rightarrow> n | None \<Rightarrow> dropped (stats s))"
  note f = assms(1) [unfolded session_after_shown]
  have e: "stats ?s = stats s" "summary_text ?s = []" "summaryPrinted ?s" "output_file ?s = output_file s" "\<not> footerDrawn ?s"
    "console ?s = console (EraseFooter s)"
    using f by (simp_all add: EraseFooter_def)
  have st: "refresh_drops now ?s = ?s\<lparr>stats := (stats s)\<lparr>dropped := drops\<rparr>\<rparr>"
    by (cases "ring_drops now") (simp_all add: refresh_drops_def drops_def e)
  have "(stats s)\<lparr>dropped := drops\<rparr> = ((stats s)\<lparr>dropped := 0\<rparr>)\<lparr>dropped := drops\<rparr>" by simp
  then have eq: "(stats s)\<lparr>dropped := drops\<rparr> = (recorded (map event_hook es))\<lparr>dropped := drops\<rparr>" using f by simp
  obtain t where t: "FormatSummary ((stats s)\<lparr>dropped := drops\<rparr>) (elapsed now) = Some t"
    using FormatSummary_Some [OF assms(2)] by blast
  define s' where "s' = ?s\<lparr>stats := (stats s)\<lparr>dropped := drops\<rparr>, summary_text := t\<rparr>"
  have "PrintSummary now s = Some s'" using f t e(2) by (simp add: PrintSummary_def st s'_def)
  moreover have "\<not> footerDrawn s'" "console s' = console (EraseFooter s)" "output_file s' = output_file s" "summary_text s' = t"
    "PrintSummary later s' = Some s'" for later
    using e by (simp_all add: s'_def PrintSummary_def)
  moreover have "\<forall>n. ring_drops now = Some n \<longrightarrow> drops = n" by (simp add: drops_def)
  ultimately show ?thesis using t unfolding eq by blast
qed

subsection \<open>Properties\<close>

text \<open>C10: A session records every event, whatever the footer does. After any interleaving of writer
  and footer turns over valid events no conversion fails, the output file (when there is one)
  holds exactly the rendering of every event in order, each annotated from the handles opened
  before it and never coloured, and the summary, printed once however often the session is
  stopped, counts every event under its hook, with the drops the ring reports.\<close>

theorem session_records_everything:
  assumes "start_output opts opened stdoutTty noColorEnv initial_session = (True, s0)"
    and "\<forall>t \<in> set ts. fair_turn (footerEnabled s0) t" "length ts \<le> 2 ^ 32" "elapsed now \<le> 2 ^ 62"
  shows "\<exists>s s' drops. session_turns ft cv ts s0 = Some s \<and> PrintSummary now s = Some s' \<and>
     output_file s' = (if outputPath opts = [] then None
       else Some (concat (map (file_text ft cv (output_format opts)) (annotated_run no_paths (turn_events ts))))) \<and>
     FormatSummary ((recorded (map event_hook (turn_events ts)))\<lparr>dropped := drops\<rparr>) (elapsed now) = Some (summary_text s') \<and>
     (\<forall>n. ring_drops now = Some n \<longrightarrow> drops = n) \<and> (\<forall>later. PrintSummary later s' = Some s')"
proof -
  obtain s where s: "session_turns ft cv ts s0 = Some s"
    "session_after ft cv opts (colorEnabled s0) (footerEnabled s0) (turn_events ts) s"
    using session_turns_after [OF start_after [OF assms(1)] assms(2), of ft cv] assms(3) by auto
  moreover from this(2) have "output_file s = (if outputPath opts = [] then None
       else Some (concat (map (file_text ft cv (output_format opts)) (annotated_run no_paths (turn_events ts)))))"
    by (simp add: session_after_def)
  ultimately show ?thesis using PrintSummary_after [OF s(2) assms(4)] by auto
qed

text \<open>C38: The console never mixes events and the footer. Without \<open>--quiet\<close> the console shows exactly
  the text of every event in order, else none; event text is written only on a line that holds
  no footer, only a footer is ever erased, a session without a footer writes event text only,
  and after the summary no footer is left.\<close>

theorem console_never_mixes:
  assumes "start_output opts opened stdoutTty noColorEnv initial_session = (True, s0)"
    and "\<forall>t \<in> set ts. fair_turn (footerEnabled s0) t" "length ts \<le> 2 ^ 32" "elapsed now \<le> 2 ^ 62"
  shows "\<exists>s s' segs. session_turns ft cv ts s0 = Some s \<and> PrintSummary now s = Some s' \<and>
     console s' = concat (map (segment_text (colorEnabled s0)) segs) \<and> screen segs False = Some False \<and>
     (footerEnabled s0 \<or> (\<forall>g \<in> set segs. \<exists>t. g = EventText t)) \<and>
     event_texts segs = (if quiet opts then []
       else map (\<lambda>e. RenderTraceEventText ft cv e (colorEnabled s0)) (annotated_run no_paths (turn_events ts)))"
proof -
  let ?texts = "if quiet opts then []
    else map (\<lambda>e. RenderTraceEventText ft cv e (colorEnabled s0)) (annotated_run no_paths (turn_events ts))"
  obtain s where s: "session_turns ft cv ts s0 = Some s"
    "session_after ft cv opts (colorEnabled s0) (footerEnabled s0) (turn_events ts) s"
    using session_turns_after [OF start_after [OF assms(1)] assms(2), of ft cv] assms(3) by auto
  then have "shown (colorEnabled s0) (footerEnabled s0) ?texts s" by (simp only: session_after_shown)
  then have "shown (colorEnabled s0) (footerEnabled s0) ?texts (EraseFooter s)" "\<not> footerDrawn (EraseFooter s)"
    using shown_erase by blast+
  then obtain segs where "console (EraseFooter s) = concat (map (segment_text (colorEnabled s0)) segs)"
    "screen segs False = Some False" "footerEnabled s0 \<or> (\<forall>g \<in> set segs. \<exists>t. g = EventText t)" "event_texts segs = ?texts"
    unfolding shown_def by auto
  moreover obtain s' where "PrintSummary now s = Some s'" "console s' = console (EraseFooter s)"
    using PrintSummary_after [OF s(2) assms(4)] by blast
  ultimately show ?thesis using s(1) by metis
qed

definition sample_options :: TraceOutputOptions where
  "sample_options = \<lparr>output_format = Jsonl, outputPath = [99], quiet = False, color_mode = Auto, status_mode = Always\<rparr>"

definition sample_readings :: readings where
  "sample_readings = \<lparr>elapsed = 1, width = 80, ring_drops = Some 2\<rparr>"

lemma sample_start:
  obtains s0 where "start_output sample_options True False False initial_session = (True, s0)" "footerEnabled s0" "\<not> colorEnabled s0"
  by (simp add: start_output_def OpenOutput_def sample_options_def Let_def)

lemma fair_sample: "fair_readings sample_readings"
  by (simp add: fair_readings_def sample_readings_def power_int_minus)

abbreviation sample_turns :: "thread_turn list" where
  "sample_turns \<equiv> [FooterTurn sample_readings, EventTurn sample_event sample_readings]"

lemma sample_turns_fair: "\<forall>t \<in> set sample_turns. fair_turn True t"
  using fair_sample sample_event_parse by (simp add: valid_event_def IsValidTraceEvent_def)

lemma session_records_everything_witness:
  "\<exists>s0 s s'. session_turns (\<lambda>_. None) (\<lambda>_. None) sample_turns s0 = Some s \<and> PrintSummary sample_readings s = Some s' \<and>
     output_file s' = Some (RenderTraceEventJsonl (\<lambda>_. None) (\<lambda>_. None) (Annotate (Observe no_paths sample_event) sample_event)) \<and>
     PrintSummary sample_readings s' = Some s'"
proof -
  obtain s0 where s0: "start_output sample_options True False False initial_session = (True, s0)" "footerEnabled s0" by (rule sample_start)
  have fair: "\<forall>t \<in> set sample_turns. fair_turn (footerEnabled s0) t" using sample_turns_fair s0(2) by simp
  have len: "length sample_turns \<le> 2 ^ 32" "elapsed sample_readings \<le> 2 ^ 62" by (simp_all add: sample_readings_def)
  from session_records_everything [OF s0(1) fair len, of "\<lambda>_. None" "\<lambda>_. None"]
  obtain s s' where s: "session_turns (\<lambda>_. None) (\<lambda>_. None) sample_turns s0 = Some s" "PrintSummary sample_readings s = Some s'"
    "output_file s' = (if outputPath sample_options = [] then None
      else Some (concat (map (file_text (\<lambda>_. None) (\<lambda>_. None) (output_format sample_options)) (annotated_run no_paths (turn_events sample_turns)))))"
    "PrintSummary sample_readings s' = Some s'" by blast
  then have "output_file s' = Some (RenderTraceEventJsonl (\<lambda>_. None) (\<lambda>_. None) (Annotate (Observe no_paths sample_event) sample_event))"
    by (simp add: sample_options_def file_text_def)
  with s show ?thesis by blast
qed

lemma console_never_mixes_witness:
  "\<exists>s0 s s' segs. session_turns (\<lambda>_. None) (\<lambda>_. None) sample_turns s0 = Some s \<and> PrintSummary sample_readings s = Some s' \<and>
     console s' = concat (map (segment_text False) segs) \<and> screen segs False = Some False \<and> length (event_texts segs) = 1"
proof -
  obtain s0 where s0: "start_output sample_options True False False initial_session = (True, s0)" "footerEnabled s0" "\<not> colorEnabled s0"
    by (rule sample_start)
  have fair: "\<forall>t \<in> set sample_turns. fair_turn (footerEnabled s0) t" using sample_turns_fair s0(2) by simp
  have len: "length sample_turns \<le> 2 ^ 32" "elapsed sample_readings \<le> 2 ^ 62" by (simp_all add: sample_readings_def)
  from console_never_mixes [OF s0(1) fair len, of "\<lambda>_. None" "\<lambda>_. None"]
  obtain s s' segs where s: "session_turns (\<lambda>_. None) (\<lambda>_. None) sample_turns s0 = Some s" "PrintSummary sample_readings s = Some s'"
    "console s' = concat (map (segment_text (colorEnabled s0)) segs)" "screen segs False = Some False"
    "event_texts segs = (if quiet sample_options then []
       else map (\<lambda>e. RenderTraceEventText (\<lambda>_. None) (\<lambda>_. None) e (colorEnabled s0)) (annotated_run no_paths (turn_events sample_turns)))"
    by blast
  moreover from s(5) have "length (event_texts segs) = 1" by (simp add: sample_options_def)
  moreover have "colorEnabled s0 = False" using s0(3) by simp
  ultimately show ?thesis by metis
qed

end
