(* ===== verification/Session_Queue.thy ===== *)
theory Session_Queue
  imports Session_Output
begin

section \<open>The queue between reader and writer\<close>

text \<open>
  The two threads of \<open>src/apiscope/trace_session.cpp\<close> that share \<open>eventQueue_\<close>: \<open>queueEvent\<close> and the
  end of \<open>ReaderLoop\<close> on one side, the head of \<open>WriterLoop\<close> on the other. A wait on a condition
  variable with a predicate is a step enabled by the predicate; the mutex makes each step atomic.
  \<open>unread\<close> holds the events the reader takes from the ring, whose delivery the ring theories prove.
\<close>

definition TRACE_EVENT_QUEUE_CAPACITY :: nat where
  "TRACE_EVENT_QUEUE_CAPACITY = 16384"

record queue_state =
  unread :: "trace_event list"
  eventQueue :: "trace_event list"
  readerFinished :: bool
  taken :: "trace_event list"
  malformed :: nat
  writerEnded :: bool

definition queue_start :: "trace_event list \<Rightarrow> queue_state" where
  "queue_start es = \<lparr>unread = es, eventQueue = [], readerFinished = False, taken = [], malformed = 0, writerEnded = False\<rparr>"

abbreviation well_formed :: "trace_event \<Rightarrow> bool" where
  "well_formed e \<equiv> IsValidTraceEvent e (unat (h_size (header e)))"

text \<open>\<open>queueEvent\<close>, and the end of the reader thread.\<close>

inductive queue_event_step :: "queue_state \<Rightarrow> queue_state \<Rightarrow> bool" where
  ignore: "unread s = e # es \<Longrightarrow> \<not> well_formed e \<Longrightarrow>
    queue_event_step s (s\<lparr>unread := es, malformed := malformed s + 1\<rparr>)"
| push: "unread s = e # es \<Longrightarrow> well_formed e \<Longrightarrow> length (eventQueue s) < TRACE_EVENT_QUEUE_CAPACITY \<Longrightarrow>
    queue_event_step s (s\<lparr>unread := es, eventQueue := eventQueue s @ [e]\<rparr>)"
| finish: "unread s = [] \<Longrightarrow> \<not> readerFinished s \<Longrightarrow> queue_event_step s (s\<lparr>readerFinished := True\<rparr>)"

inductive writer_loop_step :: "queue_state \<Rightarrow> queue_state \<Rightarrow> bool" where
  take_front: "\<not> writerEnded s \<Longrightarrow> eventQueue s = e # q \<Longrightarrow>
    writer_loop_step s (s\<lparr>eventQueue := q, taken := taken s @ [e]\<rparr>)"
| stop_writer: "\<not> writerEnded s \<Longrightarrow> eventQueue s = [] \<Longrightarrow> readerFinished s \<Longrightarrow> writer_loop_step s (s\<lparr>writerEnded := True\<rparr>)"

inductive queue_step :: "queue_state \<Rightarrow> queue_state \<Rightarrow> bool" where
  reader_side: "queue_event_step s s' \<Longrightarrow> queue_step s s'"
| writer_side: "writer_loop_step s s' \<Longrightarrow> queue_step s s'"

inductive_cases queue_event_stepE: "queue_event_step s s'"
inductive_cases writer_loop_stepE: "writer_loop_step s s'"
inductive_cases queue_stepE: "queue_step s s'"

inductive queue_run :: "nat \<Rightarrow> queue_state \<Rightarrow> queue_state \<Rightarrow> bool" where
  stay: "queue_run 0 s s"
| go: "queue_run n s t \<Longrightarrow> queue_step t u \<Longrightarrow> queue_run (Suc n) s u"

text \<open>What is yet to do: each unread event takes two steps, each queued one, the two ends one each.\<close>

definition work_left :: "queue_state \<Rightarrow> nat" where
  "work_left s = 2 * length (unread s) + length (eventQueue s) + of_bool (\<not> readerFinished s) + of_bool (\<not> writerEnded s)"

lemma queue_step_work: "queue_step s s' \<Longrightarrow> work_left s' < work_left s"
  by (auto elim!: queue_stepE queue_event_stepE writer_loop_stepE simp: work_left_def)

definition queue_inv :: "trace_event list \<Rightarrow> queue_state \<Rightarrow> bool" where
  "queue_inv es s \<longleftrightarrow> length (eventQueue s) \<le> TRACE_EVENT_QUEUE_CAPACITY \<and>
     taken s @ eventQueue s @ filter well_formed (unread s) = filter well_formed es \<and>
     malformed s + length (filter (\<lambda>e. \<not> well_formed e) (unread s)) = length (filter (\<lambda>e. \<not> well_formed e) es) \<and>
     (readerFinished s \<longrightarrow> unread s = []) \<and> (writerEnded s \<longrightarrow> readerFinished s \<and> eventQueue s = [])"

lemma queue_step_inv: "queue_step s s' \<Longrightarrow> queue_inv es s \<Longrightarrow> queue_inv es s'"
  by (auto elim!: queue_stepE queue_event_stepE writer_loop_stepE simp: queue_inv_def)

lemma queue_run_inv: "queue_run n s s' \<Longrightarrow> queue_inv es s \<Longrightarrow> queue_inv es s' \<and> work_left s' + n \<le> work_left s"
  by (induction rule: queue_run.induct) (auto dest: queue_step_inv queue_step_work)

lemma queue_stuck:
  assumes "queue_inv es s" "\<And>s'. \<not> queue_step s s'"
  shows "writerEnded s"
proof (rule ccontr)
  assume open_end: "\<not> writerEnded s"
  have empty: "eventQueue s = []" using assms(2) writer_side take_front [OF open_end] by (cases "eventQueue s") auto
  have "unread s = []"
  proof (cases "unread s")
    case (Cons e es)
    have "length (eventQueue s) < TRACE_EVENT_QUEUE_CAPACITY" by (simp add: empty TRACE_EVENT_QUEUE_CAPACITY_def)
    then show ?thesis using ignore [OF Cons] push [OF Cons] assms(2) reader_side by blast
  qed
  then have "readerFinished s" using assms(2) finish reader_side by blast
  then show False using assms(2) writer_side stop_writer [OF open_end empty] by blast
qed



end
