(* ===== verification/Session_Remote.thy ===== *)
theory Session_Remote
  imports Hook_Manager Trace_Ring
begin

section \<open>The remote side of a session\<close>

text \<open>
  The part of \<open>src/apiscope/trace_session.cpp\<close> that shares the ring with the target: making the
  section and the wake event, filling in the transport exports of the hook image, the two bypass
  trampolines, and taking everything back. The Windows calls are parameters. Beside the memory
  and the regions of \<open>Remote_Process\<close> the documented behaviour speaks of two more resources of the
  target: the views of the ring mapped into it and the handles duplicated into it.
\<close>

record 's session_os =
  process_os :: "'s os"
  CreateFileMappingW :: "'s \<Rightarrow> bool \<times> 's"
  MapViewOfFile :: "'s \<Rightarrow> bool \<times> 's"
  NtMapViewOfSection :: "'s \<Rightarrow> addr option \<times> 's"
  NtUnmapViewOfSection :: "'s \<Rightarrow> addr \<Rightarrow> bool \<times> 's"
  CreateEventW :: "'s \<Rightarrow> bool \<times> 's"
  DuplicateHandle :: "'s \<Rightarrow> u64 option \<times> 's"
  DuplicateCloseSource :: "'s \<Rightarrow> u64 \<Rightarrow> bool \<times> 's"

type_synonym 's resources = "('s \<Rightarrow> addr set) \<times> ('s \<Rightarrow> u64 set)"

abbreviation views :: "'s resources \<Rightarrow> 's \<Rightarrow> addr set" where "views \<equiv> fst"
abbreviation handles :: "'s resources \<Rightarrow> 's \<Rightarrow> u64 set" where "handles \<equiv> snd"

text \<open>\<open>sizeof(TraceRing)\<close>: a header of 64 bytes and slots of 1088 bytes, aligned to 64.\<close>

definition SIZEOF_TRACE_RING :: nat where
  "SIZEOF_TRACE_RING = 64 + 16384 * 1088"

definition same_resources :: "'s resources \<Rightarrow> 's \<Rightarrow> 's \<Rightarrow> bool" where
  "same_resources w s s' \<longleftrightarrow> views w s' = views w s \<and> handles w s' = handles w s"

definition idle :: "'s observed \<Rightarrow> 's resources \<Rightarrow> 's \<Rightarrow> 's \<Rightarrow> bool" where
  "idle v w s s' \<longleftrightarrow> unchanged v s s' \<and> same_resources w s s'"

definition process_calls_keep :: "'s os \<Rightarrow> 's resources \<Rightarrow> bool" where
  "process_calls_keep os w \<longleftrightarrow>
     (\<forall>s a bs r s'. WriteProcessMemory os s a bs = (r, s') \<longrightarrow> same_resources w s s') \<and>
     (\<forall>s a n p r s'. VirtualProtectEx os s a n p = (r, s') \<longrightarrow> same_resources w s s') \<and>
     (\<forall>s n p a s'. VirtualAllocEx os s n p = (a, s') \<longrightarrow> same_resources w s s') \<and>
     (\<forall>s a r s'. VirtualFreeEx os s a = (r, s') \<longrightarrow> same_resources w s s') \<and>
     (\<forall>s a n r s'. FlushInstructionCache os s a n = (r, s') \<longrightarrow> same_resources w s s')"

definition session_ok :: "'s session_os \<Rightarrow> 's observed \<Rightarrow> 's resources \<Rightarrow> bool" where
  "session_ok os v w \<longleftrightarrow> os_ok (process_os os) v \<and> process_calls_keep (process_os os) w \<and>
     (\<forall>s r s'. CreateFileMappingW os s = (r, s') \<longrightarrow> idle v w s s') \<and>
     (\<forall>s r s'. MapViewOfFile os s = (r, s') \<longrightarrow> idle v w s s') \<and>
     (\<forall>s r s'. CreateEventW os s = (r, s') \<longrightarrow> idle v w s s') \<and>
     (\<forall>s s'. NtMapViewOfSection os s = (None, s') \<longrightarrow> idle v w s s') \<and>
     (\<forall>s a s'. NtMapViewOfSection os s = (Some a, s') \<longrightarrow> a \<noteq> 0 \<and> a \<notin> views w s \<and> views w s' = insert a (views w s) \<and>
        handles w s' = handles w s \<and> regions v s' = regions v s \<and>
        (\<forall>x. outside x a SIZEOF_TRACE_RING \<longrightarrow> rmem v s' x = rmem v s x)) \<and>
     (\<forall>s a s'. NtUnmapViewOfSection os s a = (False, s') \<longrightarrow> idle v w s s') \<and>
     (\<forall>s a s'. NtUnmapViewOfSection os s a = (True, s') \<longrightarrow> a \<in> views w s \<and> views w s' = views w s - {a} \<and>
        handles w s' = handles w s \<and> regions v s' = regions v s \<and>
        (\<forall>x. outside x a SIZEOF_TRACE_RING \<longrightarrow> rmem v s' x = rmem v s x)) \<and>
     (\<forall>s s'. DuplicateHandle os s = (None, s') \<longrightarrow> idle v w s s') \<and>
     (\<forall>s h s'. DuplicateHandle os s = (Some h, s') \<longrightarrow> h \<noteq> 0 \<and> h \<notin> handles w s \<and> handles w s' = insert h (handles w s) \<and>
        views w s' = views w s \<and> unchanged v s s') \<and>
     (\<forall>s h s'. DuplicateCloseSource os s h = (False, s') \<longrightarrow> idle v w s s') \<and>
     (\<forall>s h s'. DuplicateCloseSource os s h = (True, s') \<longrightarrow> h \<in> handles w s \<and> handles w s' = handles w s - {h} \<and>
        views w s' = views w s \<and> unchanged v s s')"

subsection \<open>The link to the target\<close>

record ring_link =
  mappingHandle :: bool
  localRing :: "trace_ring option"
  remoteRing :: addr
  wakeEvent :: bool
  remoteWakeEvent :: u64
  setEventBypass :: RemoteTrampoline
  readMemoryBypass :: RemoteTrampoline

definition no_trampoline :: RemoteTrampoline where
  "no_trampoline = \<lparr>trampoline_address = 0, patchSize = 0\<rparr>"

definition initial_link :: ring_link where
  "initial_link = \<lparr>mappingHandle = False, localRing = None, remoteRing = 0, wakeEvent = False, remoteWakeEvent = 0,
     setEventBypass = no_trampoline, readMemoryBypass = no_trampoline\<rparr>"

definition ReleaseLocalRing :: "ring_link \<Rightarrow> ring_link" where
  "ReleaseLocalRing l = l\<lparr>wakeEvent := False, localRing := None, mappingHandle := False\<rparr>"

text \<open>The failure path once the view exists in the target.\<close>

definition drop_remote_ring :: "'s session_os \<Rightarrow> ring_link \<Rightarrow> 's \<Rightarrow> bool \<times> ring_link \<times> 's" where
  "drop_remote_ring os l s =
     (let (unmapped, s) = NtUnmapViewOfSection os s (remoteRing l)
      in (False, ReleaseLocalRing (l\<lparr>remoteRing := 0\<rparr>), s))"

definition CreateSharedRing :: "'s session_os \<Rightarrow> ring_link \<Rightarrow> 's \<Rightarrow> bool \<times> ring_link \<times> 's" where
  "CreateSharedRing os l s =
     (let (made, s) = CreateFileMappingW os s; l = l\<lparr>mappingHandle := made\<rparr>
      in if \<not> made then (False, l, s)
         else
          (let (mapped, s) = MapViewOfFile os s
           in if \<not> mapped then (False, ReleaseLocalRing (l\<lparr>localRing := None\<rparr>), s)
              else
               (let l = l\<lparr>localRing := Some init_ring\<rparr>; (remoteBase, s) = NtMapViewOfSection os s
                in case remoteBase of None \<Rightarrow> (False, ReleaseLocalRing l, s)
                   | Some base \<Rightarrow>
                      (let l = l\<lparr>remoteRing := base\<rparr>; (event, s) = CreateEventW os s; l = l\<lparr>wakeEvent := event\<rparr>
                       in if \<not> event then drop_remote_ring os l s
                          else
                           (let (duplicate, s) = DuplicateHandle os s
                            in case duplicate of None \<Rightarrow> drop_remote_ring os l s
                               | Some handle \<Rightarrow> (True, l\<lparr>remoteWakeEvent := handle\<rparr>, s))))))"

definition WriteRemoteExport :: "'s os \<Rightarrow> addr \<Rightarrow> string \<Rightarrow> byte list \<Rightarrow> 's \<Rightarrow> bool \<times> 's" where
  "WriteRemoteExport os hookImageBase name value s =
     (case GetRemoteExport os s hookImageBase name of None \<Rightarrow> (False, s)
      | Some remoteExport \<Rightarrow>
          if address remoteExport = 0 then (False, s)
          else WriteProcessMemory os s (address remoteExport) value)"

definition ConfigureTransport :: "zydis \<Rightarrow> 's os \<Rightarrow> addr \<Rightarrow> addr \<Rightarrow> ring_link \<Rightarrow> 's \<Rightarrow> bool \<times> ring_link \<times> 's" where
  "ConfigureTransport zydis os ntdllBase hookImageBase l s =
     (case CreateBypassTrampolineForFunction zydis os ntdllBase ''NtSetEvent'' s of
        (None, s) \<Rightarrow> (False, l, s)
      | (Some setEvent, s) \<Rightarrow>
         (let l = l\<lparr>setEventBypass := setEvent\<rparr>
          in case CreateBypassTrampolineForFunction zydis os ntdllBase ''NtReadVirtualMemory'' s of
               (None, s) \<Rightarrow> (False, l, s)
             | (Some readMemory, s) \<Rightarrow>
                (let l = l\<lparr>readMemoryBypass := readMemory\<rparr>;
                     (written, s) = WriteRemoteExport os hookImageBase ''TransportNtSetEvent''
                       (le_bytes (trampoline_address setEvent)) s
                 in if \<not> written then (False, l, s)
                    else (let (written, s) = WriteRemoteExport os hookImageBase ''TransportNtReadVirtualMemory''
                            (le_bytes (trampoline_address readMemory)) s
                          in (written, l, s)))))"

text \<open>The part of \<open>Start\<close> behind the output: the ring and three exports, or nothing.\<close>

definition start_remote :: "'s session_os \<Rightarrow> addr \<Rightarrow> ring_link \<Rightarrow> 's \<Rightarrow> bool \<times> ring_link \<times> 's" where
  "start_remote os hookImageBase l s =
     (let (made, l, s) = CreateSharedRing os l s
      in if \<not> made then (False, l, s)
         else
          (let (ok, s) = WriteRemoteExport (process_os os) hookImageBase ''TransportRing'' (le_bytes (remoteRing l)) s
           in if \<not> ok then drop_remote_ring os l s
              else
               (let (ok, s) = WriteRemoteExport (process_os os) hookImageBase ''TransportWakeEvent'' (le_bytes (remoteWakeEvent l)) s
                in if \<not> ok then drop_remote_ring os l s
                   else
                    (let (ok, s) = WriteRemoteExport (process_os os) hookImageBase ''ActiveHookCalls'' (le_bytes (0 :: u32)) s
                     in if \<not> ok then drop_remote_ring os l s else (True, l, s)))))"

text \<open>One export of \<open>CleanupRemote\<close> after the other is cleared, whatever became of the last.\<close>

fun clear_exports :: "'s os \<Rightarrow> addr \<Rightarrow> string list \<Rightarrow> bool \<Rightarrow> 's \<Rightarrow> bool \<times> 's" where
  "clear_exports os hookImageBase [] cleaned s = (cleaned, s)"
| "clear_exports os hookImageBase (name # names) cleaned s =
     (let (ok, s) = WriteRemoteExport os hookImageBase name null_bytes s
      in clear_exports os hookImageBase names (ok \<and> cleaned) s)"

definition transport_exports :: "string list" where
  "transport_exports = [''TransportRing'', ''TransportWakeEvent'', ''TransportNtSetEvent'', ''TransportNtReadVirtualMemory'']"

definition free_trampoline :: "'s os \<Rightarrow> RemoteTrampoline \<Rightarrow> bool \<Rightarrow> 's \<Rightarrow> bool \<times> 's" where
  "free_trampoline os bypass cleaned s =
     (if trampoline_address bypass = 0 then (cleaned, s)
      else (let (freed, s) = VirtualFreeEx os s (trampoline_address bypass) in (freed \<and> cleaned, s)))"

definition CleanupRemote :: "'s session_os \<Rightarrow> addr \<Rightarrow> ring_link \<Rightarrow> 's \<Rightarrow> bool \<times> ring_link \<times> 's" where
  "CleanupRemote os hookImageBase l s =
     (let (cleaned, s) = clear_exports (process_os os) hookImageBase transport_exports True s;
          (cleaned, s) = (if remoteRing l = 0 then (cleaned, s)
            else (let (unmapped, s) = NtUnmapViewOfSection os s (remoteRing l) in (unmapped \<and> cleaned, s)));
          l = l\<lparr>remoteRing := 0\<rparr>;
          (cleaned, s) = (if remoteWakeEvent l = 0 then (cleaned, s)
            else (let (closed, s) = DuplicateCloseSource os s (remoteWakeEvent l) in (closed \<and> cleaned, s)));
          l = l\<lparr>remoteWakeEvent := 0\<rparr>;
          (cleaned, s) = free_trampoline (process_os os) (setEventBypass l) cleaned s;
          (cleaned, s) = free_trampoline (process_os os) (readMemoryBypass l) cleaned s
      in (cleaned, l\<lparr>setEventBypass := no_trampoline, readMemoryBypass := no_trampoline\<rparr>, s))"

subsection \<open>Who holds what in the target\<close>

text \<open>
  A ledger: beside what the target had before (\<open>base\<close>), the launcher holds the listed regions,
  views and handles, each once.
\<close>

record base_resources =
  base_regions :: "addr \<Rightarrow> nat option"
  base_views :: "addr set"
  base_handles :: "u64 set"

definition holds :: "'s observed \<Rightarrow> 's resources \<Rightarrow> base_resources \<Rightarrow> (addr \<times> nat) list \<Rightarrow> addr list \<Rightarrow> u64 list \<Rightarrow> 's \<Rightarrow> bool" where
  "holds v w base rs vs hs s \<longleftrightarrow>
     distinct (map fst rs) \<and> (\<forall>a \<in> fst ` set rs. base_regions base a = None) \<and> regions v s = base_regions base ++ map_of rs \<and>
     distinct vs \<and> set vs \<inter> base_views base = {} \<and> views w s = base_views base \<union> set vs \<and>
     distinct hs \<and> set hs \<inter> base_handles base = {} \<and> handles w s = base_handles base \<union> set hs"

text \<open>Windows releases what it handed out: the documented behaviour for a region, view or handle that exists.\<close>

definition releases_succeed :: "'s session_os \<Rightarrow> 's observed \<Rightarrow> 's resources \<Rightarrow> bool" where
  "releases_succeed os v w \<longleftrightarrow>
     (\<forall>s a. regions v s a \<noteq> None \<longrightarrow> fst (VirtualFreeEx (process_os os) s a)) \<and>
     (\<forall>s a. a \<in> views w s \<longrightarrow> fst (NtUnmapViewOfSection os s a)) \<and>
     (\<forall>s h. h \<in> handles w s \<longrightarrow> fst (DuplicateCloseSource os s h))"

definition same_holdings :: "'s observed \<Rightarrow> 's resources \<Rightarrow> 's \<Rightarrow> 's \<Rightarrow> bool" where
  "same_holdings v w s s' \<longleftrightarrow> regions v s' = regions v s \<and> same_resources w s s'"

lemma same_holdings_refl [simp]: "same_holdings v w s s"
  by (simp add: same_holdings_def same_resources_def)

lemma same_holdings_trans: "same_holdings v w s t \<Longrightarrow> same_holdings v w t u \<Longrightarrow> same_holdings v w s u"
  by (simp add: same_holdings_def same_resources_def)

lemma same_holdings_holds: "same_holdings v w s s' \<Longrightarrow> holds v w base rs vs hs s \<Longrightarrow> holds v w base rs vs hs s'"
  by (simp add: same_holdings_def same_resources_def holds_def)

lemma idle_same: "idle v w s s' \<Longrightarrow> same_holdings v w s s'"
  by (simp add: idle_def unchanged_def same_holdings_def)

lemma session_os_ok: "session_ok os v w \<Longrightarrow> os_ok (process_os os) v"
  by (simp add: session_ok_def)

lemma session_keeps: "session_ok os v w \<Longrightarrow> process_calls_keep (process_os os) w"
  by (simp add: session_ok_def)

lemma write_same:
  assumes ok: "session_ok os v w" and run: "WriteProcessMemory (process_os os) s a bs = (r, s')"
  shows "same_holdings v w s s'"
proof -
  have "os_ok (process_os os) v" "same_resources w s s'"
    using session_os_ok [OF ok] session_keeps [OF ok] run by (auto simp: process_calls_keep_def)
  then show ?thesis using os_write_ok [of "process_os os" v s a bs s'] os_write_fails [of "process_os os" v s a bs s'] run
    by (cases r) (auto simp: same_holdings_def unchanged_def)
qed

lemma protect_same:
  assumes ok: "session_ok os v w" and run: "VirtualProtectEx (process_os os) s a n p = (r, s')"
  shows "same_holdings v w s s'"
proof -
  have "os_ok (process_os os) v" "same_resources w s s'"
    using session_os_ok [OF ok] session_keeps [OF ok] run by (auto simp: process_calls_keep_def)
  then show ?thesis using os_protect [OF _ run] by (auto simp: same_holdings_def unchanged_def)
qed

lemma flush_same:
  assumes ok: "session_ok os v w" and run: "FlushInstructionCache (process_os os) s a n = (r, s')"
  shows "same_holdings v w s s'"
proof -
  have "os_ok (process_os os) v" "same_resources w s s'"
    using session_os_ok [OF ok] session_keeps [OF ok] run by (auto simp: process_calls_keep_def)
  then show ?thesis using os_flush [OF _ run] by (auto simp: same_holdings_def unchanged_def)
qed

text \<open>A new region joins the ledger, a released one leaves it.\<close>

lemma alloc_holds:
  assumes ok: "session_ok os v w" and run: "VirtualAllocEx (process_os os) s n p = (a, s')"
    and holds: "holds v w base rs vs hs s"
  shows "if a = 0 then same_holdings v w s s' else holds v w base ((a, n) # rs) vs hs s'"
proof -
  have os: "os_ok (process_os os) v" and same: "same_resources w s s'"
    using session_os_ok [OF ok] session_keeps [OF ok] run by (auto simp: process_calls_keep_def)
  show ?thesis
  proof (cases "a = 0")
    case True
    then show ?thesis using os_alloc_fails [OF os] run same by (simp add: same_holdings_def unchanged_def)
  next
    case False
    have "regions v s a = None" "regions v s' = (regions v s)(a \<mapsto> n)" using os_alloc [OF os run False] by blast+
    moreover from this(1) have "base_regions base a = None" "a \<notin> fst ` set rs"
      using holds by (auto simp: holds_def map_add_None map_of_eq_None_iff)
    ultimately show ?thesis using holds same False by (auto simp: holds_def same_resources_def)
  qed
qed

lemma map_of_without:
  assumes "distinct (map fst rs)" "b \<notin> dom m"
  shows "(m ++ map_of rs)(b := None) = m ++ map_of (filter (\<lambda>r. fst r \<noteq> b) rs)"
proof
  fix x
  have "map_of (filter (\<lambda>r. fst r \<noteq> b) rs) x = (if x = b then None else map_of rs x)"
    by (induction rs) auto
  then show "((m ++ map_of rs)(b := None)) x = (m ++ map_of (filter (\<lambda>r. fst r \<noteq> b) rs)) x"
    using assms(2) by (auto simp: map_add_def split: option.splits)
qed

lemma releasing:
  assumes "releases_succeed os v w"
  shows "regions v s a \<noteq> None \<Longrightarrow> VirtualFreeEx (process_os os) s a = (r, s') \<Longrightarrow> r"
    "a \<in> views w s \<Longrightarrow> NtUnmapViewOfSection os s a = (r, s') \<Longrightarrow> r"
    "h \<in> handles w s \<Longrightarrow> DuplicateCloseSource os s h = (r, s') \<Longrightarrow> r"
  using assms unfolding releases_succeed_def by (metis fst_conv)+

lemma free_holds:
  assumes ok: "session_ok os v w" and works: "releases_succeed os v w" and run: "VirtualFreeEx (process_os os) s a = (r, s')"
    and holds: "holds v w base rs vs hs s" and held: "a \<in> fst ` set rs"
  shows "r \<and> holds v w base (filter (\<lambda>r. fst r \<noteq> a) rs) vs hs s'"
proof -
  have os: "os_ok (process_os os) v" and same: "same_resources w s s'"
    using session_os_ok [OF ok] session_keeps [OF ok] run by (auto simp: process_calls_keep_def)
  have dist: "distinct (map fst rs)" and base: "a \<notin> dom (base_regions base)" using holds held by (auto simp: holds_def)
  have "map_of rs a \<noteq> None" using held by (auto simp: map_of_eq_None_iff)
  then have "regions v s a \<noteq> None" using holds by (auto simp: holds_def map_add_def split: option.split)
  then have r: r using releasing(1) [OF works] run by blast
  then have "regions v s' = (regions v s)(a := None)" using os_free [OF os, of s a s'] run by auto
  then have "regions v s' = base_regions base ++ map_of (filter (\<lambda>r. fst r \<noteq> a) rs)"
    using map_of_without [OF dist base] holds by (simp add: holds_def)
  then show ?thesis using r holds same by (auto simp: holds_def same_resources_def distinct_map_filter)
qed

lemma free_held:
  assumes ok: "session_ok os v w" and works: "releases_succeed os v w" and run: "VirtualFreeEx (process_os os) s a = (r, s')"
    and holds: "holds v w base (xs @ (a, n) # ys) vs hs s"
  shows "r \<and> holds v w base (xs @ ys) vs hs s'"
proof -
  have "a \<notin> fst ` set (xs @ ys)" using holds by (auto simp: holds_def)
  then have "filter (\<lambda>r. fst r \<noteq> a) (xs @ ys) = xs @ ys" by (metis (mono_tags, lifting) filter_True image_eqI)
  then have "filter (\<lambda>r. fst r \<noteq> a) (xs @ (a, n) # ys) = xs @ ys" by simp
  then show ?thesis using free_holds [OF ok works run holds] by simp
qed

lemma session_map:
  "session_ok os v w \<Longrightarrow> NtMapViewOfSection os s = (Some a, s') \<Longrightarrow> a \<noteq> 0 \<and> a \<notin> views w s \<and>
     views w s' = insert a (views w s) \<and> handles w s' = handles w s \<and> regions v s' = regions v s"
  by (simp add: session_ok_def)

lemma session_unmap:
  "session_ok os v w \<Longrightarrow> NtUnmapViewOfSection os s a = (True, s') \<Longrightarrow>
     views w s' = views w s - {a} \<and> handles w s' = handles w s \<and> regions v s' = regions v s"
  by (simp add: session_ok_def)

lemma session_duplicate:
  "session_ok os v w \<Longrightarrow> DuplicateHandle os s = (Some h, s') \<Longrightarrow> h \<noteq> 0 \<and> h \<notin> handles w s \<and>
     handles w s' = insert h (handles w s) \<and> views w s' = views w s \<and> unchanged v s s'"
  by (simp add: session_ok_def)

lemma session_close:
  "session_ok os v w \<Longrightarrow> DuplicateCloseSource os s h = (True, s') \<Longrightarrow>
     handles w s' = handles w s - {h} \<and> views w s' = views w s \<and> unchanged v s s'"
  by (simp add: session_ok_def)

lemma map_view_holds:
  assumes ok: "session_ok os v w" and run: "NtMapViewOfSection os s = (r, s')" and holds: "holds v w base rs vs hs s"
  shows "case r of None \<Rightarrow> same_holdings v w s s' | Some a \<Rightarrow> a \<noteq> 0 \<and> holds v w base rs (a # vs) hs s'"
proof (cases r)
  case None
  then show ?thesis using ok run by (auto simp: session_ok_def intro: idle_same)
next
  case (Some a)
  then have "a \<noteq> 0 \<and> a \<notin> views w s \<and> views w s' = insert a (views w s) \<and> handles w s' = handles w s \<and> regions v s' = regions v s"
    using session_map [OF ok] run by simp
  then show ?thesis using holds Some by (simp add: holds_def)
qed

lemma unmap_holds:
  assumes ok: "session_ok os v w" and works: "releases_succeed os v w" and run: "NtUnmapViewOfSection os s a = (r, s')"
    and holds: "holds v w base rs (a # vs) hs s"
  shows "r \<and> holds v w base rs vs hs s'"
proof -
  have "a \<in> views w s" using holds by (simp add: holds_def)
  then have r: r using releasing(2) [OF works] run by blast
  then have "views w s' = views w s - {a} \<and> handles w s' = handles w s \<and> regions v s' = regions v s"
    using session_unmap [OF ok] run by simp
  then show ?thesis using holds r unfolding holds_def by auto
qed

lemma duplicate_holds:
  assumes ok: "session_ok os v w" and run: "DuplicateHandle os s = (r, s')" and holds: "holds v w base rs vs hs s"
  shows "case r of None \<Rightarrow> same_holdings v w s s' | Some h \<Rightarrow> h \<noteq> 0 \<and> holds v w base rs vs (h # hs) s'"
proof (cases r)
  case None
  then show ?thesis using ok run by (auto simp: session_ok_def intro: idle_same)
next
  case (Some h)
  then have "h \<noteq> 0 \<and> h \<notin> handles w s \<and> handles w s' = insert h (handles w s) \<and> views w s' = views w s \<and> unchanged v s s'"
    using session_duplicate [OF ok] run by simp
  then show ?thesis using holds Some by (simp add: holds_def unchanged_def)
qed

lemma close_holds:
  assumes ok: "session_ok os v w" and works: "releases_succeed os v w" and run: "DuplicateCloseSource os s h = (r, s')"
    and holds: "holds v w base rs vs (h # hs) s"
  shows "r \<and> holds v w base rs vs hs s'"
proof -
  have "h \<in> handles w s" using holds by (simp add: holds_def)
  then have r: r using releasing(3) [OF works] run by blast
  then have "handles w s' = handles w s - {h} \<and> views w s' = views w s \<and> unchanged v s s'"
    using session_close [OF ok] run by simp
  then show ?thesis using holds r unfolding holds_def unchanged_def by auto
qed

lemma local_calls_same:
  assumes "session_ok os v w"
  shows "CreateFileMappingW os s = (r, s') \<Longrightarrow> same_holdings v w s s'" "MapViewOfFile os s = (r, s') \<Longrightarrow> same_holdings v w s s'"
    "CreateEventW os s = (r, s') \<Longrightarrow> same_holdings v w s s'"
  using assms by (auto simp: session_ok_def intro: idle_same)

text \<open>The order of the ledger does not matter.\<close>

lemma holds_set:
  assumes "holds v w base rs vs hs s" "set rs' = set rs" "distinct (map fst rs')"
  shows "holds v w base rs' vs hs s"
proof -
  have "map_of rs' = map_of rs" using assms map_of_inject_set [of rs' rs] by (simp add: holds_def)
  then show ?thesis using assms by (simp add: holds_def)
qed

lemma holds_distinct: "holds v w base rs vs hs s \<Longrightarrow> distinct (map fst rs)"
  by (simp add: holds_def)

lemma holds_perm:
  assumes "holds v w base rs vs hs s" "mset rs' = mset rs"
  shows "holds v w base rs' vs hs s"
proof (rule holds_set [OF assms(1)])
  have "mset (map fst rs') = mset (map fst rs)" using assms(2) by simp
  then show "distinct (map fst rs')" using holds_distinct [OF assms(1)] mset_eq_imp_distinct_iff by blast
qed (rule mset_eq_setD [OF assms(2)])

lemma holds_append:
  assumes "holds v w base (xs @ rs) vs hs s" "set ys = set xs" "distinct (map fst ys)"
  shows "holds v w base (rs @ ys) vs hs s"
proof (rule holds_set [OF assms(1)])
  show "set (rs @ ys) = set (xs @ rs)" using assms(2) by auto
  have "fst ` set ys = fst ` set xs" using assms(2) by simp
  then show "distinct (map fst (rs @ ys))" using holds_distinct [OF assms(1)] assms(3) by auto
qed

subsection \<open>Trampolines in the ledger\<close>

lemma WriteRemoteExport_same:
  "session_ok os v w \<Longrightarrow> WriteRemoteExport (process_os os) b name bs s = (r, s') \<Longrightarrow> same_holdings v w s s'"
  using write_same by (fastforce simp: WriteRemoteExport_def split: option.splits if_splits)

lemma CreateTrampoline_same:
  assumes ok: "session_ok os v w" and run: "CreateTrampoline (process_os os) f T k s = (r, s')"
  shows "same_holdings v w s s'"
proof (cases "ReadProcessMemory (process_os os) s f k")
  case None
  then show ?thesis using run by (simp add: CreateTrampoline_def)
next
  case (Some bytes)
  obtain wr s1 where w1: "WriteProcessMemory (process_os os) s T (bytes @ jump_code (f + of_nat k)) = (wr, s1)" by fastforce
  obtain old s2 where p: "VirtualProtectEx (process_os os) s1 T (k + PATCH_SIZE) PAGE_EXECUTE_READ = (old, s2)" by fastforce
  obtain fl s3 where f: "FlushInstructionCache (process_os os) s2 T (k + PATCH_SIZE) = (fl, s3)" by fastforce
  have "s' = s1 \<or> s' = s2 \<or> s' = s3" using run Some w1 p f by (auto simp: CreateTrampoline_def split: if_splits)
  moreover note s1 = write_same [OF ok w1]
  moreover note s2 = same_holdings_trans [OF s1 protect_same [OF ok p]]
  moreover note same_holdings_trans [OF s2 flush_same [OF ok f]]
  ultimately show ?thesis by (elim disjE) simp_all
qed

lemma CreateBypassTrampoline_holds:
  assumes ok: "session_ok os v w" and works: "releases_succeed os v w"
    and run: "CreateBypassTrampoline zydis (process_os os) f s = (t, s')" and holds: "holds v w base rs vs hs s"
  shows "case t of None \<Rightarrow> holds v w base rs vs hs s'
     | Some t \<Rightarrow> trampoline_address t \<noteq> 0 \<and> holds v w base ((trampoline_address t, TRAMPOLINE_SIZE) # rs) vs hs s'"
proof (cases "CalculatePatchSize zydis (process_os os) s f = 0")
  case True
  then show ?thesis using run holds by (auto simp: CreateBypassTrampoline_def)
next
  case False
  let ?k = "CalculatePatchSize zydis (process_os os) s f"
  obtain T s1 where a: "VirtualAllocEx (process_os os) s TRAMPOLINE_SIZE PAGE_READWRITE = (T, s1)" by fastforce
  note alloc = alloc_holds [OF ok a holds]
  show ?thesis
  proof (cases "T = 0")
    case True
    then have "t = None" "s' = s1" using run a False by (simp_all add: CreateBypassTrampoline_def Let_def)
    then show ?thesis using alloc True same_holdings_holds [OF _ holds] by simp
  next
    case nz: False
    obtain made s2 where c: "CreateTrampoline (process_os os) f T ?k s1 = (made, s2)" by fastforce
    have held: "holds v w base ((T, TRAMPOLINE_SIZE) # rs) vs hs s2"
      using alloc nz same_holdings_holds [OF CreateTrampoline_same [OF ok c]] by simp
    show ?thesis
    proof (cases made)
      case True
      then show ?thesis using run a c False nz held by (auto simp: CreateBypassTrampoline_def Let_def)
    next
      case no: False
      obtain r s3 where fr: "VirtualFreeEx (process_os os) s2 T = (r, s3)" by fastforce
      have "t = None" "s' = s3" using run a c False nz no fr by (auto simp: CreateBypassTrampoline_def Let_def)
      then show ?thesis using free_held [OF ok works fr, of base "[]"] held by simp
    qed
  qed
qed

lemma CreateBypassTrampolineForFunction_holds:
  assumes ok: "session_ok os v w" and works: "releases_succeed os v w"
    and run: "CreateBypassTrampolineForFunction zydis (process_os os) b name s = (t, s')" and holds: "holds v w base rs vs hs s"
  shows "case t of None \<Rightarrow> holds v w base rs vs hs s'
     | Some t \<Rightarrow> trampoline_address t \<noteq> 0 \<and> holds v w base ((trampoline_address t, TRAMPOLINE_SIZE) # rs) vs hs s'"
proof -
  have "t = None \<and> s' = s \<or> (\<exists>f. CreateBypassTrampoline zydis (process_os os) f s = (t, s'))"
    using run by (auto simp: CreateBypassTrampolineForFunction_def split: option.splits if_splits)
  then show ?thesis using CreateBypassTrampoline_holds [OF ok works _ holds, of zydis _ t s'] holds by auto
qed

subsection \<open>The ledger of a session\<close>

definition bypass_region :: "RemoteTrampoline \<Rightarrow> (addr \<times> nat) list" where
  "bypass_region t = (if trampoline_address t = 0 then [] else [(trampoline_address t, TRAMPOLINE_SIZE)])"

definition link_regions :: "ring_link \<Rightarrow> (addr \<times> nat) list" where
  "link_regions l = bypass_region (setEventBypass l) @ bypass_region (readMemoryBypass l)"

definition link_views :: "ring_link \<Rightarrow> addr list" where
  "link_views l = (if remoteRing l = 0 then [] else [remoteRing l])"

definition link_handles :: "ring_link \<Rightarrow> u64 list" where
  "link_handles l = (if remoteWakeEvent l = 0 then [] else [remoteWakeEvent l])"

definition ledger :: "'s observed \<Rightarrow> 's resources \<Rightarrow> base_resources \<Rightarrow> (addr \<times> nat) list \<Rightarrow> ring_link \<Rightarrow> 's \<Rightarrow> bool" where
  "ledger v w base rs l s \<longleftrightarrow> holds v w base (rs @ link_regions l) (link_views l) (link_handles l) s"

lemma ledger_same: "same_holdings v w s s' \<Longrightarrow> ledger v w base rs l s \<Longrightarrow> ledger v w base rs l s'"
  unfolding ledger_def by (rule same_holdings_holds)

lemma drop_remote_ring_ledger:
  assumes ok: "session_ok os v w" and works: "releases_succeed os v w" and run: "drop_remote_ring os l s = (r, l', s')"
    and led: "ledger v w base rs l s" and ring: "remoteRing l \<noteq> 0"
  shows "\<not> r \<and> remoteRing l' = 0 \<and> ledger v w base rs l' s'"
proof -
  obtain u s1 where u: "NtUnmapViewOfSection os s (remoteRing l) = (u, s1)" by fastforce
  have "holds v w base (rs @ link_regions l) [remoteRing l] (link_handles l) s"
    using led ring by (simp add: ledger_def link_views_def)
  then have "holds v w base (rs @ link_regions l) [] (link_handles l) s1"
    using unmap_holds [OF ok works u] by blast
  then show ?thesis using run u
    by (auto simp: drop_remote_ring_def ReleaseLocalRing_def ledger_def link_regions_def link_views_def link_handles_def)
qed

lemma CreateSharedRing_ledger:
  assumes ok: "session_ok os v w" and works: "releases_succeed os v w" and run: "CreateSharedRing os l s = (r, l', s')"
    and led: "ledger v w base rs l s" and empty: "remoteRing l = 0" "remoteWakeEvent l = 0"
  shows "ledger v w base rs l' s' \<and> (if r then remoteRing l' \<noteq> 0 else remoteRing l' = 0)"
proof -
  have keep: "ledger v w base rs l2 t" if "same_holdings v w s t" "remoteRing l2 = remoteRing l" "remoteWakeEvent l2 = remoteWakeEvent l"
    "setEventBypass l2 = setEventBypass l" "readMemoryBypass l2 = readMemoryBypass l" for l2 t
    using ledger_same [OF that(1) led] that(2-5) by (simp only: ledger_def link_regions_def link_views_def link_handles_def)
  obtain m s1 where m: "CreateFileMappingW os s = (m, s1)" by fastforce
  obtain g s2 where g: "MapViewOfFile os s1 = (g, s2)" by fastforce
  obtain b s3 where b: "NtMapViewOfSection os s2 = (b, s3)" by fastforce
  note same1 = local_calls_same(1) [OF ok m]
  note same2 = same_holdings_trans [OF same1 local_calls_same(2) [OF ok g]]
  have start: "holds v w base (rs @ link_regions l) [] [] s2"
    using ledger_same [OF same2 led] empty by (simp add: ledger_def link_views_def link_handles_def)
  note mapped = map_view_holds [OF ok b start]
  consider (early) "\<not> m" | (view) "m" "\<not> g" | (none) "m" "g" "b = None" | (base) a where "m" "g" "b = Some a" by (cases b) auto
  then show ?thesis
  proof cases
    case early
    then have "l' = l\<lparr>mappingHandle := False\<rparr>" "s' = s1" "\<not> r" using run m by (simp_all add: CreateSharedRing_def)
    then show ?thesis using keep [OF same1, of l'] empty by simp
  next
    case view
    then have "l' = ReleaseLocalRing (l\<lparr>mappingHandle := True, localRing := None\<rparr>)" "s' = s2" "\<not> r"
      using run m g by (simp_all add: CreateSharedRing_def Let_def)
    then show ?thesis using keep [OF same2, of l'] empty by (simp add: ReleaseLocalRing_def)
  next
    case none
    then have "l' = ReleaseLocalRing (l\<lparr>mappingHandle := True, localRing := Some init_ring\<rparr>)" "s' = s3" "\<not> r"
      using run m g b by (simp_all add: CreateSharedRing_def Let_def)
    moreover have "same_holdings v w s s3" using mapped none(3) same2 same_holdings_trans by simp
    ultimately show ?thesis using keep [of s3 l'] empty by (simp add: ReleaseLocalRing_def)
  next
    case base
    obtain e s4 where e: "CreateEventW os s3 = (e, s4)" by fastforce
    obtain d s5 where d: "DuplicateHandle os s4 = (d, s5)" by fastforce
    let ?l = "l\<lparr>mappingHandle := True, localRing := Some init_ring, remoteRing := a, wakeEvent := e\<rparr>"
    have a: "a \<noteq> 0" "holds v w base (rs @ link_regions l) [a] [] s3" using mapped base(3) by simp_all
    have held: "holds v w base (rs @ link_regions l) [a] [] s4"
      by (rule same_holdings_holds [OF local_calls_same(3) [OF ok e] a(2)])
    then have led4: "ledger v w base rs ?l s4" using a(1) empty by (simp add: ledger_def link_regions_def link_views_def link_handles_def)
    note dup = duplicate_holds [OF ok d held]
    show ?thesis
    proof (cases "e \<and> d \<noteq> None")
      case True
      then obtain h where h: "d = Some h" by auto
      have "l' = ?l\<lparr>remoteWakeEvent := h\<rparr>" "s' = s5" "r"
        using run m g b e d base True h by (simp_all add: CreateSharedRing_def Let_def)
      then show ?thesis using dup h a(1) by (simp add: ledger_def link_regions_def link_views_def link_handles_def)
    next
      case False
      then obtain t where t: "drop_remote_ring os ?l t = (r, l', s')" "same_holdings v w s4 t"
        using run m g b e d base dup by (cases e) (auto simp: CreateSharedRing_def Let_def)
      show ?thesis using drop_remote_ring_ledger [OF ok works t(1) ledger_same [OF t(2) led4]] a(1) by simp
    qed
  qed
qed

lemma start_remote_ledger:
  assumes ok: "session_ok os v w" and works: "releases_succeed os v w" and run: "start_remote os b l s = (r, l', s')"
    and led: "ledger v w base rs l s" and empty: "remoteRing l = 0" "remoteWakeEvent l = 0"
  shows "ledger v w base rs l' s'"
proof -
  obtain m l1 s1 where m: "CreateSharedRing os l s = (m, l1, s1)" by (metis prod_cases3)
  note made = CreateSharedRing_ledger [OF ok works m led empty]
  show ?thesis
  proof (cases m)
    case False
    then show ?thesis using run m made by (simp add: start_remote_def)
  next
    case True
    then have ring: "remoteRing l1 \<noteq> 0" "ledger v w base rs l1 s1" using made by simp_all
    obtain o1 s2 where w1: "WriteRemoteExport (process_os os) b ''TransportRing'' (le_bytes (remoteRing l1)) s1 = (o1, s2)" by fastforce
    obtain o2 s3 where w2: "WriteRemoteExport (process_os os) b ''TransportWakeEvent'' (le_bytes (remoteWakeEvent l1)) s2 = (o2, s3)" by fastforce
    obtain o3 s4 where w3: "WriteRemoteExport (process_os os) b ''ActiveHookCalls'' (le_bytes (0 :: u32)) s3 = (o3, s4)" by fastforce
    note l2 = ledger_same [OF WriteRemoteExport_same [OF ok w1] ring(2)]
    note l3 = ledger_same [OF WriteRemoteExport_same [OF ok w2] l2]
    note l4 = ledger_same [OF WriteRemoteExport_same [OF ok w3] l3]
    have "l' = l1 \<and> s' = s4 \<or> (\<exists>t. drop_remote_ring os l1 t = (r, l', s') \<and> ledger v w base rs l1 t)"
      using run m True w1 w2 w3 l2 l3 l4 by (cases o1; cases o2; cases o3) (auto simp: start_remote_def)
    then show ?thesis using drop_remote_ring_ledger [OF ok works] ring(1) l4 by blast
  qed
qed

lemma ConfigureTransport_ledger:
  assumes ok: "session_ok os v w" and works: "releases_succeed os v w"
    and run: "ConfigureTransport zydis (process_os os) ntdll b l s = (r, l', s')" and led: "ledger v w base rs l s"
    and empty: "setEventBypass l = no_trampoline" "readMemoryBypass l = no_trampoline"
  shows "ledger v w base rs l' s' \<and> remoteRing l' = remoteRing l \<and> remoteWakeEvent l' = remoteWakeEvent l"
proof -
  let ?h = "\<lambda>rs' s. holds v w base rs' (link_views l) (link_handles l) s"
  have start: "?h rs s" using led empty by (simp add: ledger_def link_regions_def bypass_region_def no_trampoline_def)
  obtain t1 s1 where c1: "CreateBypassTrampolineForFunction zydis (process_os os) ntdll ''NtSetEvent'' s = (t1, s1)" by fastforce
  note r1 = CreateBypassTrampolineForFunction_holds [OF ok works c1 start]
  show ?thesis
  proof (cases t1)
    case None
    then show ?thesis using run c1 r1 empty
      by (simp add: ConfigureTransport_def ledger_def link_regions_def bypass_region_def no_trampoline_def)
  next
    case (Some se)
    then have h1: "trampoline_address se \<noteq> 0" "?h ((trampoline_address se, TRAMPOLINE_SIZE) # rs) s1" using r1 by simp_all
    obtain t2 s2 where c2: "CreateBypassTrampolineForFunction zydis (process_os os) ntdll ''NtReadVirtualMemory'' s1 = (t2, s2)" by fastforce
    note r2 = CreateBypassTrampolineForFunction_holds [OF ok works c2 h1(2)]
    show ?thesis
    proof (cases t2)
      case None
      then have l': "l' = l\<lparr>setEventBypass := se\<rparr>" "s' = s2" using run c1 c2 Some by (simp_all add: ConfigureTransport_def)
      then have same: "link_views l' = link_views l" "link_handles l' = link_handles l"
        "link_regions l' = [(trampoline_address se, TRAMPOLINE_SIZE)]"
        using h1(1) empty by (simp_all add: link_views_def link_handles_def link_regions_def bypass_region_def no_trampoline_def)
      have "?h (rs @ [(trampoline_address se, TRAMPOLINE_SIZE)]) s2"
        by (rule holds_append [where xs = "[(trampoline_address se, TRAMPOLINE_SIZE)]"]) (use r2 None in simp_all)
      then have "ledger v w base rs l' s'" unfolding ledger_def same l'(2) by simp
      then show ?thesis using l'(1) by simp
    next
      case (Some rm)
      then have h2: "trampoline_address rm \<noteq> 0"
        "?h ((trampoline_address rm, TRAMPOLINE_SIZE) # (trampoline_address se, TRAMPOLINE_SIZE) # rs) s2" using r2 by simp_all
      obtain w1 s3 where w1: "WriteRemoteExport (process_os os) b ''TransportNtSetEvent'' (le_bytes (trampoline_address se)) s2 = (w1, s3)" by fastforce
      obtain w2 s4 where w2: "WriteRemoteExport (process_os os) b ''TransportNtReadVirtualMemory'' (le_bytes (trampoline_address rm)) s3 = (w2, s4)" by fastforce
      have l': "l' = l\<lparr>setEventBypass := se, readMemoryBypass := rm\<rparr>" "s' = s3 \<or> s' = s4"
        using run c1 c2 \<open>t1 = Some se\<close> Some w1 w2 by (auto simp: ConfigureTransport_def Let_def split: if_splits)
      have "same_holdings v w s2 s'"
        using l'(2) WriteRemoteExport_same [OF ok w1] same_holdings_trans [OF WriteRemoteExport_same [OF ok w1] WriteRemoteExport_same [OF ok w2]]
        by auto
      then have "?h (rs @ [(trampoline_address se, TRAMPOLINE_SIZE), (trampoline_address rm, TRAMPOLINE_SIZE)]) s'"
        using same_holdings_holds [OF _ h2(2)] holds_distinct [OF h2(2)]
        by - (rule holds_append [where xs = "[(trampoline_address rm, TRAMPOLINE_SIZE), (trampoline_address se, TRAMPOLINE_SIZE)]"], auto)
      moreover have "link_views l' = link_views l" "link_handles l' = link_handles l"
        "link_regions l' = [(trampoline_address se, TRAMPOLINE_SIZE), (trampoline_address rm, TRAMPOLINE_SIZE)]"
        using h1(1) h2(1) l'(1) by (simp_all add: link_views_def link_handles_def link_regions_def bypass_region_def)
      ultimately have "ledger v w base rs l' s'" unfolding ledger_def by simp
      then show ?thesis using l'(1) by simp
    qed
  qed
qed

lemma clear_exports_same:
  assumes ok: "session_ok os v w"
  shows "clear_exports (process_os os) b names c s = (r, s') \<Longrightarrow> same_holdings v w s s'"
proof (induction names arbitrary: c s)
  case (Cons name names)
  obtain o1 s1 where w1: "WriteRemoteExport (process_os os) b name null_bytes s = (o1, s1)" by fastforce
  then show ?case using Cons same_holdings_trans [OF WriteRemoteExport_same [OF ok w1]] by auto
qed simp

lemma free_trampoline_holds:
  assumes ok: "session_ok os v w" and works: "releases_succeed os v w" and run: "free_trampoline (process_os os) t c s = (r, s')"
    and held: "holds v w base (rs @ bypass_region t @ qs) vs hs s"
  shows "r = c \<and> holds v w base (rs @ qs) vs hs s'"
proof (cases "trampoline_address t = 0")
  case True
  then show ?thesis using run held by (simp add: free_trampoline_def bypass_region_def)
next
  case False
  obtain f s1 where f: "VirtualFreeEx (process_os os) s (trampoline_address t) = (f, s1)" by fastforce
  have "holds v w base (rs @ (trampoline_address t, TRAMPOLINE_SIZE) # qs) vs hs s" using held False by (simp add: bypass_region_def)
  from free_held [OF ok works f this] show ?thesis using run f False by (auto simp: free_trampoline_def)
qed

lemma CleanupRemote_ledger:
  assumes ok: "session_ok os v w" and works: "releases_succeed os v w" and run: "CleanupRemote os b l s = (r, l', s')"
    and led: "ledger v w base rs l s"
  shows "holds v w base rs [] [] s' \<and> remoteRing l' = 0 \<and> remoteWakeEvent l' = 0 \<and> setEventBypass l' = no_trampoline \<and>
     readMemoryBypass l' = no_trampoline \<and> r = fst (clear_exports (process_os os) b transport_exports True s)"
proof -
  obtain c1 s1 where c1: "clear_exports (process_os os) b transport_exports True s = (c1, s1)" by fastforce
  define x2 where "x2 = (if remoteRing l = 0 then (c1, s1)
    else (let (unmapped, s) = NtUnmapViewOfSection os s1 (remoteRing l) in (unmapped \<and> c1, s)))"
  obtain c2 s2 where c2: "x2 = (c2, s2)" by fastforce
  define x3 where "x3 = (if remoteWakeEvent l = 0 then (c2, s2)
    else (let (closed, s) = DuplicateCloseSource os s2 (remoteWakeEvent l) in (closed \<and> c2, s)))"
  obtain c3 s3 where c3: "x3 = (c3, s3)" by fastforce
  obtain c4 s4 where c4: "free_trampoline (process_os os) (setEventBypass l) c3 s3 = (c4, s4)" by fastforce
  obtain c5 s5 where c5: "free_trampoline (process_os os) (readMemoryBypass l) c4 s4 = (c5, s5)" by fastforce
  have end': "r = c5" "s' = s5"
    "l' = l\<lparr>remoteRing := 0, remoteWakeEvent := 0, setEventBypass := no_trampoline, readMemoryBypass := no_trampoline\<rparr>"
    using run c2 c3 unfolding x2_def x3_def by (auto simp: CleanupRemote_def c1 c4 c5 Let_def split: if_splits prod.splits)
  have h1: "holds v w base (rs @ link_regions l) (link_views l) (link_handles l) s1"
    using same_holdings_holds [OF clear_exports_same [OF ok c1]] led by (simp add: ledger_def)
  have h2: "c2 = c1 \<and> holds v w base (rs @ link_regions l) [] (link_handles l) s2"
  proof (cases "remoteRing l = 0")
    case False
    obtain u t where u: "NtUnmapViewOfSection os s1 (remoteRing l) = (u, t)" by fastforce
    then show ?thesis using unmap_holds [OF ok works u, of base "rs @ link_regions l" "[]" "link_handles l"] h1 c2 False
      by (simp add: x2_def link_views_def)
  qed (use h1 c2 in \<open>simp add: x2_def link_views_def\<close>)
  have h3: "c3 = c2 \<and> holds v w base (rs @ link_regions l) [] [] s3"
  proof (cases "remoteWakeEvent l = 0")
    case False
    obtain u t where u: "DuplicateCloseSource os s2 (remoteWakeEvent l) = (u, t)" by fastforce
    then show ?thesis using close_holds [OF ok works u, of base "rs @ link_regions l" "[]" "[]"] h2 c3 False
      by (simp add: x3_def link_handles_def)
  qed (use h2 c3 in \<open>simp add: x3_def link_handles_def\<close>)
  then have "holds v w base (rs @ bypass_region (setEventBypass l) @ bypass_region (readMemoryBypass l)) [] [] s3"
    by (simp add: link_regions_def)
  from free_trampoline_holds [OF ok works c4 this]
  have h4: "c4 = c3" "holds v w base (rs @ bypass_region (readMemoryBypass l) @ []) [] [] s4" by simp_all
  from free_trampoline_holds [OF ok works c5 h4(2)] h2 h3 h4(1) end' show ?thesis by (simp add: c1)
qed

lemma initial_ledger:
  "ledger v w \<lparr>base_regions = regions v s, base_views = views w s, base_handles = handles w s\<rparr> [] initial_link s"
  by (simp add: ledger_def holds_def initial_link_def link_regions_def link_views_def link_handles_def bypass_region_def no_trampoline_def)

lemma start_remote_bypasses:
  "start_remote os b l s = (r, l', s') \<Longrightarrow> setEventBypass l' = setEventBypass l \<and> readMemoryBypass l' = readMemoryBypass l"
  by (auto simp: start_remote_def CreateSharedRing_def drop_remote_ring_def ReleaseLocalRing_def Let_def
      split: prod.splits if_splits option.splits)

lemma holds_nothing:
  "holds v w \<lparr>base_regions = regions v s, base_views = views w s, base_handles = handles w s\<rparr> [] [] [] s' \<longleftrightarrow> same_holdings v w s s'"
  by (auto simp: holds_def same_holdings_def same_resources_def)

text \<open>A session takes back all it put into the target. Whether or not the ring could be shared and
  the two bypass trampolines made, at whatever call a step stopped, the cleanup leaves the target
  with exactly the regions, views and handles it had before the session, it forgets them, and it
  reports success just when the four exports of the hook image could be cleared.\<close>

theorem session_leaves_nothing:
  assumes ok: "session_ok os v w" and works: "releases_succeed os v w"
    and start: "start_remote os hookImageBase initial_link s = (started, l1, s1)"
    and runs1: "same_holdings v w s1 s2"
    and bypasses: "ConfigureTransport zydis (process_os os) ntdllBase hookImageBase l1 s2 = (configured, l2, s3) \<or> l2 = l1 \<and> s3 = s2"
    and runs2: "same_holdings v w s3 s4"
    and cleanup: "CleanupRemote os hookImageBase l2 s4 = (cleaned, l3, s5)"
  shows "regions v s5 = regions v s \<and> views w s5 = views w s \<and> handles w s5 = handles w s \<and>
     remoteRing l3 = 0 \<and> remoteWakeEvent l3 = 0 \<and> setEventBypass l3 = no_trampoline \<and> readMemoryBypass l3 = no_trampoline \<and>
     cleaned = fst (clear_exports (process_os os) hookImageBase transport_exports True s4)"
proof -
  let ?base = "\<lparr>base_regions = regions v s, base_views = views w s, base_handles = handles w s\<rparr>"
  have "ledger v w ?base [] l1 s1"
    by (rule start_remote_ledger [OF ok works start initial_ledger]) (simp_all add: initial_link_def)
  then have s2: "ledger v w ?base [] l1 s2" by (rule ledger_same [OF runs1])
  have none: "setEventBypass l1 = no_trampoline" "readMemoryBypass l1 = no_trampoline"
    using start_remote_bypasses [OF start] by (simp_all add: initial_link_def)
  have "ledger v w ?base [] l2 s3"
    using bypasses s2 ConfigureTransport_ledger [OF ok works _ s2 none] by blast
  then have "ledger v w ?base [] l2 s4" by (rule ledger_same [OF runs2])
  from CleanupRemote_ledger [OF ok works cleanup this]
  show ?thesis by (simp add: holds_nothing same_holdings_def same_resources_def)
qed

subsection \<open>A session on the sample process\<close>

type_synonym session_sim = "sim \<times> addr set \<times> u64 set"

definition lift_call :: "(sim \<Rightarrow> 'a \<times> sim) \<Rightarrow> session_sim \<Rightarrow> 'a \<times> session_sim" where
  "lift_call f s = (let (r, p) = f (fst s) in (r, (p, snd s)))"

definition session_sim_os :: "session_sim session_os" where
  "session_sim_os = \<lparr>
     process_os = \<lparr>
       ReadProcessMemory = (\<lambda>s. ReadProcessMemory (sim_os {}) (fst s)),
       WriteProcessMemory = (\<lambda>s a bs. lift_call (\<lambda>p. WriteProcessMemory (sim_os {}) p a bs) s),
       VirtualProtectEx = (\<lambda>s a n q. lift_call (\<lambda>p. VirtualProtectEx (sim_os {}) p a n q) s),
       VirtualAllocEx = (\<lambda>s n q. lift_call (\<lambda>p. VirtualAllocEx (sim_os {}) p n q) s),
       VirtualFreeEx = (\<lambda>s a. lift_call (\<lambda>p. VirtualFreeEx (sim_os {}) p a) s),
       FlushInstructionCache = (\<lambda>s a n. lift_call (\<lambda>p. FlushInstructionCache (sim_os {}) p a n) s)\<rparr>,
     CreateFileMappingW = (\<lambda>s. (True, s)),
     MapViewOfFile = (\<lambda>s. (True, s)),
     NtMapViewOfSection = (\<lambda>(p, vs, hs). if 0x9000 \<in> vs then (None, (p, vs, hs)) else (Some 0x9000, (p, insert 0x9000 vs, hs))),
     NtUnmapViewOfSection = (\<lambda>(p, vs, hs) a. (a \<in> vs, (p, vs - {a}, hs))),
     CreateEventW = (\<lambda>s. (True, s)),
     DuplicateHandle = (\<lambda>(p, vs, hs). if 0x44 \<in> hs then (None, (p, vs, hs)) else (Some 0x44, (p, vs, insert 0x44 hs))),
     DuplicateCloseSource = (\<lambda>(p, vs, hs) h. (h \<in> hs, (p, vs, hs - {h})))\<rparr>"

abbreviation sim_observed :: "session_sim observed" where
  "sim_observed \<equiv> (sim_mem \<circ> fst, sim_regions \<circ> fst)"

abbreviation sim_resources :: "session_sim resources" where
  "sim_resources \<equiv> (fst \<circ> snd, snd \<circ> snd)"

lemma session_sim_process: "os_ok (process_os session_sim_os) sim_observed"
  by (auto simp: os_ok_def session_sim_os_def sim_os_def lift_call_def unchanged_def ticked_def split: if_splits)

lemma session_sim_ok: "session_ok session_sim_os sim_observed sim_resources"
proof -
  have "process_calls_keep (process_os session_sim_os) sim_resources"
    by (auto simp: process_calls_keep_def session_sim_os_def lift_call_def same_resources_def split: prod.splits)
  then show ?thesis using session_sim_process unfolding session_ok_def
    by (intro conjI) (simp add: session_sim_os_def idle_def unchanged_def same_resources_def split: if_splits; fastforce)+
qed

lemma session_sim_works: "releases_succeed session_sim_os sim_observed sim_resources"
  by (auto simp: releases_succeed_def session_sim_os_def sim_os_def lift_call_def)

lemma session_leaves_nothing_witness:
  "\<exists>started l1 s1 configured l2 s3 cleaned l3 s5.
     start_remote session_sim_os 0 initial_link (sample_process, {}, {}) = (started, l1, s1) \<and>
     ConfigureTransport (\<lambda>code. Some (7, [])) (process_os session_sim_os) 0 0 l1 s1 = (configured, l2, s3) \<and>
     CleanupRemote session_sim_os 0 l2 s3 = (cleaned, l3, s5) \<and>
     fst (snd s5) = {} \<and> snd (snd s5) = {} \<and> sim_regions (fst s5) = sim_regions sample_process"
proof -
  obtain started l1 s1 where 1: "start_remote session_sim_os 0 initial_link (sample_process, {}, {}) = (started, l1, s1)"
    by (metis prod_cases3)
  obtain configured l2 s3 where 2: "ConfigureTransport (\<lambda>code. Some (7, [])) (process_os session_sim_os) 0 0 l1 s1 = (configured, l2, s3)"
    by (metis prod_cases3)
  obtain cleaned l3 s5 where 3: "CleanupRemote session_sim_os 0 l2 s3 = (cleaned, l3, s5)" by (metis prod_cases3)
  have "fst (snd s5) = {} \<and> snd (snd s5) = {} \<and> sim_regions (fst s5) = sim_regions sample_process"
    using session_leaves_nothing [OF session_sim_ok session_sim_works 1 same_holdings_refl disjI1 [OF 2] same_holdings_refl 3] by simp
  then show ?thesis using 1 2 3 by blast
qed

end
