(* ===== verification/Module_Exports.thy ===== *)
theory Module_Exports
  imports Remote_Exports Hook_Registry
begin

section \<open>Modules of the target and their exports\<close>

text \<open>
  The modules \<open>src/apiscope/debug_session.cpp\<close> keeps (\<open>GetModulePath\<close>, \<open>NarrowAscii\<close>, \<open>FindModule\<close>) and
  the chase of an export through forwarders (\<open>ResolveExportAddress\<close>, \<open>ResolveHookAddress\<close>).
  \<open>std::map\<close> is a list of pairs in the order of the keys. \<open>GetFinalPathNameByHandleW\<close> is a
  parameter: the length it returns and the buffer it leaves.
\<close>

record ModuleRecord =
  mr_base :: addr
  mr_path :: "u16 list"
  mr_name :: string
  mr_generation :: u64

type_synonym modules = "(addr \<times> ModuleRecord) list"

fun set_module :: "addr \<Rightarrow> ModuleRecord \<Rightarrow> modules \<Rightarrow> modules" where
  "set_module b m [] = [(b, m)]"
| "set_module b m ((b', m') # ms) =
     (if b < b' then (b, m) # (b', m') # ms else if b = b' then (b, m) # ms else (b', m') # set_module b m ms)"

definition erase_module :: "addr \<Rightarrow> modules \<Rightarrow> modules" where
  "erase_module b ms = filter (\<lambda>(b', m). b' \<noteq> b) ms"

fun narrow_loop :: "u16 list \<Rightarrow> string \<Rightarrow> string" where
  "narrow_loop [] result = result"
| "narrow_loop (character # characters) result =
     (if character > 0x7F then [] else narrow_loop characters (result @ [chr_of (ucast character)]))"

definition NarrowAscii :: "u16 list \<Rightarrow> string" where
  "NarrowAscii value = narrow_loop value []"

definition INVALID_HANDLE_VALUE :: u64 where
  "INVALID_HANDLE_VALUE = - 1"

definition GetModulePath :: "(u64 \<Rightarrow> nat \<Rightarrow> u32 \<times> u16 list) \<Rightarrow> u64 \<Rightarrow> u16 list" where
  "GetModulePath finalPath file =
     (if file = 0 \<or> file = INVALID_HANDLE_VALUE then []
      else (let (len, path) = finalPath file 32768
            in if len = 0 \<or> unat len \<ge> 32768 then [] else take (unat len) path))"

fun newest_loop :: "string \<Rightarrow> modules \<Rightarrow> ModuleRecord option \<Rightarrow> ModuleRecord option" where
  "newest_loop name [] newest = newest"
| "newest_loop name ((b, m) # ms) newest =
     newest_loop name ms
       (if mr_name m = name \<and> (case newest of None \<Rightarrow> True | Some n \<Rightarrow> mr_generation n < mr_generation m) then Some m else newest)"

definition FindModule :: "string \<Rightarrow> modules \<Rightarrow> ModuleRecord option" where
  "FindModule normalizedName modules = newest_loop normalizedName modules None"

subsection \<open>The chase through forwarders\<close>

datatype ResolveResult = Resolved addr addr | Pending | Error

text \<open>The text of a forwarder around its last dot.\<close>

definition after_dot :: "string \<Rightarrow> string" where
  "after_dot f = rev (takeWhile (\<lambda>c. c \<noteq> CHR ''.'') (rev f))"

definition split_forwarder :: "string \<Rightarrow> (string \<times> string) option" where
  "split_forwarder f =
     (let separator = length f - length (after_dot f) - 1
      in if length (after_dot f) = length f \<or> separator = 0 \<or> length f \<le> separator + 1 \<or> f ! (separator + 1) = CHR ''#'' then None
         else Some (take separator f, drop (separator + 1) f))"

definition module_file :: "string \<Rightarrow> string" where
  "module_file name =
     (let normalizedModule = NormalizeModuleName name
      in if CHR ''.'' \<notin> set normalizedModule then normalizedModule @ ''.dll'' else normalizedModule)"

function ResolveExportAddress :: "'s os \<Rightarrow> 's \<Rightarrow> modules \<Rightarrow> string \<Rightarrow> string \<Rightarrow> nat \<Rightarrow> string set \<Rightarrow> ResolveResult" where
  "ResolveExportAddress os s modules mname ename depth visited =
     (if depth \<ge> 8 then Error
      else
       (let normalizedModule = module_file mname; identity = normalizedModule @ ''!'' @ ename
        in if identity \<in> visited then Error
           else (case FindModule normalizedModule modules of None \<Rightarrow> Pending
                 | Some module \<Rightarrow>
                    (case GetRemoteExport os s (mr_base module) ename of None \<Rightarrow> Error
                     | Some remoteExport \<Rightarrow>
                        if address remoteExport \<noteq> 0 then Resolved (address remoteExport) (mr_base module)
                        else (case split_forwarder (forwarder remoteExport) of None \<Rightarrow> Error
                              | Some (mname', ename') \<Rightarrow>
                                  ResolveExportAddress os s modules mname' ename' (depth + 1) (insert identity visited))))))"
  by pat_completeness auto
termination
  by (relation "measure (\<lambda>(_, _, _, _, _, depth, _). 8 - depth)") auto

declare ResolveExportAddress.simps [simp del]

text \<open>The base of the source module beside the result of the chase.\<close>

definition ResolveHookAddress :: "'s os \<Rightarrow> 's \<Rightarrow> modules \<Rightarrow> HookDefinition \<Rightarrow> addr \<times> ResolveResult" where
  "ResolveHookAddress os s modules hook =
     (case FindModule (moduleName hook) modules of None \<Rightarrow> (0, Pending)
      | Some source \<Rightarrow> (mr_base source, ResolveExportAddress os s modules (moduleName hook) (exportName hook) 0 {}))"

subsection \<open>The map of modules\<close>

definition module_map :: "modules \<Rightarrow> bool" where
  "module_map ms \<longleftrightarrow> sorted_wrt (<) (map fst ms)"

lemma set_module_keys: "fst ` set (set_module b m ms) = insert b (fst ` set ms)"
  by (induction b m ms rule: set_module.induct) auto

lemma set_module_map: "module_map ms \<Longrightarrow> module_map (set_module b m ms)"
proof (induction b m ms rule: set_module.induct)
  case (2 b m b' m' ms)
  then have "\<forall>x \<in> fst ` set ms. b' < x" by (auto simp: module_map_def)
  then have "b' < b \<Longrightarrow> \<forall>x \<in> fst ` set (set_module b m ms). b' < x" by (simp add: set_module_keys)
  then show ?case using 2 by (auto simp: module_map_def)
qed (simp add: module_map_def)

lemma module_map_distinct: "module_map ms \<Longrightarrow> distinct (map fst ms)"
  unfolding module_map_def by (simp add: strict_sorted_iff)

lemma erase_module_map: "module_map ms \<Longrightarrow> module_map (erase_module b ms)"
  by (induction ms) (auto simp: module_map_def erase_module_def)

lemma lookup_set_module: "module_map ms \<Longrightarrow> map_of (set_module b m ms) x = (if x = b then Some m else map_of ms x)"
proof (induction b m ms rule: set_module.induct)
  case (2 b m b' m' ms)
  then have IH: "\<not> b < b' \<Longrightarrow> b \<noteq> b' \<Longrightarrow> map_of (set_module b m ms) x = (if x = b then Some m else map_of ms x)"
    by (simp add: module_map_def)
  then show ?case by auto
qed simp

lemma lookup_erase_module: "map_of (erase_module b ms) = (map_of ms)(b := None)"
  by (induction ms) (auto simp: erase_module_def fun_eq_iff)

definition is_newest :: "string \<Rightarrow> ModuleRecord set \<Rightarrow> ModuleRecord option \<Rightarrow> bool" where
  "is_newest name S r \<longleftrightarrow> (case r of None \<Rightarrow> \<forall>m \<in> S. mr_name m \<noteq> name
     | Some n \<Rightarrow> n \<in> S \<and> mr_name n = name \<and> (\<forall>m \<in> S. mr_name m = name \<longrightarrow> mr_generation m \<le> mr_generation n))"

lemma newest_loop_result: "is_newest name S old \<Longrightarrow> is_newest name (S \<union> snd ` set ms) (newest_loop name ms old)"
proof (induction name ms old arbitrary: S rule: newest_loop.induct)
  case (2 name b m ms newest)
  have "is_newest name (insert m S)
      (if mr_name m = name \<and> (case newest of None \<Rightarrow> True | Some n \<Rightarrow> mr_generation n < mr_generation m) then Some m else newest)"
    using 2(2) by (cases newest) (auto simp: is_newest_def not_less intro: order_trans [OF _ order_less_imp_le])
  from "2.IH" [OF this] show ?case by (simp add: Un_insert_left [symmetric] del: Un_insert_left)
qed simp

lemma FindModule_newest: "is_newest name (snd ` set ms) (FindModule name ms)"
proof -
  have "is_newest name {} None" by (simp add: is_newest_def)
  from newest_loop_result [OF this] show ?thesis by (simp add: FindModule_def)
qed


subsection \<open>What an export means\<close>

text \<open>
  One step of the chase, as the loader defines it: an export is code, or names an export of
  another module, or is broken, or its module is not there yet.
\<close>

datatype export_meaning = Code addr addr | Forward string string | Broken | Absent

definition export_meaning :: "'s os \<Rightarrow> 's \<Rightarrow> modules \<Rightarrow> string \<times> string \<Rightarrow> export_meaning" where
  "export_meaning os s modules = (\<lambda>(mname, ename). case FindModule mname modules of None \<Rightarrow> Absent
     | Some module \<Rightarrow>
        (case GetRemoteExport os s (mr_base module) ename of None \<Rightarrow> Broken
         | Some remoteExport \<Rightarrow>
            if address remoteExport \<noteq> 0 then Code (address remoteExport) (mr_base module)
            else (case split_forwarder (forwarder remoteExport) of None \<Rightarrow> Broken
                  | Some (mname', ename') \<Rightarrow> Forward (module_file mname') ename')))"

text \<open>The export reached after a number of forwarders.\<close>

fun forwarded :: "'s os \<Rightarrow> 's \<Rightarrow> modules \<Rightarrow> nat \<Rightarrow> string \<times> string \<Rightarrow> (string \<times> string) option" where
  "forwarded os s modules 0 e = Some e"
| "forwarded os s modules (Suc n) e =
     (case export_meaning os s modules e of Forward mname ename \<Rightarrow> forwarded os s modules n (mname, ename) | _ \<Rightarrow> None)"

text \<open>The chase without its memory: at most \<open>k\<close> exports are looked at.\<close>

fun chase :: "'s os \<Rightarrow> 's \<Rightarrow> modules \<Rightarrow> nat \<Rightarrow> string \<times> string \<Rightarrow> ResolveResult" where
  "chase os s modules 0 e = Error"
| "chase os s modules (Suc k) e =
     (case export_meaning os s modules e of Code a b \<Rightarrow> Resolved a b | Absent \<Rightarrow> Pending | Broken \<Rightarrow> Error
      | Forward mname ename \<Rightarrow> chase os s modules k (mname, ename))"

definition export_identity :: "string \<times> string \<Rightarrow> string" where
  "export_identity = (\<lambda>(mname, ename). mname @ ''!'' @ ename)"

lemma export_identity_inject:
  assumes "CHR ''!'' \<notin> set e" "CHR ''!'' \<notin> set e'" "export_identity (m, e) = export_identity (m', e')"
  shows "m = m' \<and> e = e'"
proof -
  have tail: "takeWhile (\<lambda>c. c \<noteq> CHR ''!'') (rev (export_identity (m, e))) = rev e" if "CHR ''!'' \<notin> set e" for m e
  proof -
    have "\<forall>c \<in> set (rev e). c \<noteq> CHR ''!''" using that by auto
    then show ?thesis by (simp add: export_identity_def takeWhile_append)
  qed
  have "e = e'" using tail [OF assms(1), of m] tail [OF assms(2), of m'] assms(3) by simp
  then show ?thesis using assms(3) by (simp add: export_identity_def)
qed

lemma chase_forwarded:
  "forwarded os s ms n e = Some e' \<Longrightarrow> n \<le> k \<Longrightarrow> chase os s ms k e = chase os s ms (k - n) e'"
  "forwarded os s ms n e = Some e' \<Longrightarrow> k \<le> n \<Longrightarrow> chase os s ms k e = Error"
proof (induction n arbitrary: k e)
  case (Suc n)
  { case 1 then show ?case using Suc by (cases k) (auto split: export_meaning.splits) }
  { case 2 then show ?case using Suc by (cases k) (auto split: export_meaning.splits) }
qed simp_all

lemma forwarded_snoc:
  "forwarded os s ms n e = Some x \<Longrightarrow> export_meaning os s ms x = Forward m' e' \<Longrightarrow> forwarded os s ms (Suc n) e = Some (m', e')"
proof (induction n arbitrary: e)
  case (Suc n)
  then obtain m1 e1 where f: "export_meaning os s ms e = Forward m1 e1" "forwarded os s ms n (m1, e1) = Some x"
    by (auto split: export_meaning.splits)
  from Suc.IH [OF this(2) Suc.prems(2)] have "forwarded os s ms (Suc n) (m1, e1) = Some (m', e')" .
  then show ?case by (subst forwarded.simps(2)) (simp only: f(1) export_meaning.case)
qed simp

text \<open>Round a loop of forwarders there is nothing to find.\<close>

lemma chase_loop: "forwarded os s ms n e = Some e \<Longrightarrow> 0 < n \<Longrightarrow> chase os s ms k e = Error"
proof (induction k rule: less_induct)
  case (less k)
  then show ?case using chase_forwarded [of os s ms n e e k] by (cases "n \<le> k") auto
qed

lemma chase_result:
  "chase os s ms k e = Resolved a b \<longleftrightarrow> (\<exists>n < k. \<exists>x. forwarded os s ms n e = Some x \<and> export_meaning os s ms x = Code a b)"
  "chase os s ms k e = Pending \<longleftrightarrow> (\<exists>n < k. \<exists>x. forwarded os s ms n e = Some x \<and> export_meaning os s ms x = Absent)"
proof (induction k arbitrary: e)
  case (Suc k)
  have split: "(\<exists>n < Suc k. P n) \<longleftrightarrow> P 0 \<or> (\<exists>n < k. P (Suc n))" for P by (simp add: ex_simps less_Suc_eq_0_disj) blast
  { case 1 then show ?case unfolding split using Suc by (cases "export_meaning os s ms e") auto }
  { case 2 then show ?case unfolding split using Suc by (cases "export_meaning os s ms e") auto }
qed simp_all

definition plain_forwarders :: "'s os \<Rightarrow> 's \<Rightarrow> modules \<Rightarrow> bool" where
  "plain_forwarders os s modules \<longleftrightarrow>
     (\<forall>x mname ename. export_meaning os s modules x = Forward mname ename \<longrightarrow> CHR ''!'' \<notin> set ename)"

lemma ResolveExportAddress_gives_up:
  "8 \<le> d \<or> export_identity (module_file mname, ename) \<in> visited \<Longrightarrow> ResolveExportAddress os s ms mname ename d visited = Error"
  by (subst ResolveExportAddress.simps) (auto simp: export_identity_def)

lemma ResolveExportAddress_forward:
  assumes "\<not> 8 \<le> d" "export_identity (module_file mname, ename) \<notin> visited"
    "export_meaning os s ms (module_file mname, ename) = Forward m' e'"
  shows "\<exists>mname'. m' = module_file mname' \<and> ResolveExportAddress os s ms mname ename d visited =
     ResolveExportAddress os s ms mname' e' (d + 1) (insert (export_identity (module_file mname, ename)) visited)"
proof -
  obtain module remote mname' where "FindModule (module_file mname) ms = Some module"
    "GetRemoteExport os s (mr_base module) ename = Some remote" "address remote = 0"
    "split_forwarder (forwarder remote) = Some (mname', e')" "m' = module_file mname'"
    using assms(3) by (auto simp: export_meaning_def split: option.splits if_splits)
  then show ?thesis using assms(1,2)
    by (intro exI [of _ mname']) (subst ResolveExportAddress.simps, simp add: export_identity_def)
qed

lemma ResolveExportAddress_decided:
  assumes "\<not> 8 \<le> d" "export_identity (module_file mname, ename) \<notin> visited" "\<And>m' e'. export_meaning os s ms (module_file mname, ename) \<noteq> Forward m' e'"
  shows "ResolveExportAddress os s ms mname ename d visited = chase os s ms (Suc k) (module_file mname, ename)"
proof -
  have "FindModule (module_file mname) ms = Some module \<Longrightarrow> GetRemoteExport os s (mr_base module) ename = Some remote \<Longrightarrow>
      address remote = 0 \<Longrightarrow> split_forwarder (forwarder remote) = None" for module remote
    using assms(3) by (cases "split_forwarder (forwarder remote)") (auto simp: export_meaning_def)
  then show ?thesis using assms(1,2)
    by (subst ResolveExportAddress.simps) (auto simp: export_meaning_def export_identity_def split: option.splits)
qed

lemma ResolveExportAddress_chase:
  assumes plain: "plain_forwarders os s ms"
  shows "CHR ''!'' \<notin> set ename \<Longrightarrow> length xs = d \<Longrightarrow> visited = export_identity ` set xs \<Longrightarrow>
     \<forall>x \<in> set xs. CHR ''!'' \<notin> set (snd x) \<and> (\<exists>n > 0. forwarded os s ms n x = Some (module_file mname, ename)) \<Longrightarrow>
     ResolveExportAddress os s ms mname ename d visited = chase os s ms (8 - d) (module_file mname, ename)"
proof (induction "8 - d" arbitrary: mname ename d visited xs)
  case 0
  then show ?case by (simp add: ResolveExportAddress_gives_up)
next
  case (Suc k)
  let ?e = "(module_file mname, ename)"
  have d: "8 - d = Suc k" "\<not> 8 \<le> d" using Suc(2) by simp_all
  show ?case
  proof (cases "export_identity ?e \<in> visited")
    case True
    then obtain x where x: "x \<in> set xs" "export_identity x = export_identity ?e" using Suc(5) by auto
    then have "x = ?e" using export_identity_inject [of "snd x" ename "fst x" "module_file mname"] Suc(3,6) by (metis prod.collapse)
    then obtain n where "0 < n" "forwarded os s ms n ?e = Some ?e" using Suc(6) x(1) by blast
    then have "chase os s ms (8 - d) ?e = Error" by (intro chase_loop)
    then show ?thesis using True by (simp add: ResolveExportAddress_gives_up)
  next
    case new: False
    show ?thesis
    proof (cases "\<exists>m' e'. export_meaning os s ms ?e = Forward m' e'")
      case True
      then obtain m' e' where f: "export_meaning os s ms ?e = Forward m' e'" by blast
      from ResolveExportAddress_forward [OF d(2) new this] obtain mname' where m': "m' = module_file mname'"
        "ResolveExportAddress os s ms mname ename d visited = ResolveExportAddress os s ms mname' e' (d + 1) (insert (export_identity ?e) visited)"
        by blast
      have "ResolveExportAddress os s ms mname' e' (d + 1) (insert (export_identity ?e) visited) = chase os s ms (8 - (d + 1)) (module_file mname', e')"
      proof (rule Suc.hyps(1) [where xs = "?e # xs"])
        show "k = 8 - (d + 1)" using d by simp
        show "CHR ''!'' \<notin> set e'" using plain f by (auto simp: plain_forwarders_def)
        show "\<forall>x \<in> set (?e # xs). CHR ''!'' \<notin> set (snd x) \<and> (\<exists>n > 0. forwarded os s ms n x = Some (module_file mname', e'))"
          using Suc(3,6) forwarded_snoc [OF _ f] forwarded_snoc [of os s ms 0 ?e, OF _ f] m'(1)
          by (metis forwarded.simps(1) set_ConsD snd_conv zero_less_Suc)
      qed (use Suc(4,5) in simp_all)
      moreover have "8 - (d + 1) = k" using d by simp
      ultimately show ?thesis using f m' d by simp
    next
      case False
      then show ?thesis using ResolveExportAddress_decided [OF d(2) new] d(1) by metis
    qed
  qed
qed


text \<open>C14: An export is resolved exactly as its chain of forwarders says. It resolves to an address just
  when at most seven forwarders lead to an export that is code, it is postponed just when they lead
  to a module that is not loaded, and everything else, a loop of forwarders included, is an
  error: remembering the exports seen changes no answer as long as no forwarder names an
  export with an exclamation mark, the separator of the remembered names.\<close>

theorem resolve_follows_forwarders:
  assumes "plain_forwarders os s ms" "CHR ''!'' \<notin> set ename"
  shows "(ResolveExportAddress os s ms mname ename 0 {} = Resolved a b \<longleftrightarrow>
       (\<exists>n < 8. \<exists>x. forwarded os s ms n (module_file mname, ename) = Some x \<and> export_meaning os s ms x = Code a b)) \<and>
     (ResolveExportAddress os s ms mname ename 0 {} = Pending \<longleftrightarrow>
       (\<exists>n < 8. \<exists>x. forwarded os s ms n (module_file mname, ename) = Some x \<and> export_meaning os s ms x = Absent))"
proof -
  have "ResolveExportAddress os s ms mname ename 0 {} = chase os s ms (8 - 0) (module_file mname, ename)"
    by (rule ResolveExportAddress_chase [OF assms, where xs = "[]"]) simp_all
  then show ?thesis by (simp add: chase_result)
qed

lemma resolve_follows_forwarders_witness:
  "ResolveExportAddress (sim_os {}) sample_process [(0, \<lparr>mr_base = 0, mr_path = [], mr_name = ''m.dll'', mr_generation = 1\<rparr>)]
     ''M'' ''H'' 0 {} = Resolved 0x1000 0"
proof -
  let ?ms = "[(0, \<lparr>mr_base = 0, mr_path = [], mr_name = ''m.dll'', mr_generation = 1\<rparr>)] :: modules"
  have find: "FindModule n ?ms = (if ''m.dll'' = n then Some \<lparr>mr_base = 0, mr_path = [], mr_name = ''m.dll'', mr_generation = 1\<rparr> else None)" for n
    by (simp add: FindModule_def)
  have m_dll: "module_file ''M'' = ''m.dll''" by code_simp
  have plain: "plain_forwarders (sim_os {}) sample_process ?ms"
    by (auto simp: plain_forwarders_def export_meaning_def find sample_export split: option.splits if_splits)
  have "forwarded (sim_os {}) sample_process ?ms 0 (module_file ''M'', ''H'') = Some (''m.dll'', ''H'')"
    "export_meaning (sim_os {}) sample_process ?ms (''m.dll'', ''H'') = Code 0x1000 0"
    by (simp_all add: m_dll export_meaning_def find sample_exports)
  then have "\<exists>n < 8. \<exists>x. forwarded (sim_os {}) sample_process ?ms n (module_file ''M'', ''H'') = Some x \<and>
      export_meaning (sim_os {}) sample_process ?ms x = Code 0x1000 0"
    by (intro exI [of _ "0 :: nat"] conjI exI [of _ "(''m.dll'', ''H'')"]) simp_all
  with resolve_follows_forwarders [OF plain, of "''H''" "''M''" "0x1000" 0] show ?thesis by simp
qed

end
