(* ===== verification/Debug_Session.thy ===== *)
theory Debug_Session
  imports Module_Exports Hook_Manager Process_Manager Session_Remote Session_Output
begin

section \<open>The debug session\<close>

text \<open>
  The handlers of \<open>src/apiscope/debug_session.cpp\<close>: preparing the target when its process event
  arrives, registering modules, installing the hooks that can be resolved, dropping the hooks of a
  module that goes, and the cleanup. Every handler threads the state of the target. What the
  handlers print is left out but for the two messages about a hook of an unloaded module that
  could not be removed; the names they print are \<open>failedRemovals\<close>. The result \<open>None\<close> is the
  write outside its buffer that \<open>Process_Manager\<close> shows in the relocation of an image.
\<close>

record ('s, 'h) launcher =
  target :: "'s session_os"
  DebugSetProcessKillOnExit :: "'s \<Rightarrow> bool \<times> 's"
  decoder :: zydis
  files :: "'h file_os"
  hookDllPath :: wstring
  finalPath :: "u64 \<Rightarrow> nat \<Rightarrow> u32 \<times> u16 list"
  selected_hooks :: "HookDefinition list"
  output_options :: TraceOutputOptions
  output_opens :: bool
  stop_event :: bool

record debug_session =
  process_open :: bool
  processId :: u32
  attached :: bool
  hookImageBase :: addr
  hookImageSize :: nat
  link :: ring_link
  trace_started :: bool
  summary_printed :: bool
  threads_running :: bool
  modules :: modules
  installedHooks :: "InstalledHook list"
  transportConfigured :: bool
  initialBreakpointSeen :: bool
  stopBreakRequested :: bool
  debugActive :: bool
  moduleGeneration :: u64
  failedRemovals :: "InstalledHook list"

abbreviation remote :: "('s, 'h) launcher \<Rightarrow> 's os" where
  "remote env \<equiv> process_os (target env)"

definition initial_debug_session :: debug_session where
  "initial_debug_session = \<lparr>process_open = False, processId = 0, attached = False, hookImageBase = 0, hookImageSize = 0,
     link = initial_link, trace_started = False, summary_printed = False, threads_running = False, modules = [],
     installedHooks = [], transportConfigured = False, initialBreakpointSeen = False, stopBreakRequested = False,
     debugActive = False, moduleGeneration = 0, failedRemovals = []\<rparr>"

subsection \<open>Starting and stopping the trace\<close>

text \<open>\<open>TraceSession::Start\<close> as the debug session sees it: stop event, output, ring and exports, threads.\<close>

definition start_trace :: "('s, 'h) launcher \<Rightarrow> debug_session \<Rightarrow> 's \<Rightarrow> bool \<times> debug_session \<times> 's" where
  "start_trace env d s =
     (if \<not> stop_event env \<or> \<not> fst (OpenOutput (output_options env) (output_opens env) initial_session) then (False, d, s)
      else (let d = d\<lparr>trace_started := True, summary_printed := False\<rparr>;
                (ok, l, s) = start_remote (target env) (hookImageBase d) (link d) s
            in (ok, d\<lparr>link := l, threads_running := ok\<rparr>, s)))"

text \<open>\<open>Stop\<close> and \<open>Drain\<close>: join the threads, print the summary of a started trace once, let the ring go.\<close>

definition stop_trace :: "debug_session \<Rightarrow> debug_session" where
  "stop_trace d = d\<lparr>threads_running := False, summary_printed := summary_printed d \<or> trace_started d,
     link := ReleaseLocalRing (link d)\<rparr>"

text \<open>The destructor of the session stops it once more.\<close>

lemma stop_trace_twice: "stop_trace (stop_trace d) = stop_trace d"
  by (simp add: stop_trace_def ReleaseLocalRing_def)

definition InitializeDebuggee :: "('s, 'h) launcher \<Rightarrow> debug_session \<Rightarrow> 's \<Rightarrow> (bool \<times> debug_session \<times> 's) option" where
  "InitializeDebuggee env d s =
     (let (kept, s) = DebugSetProcessKillOnExit env s
      in if \<not> kept then Some (False, d, s)
         else (let d = d\<lparr>debugActive := True\<rparr>
               in case InjectDll (remote env) (files env) (hookDllPath env) s of
                    (Corrupted, s) \<Rightarrow> None
                  | (Rejected, s) \<Rightarrow> Some (False, d\<lparr>hookImageBase := 0\<rparr>, s)
                  | (Injected base, s) \<Rightarrow>
                      (let d = d\<lparr>hookImageBase := base, hookImageSize := GetRemoteImageSize (remote env) s base\<rparr>
                       in if hookImageSize d = 0 then Some (False, d, s) else Some (start_trace env d s))))"

subsection \<open>Modules and hooks\<close>

fun TryInstallPendingHooks :: "('s, 'h) launcher \<Rightarrow> HookDefinition list \<Rightarrow> debug_session \<Rightarrow> 's \<Rightarrow> bool \<times> debug_session \<times> 's" where
  "TryInstallPendingHooks env [] d s = (True, d, s)"
| "TryInstallPendingHooks env (definition # definitions) d s =
     (if \<exists>hook \<in> set (installedHooks d). ih_canonicalName hook = canonicalName definition
      then TryInstallPendingHooks env definitions d s
      else case ResolveHookAddress (remote env) s (modules d) definition of
             (source, Pending) \<Rightarrow> TryInstallPendingHooks env definitions d s
           | (source, ResolveResult.Error) \<Rightarrow> (False, d, s)
           | (source, Resolved location targetModule) \<Rightarrow>
              (if \<exists>hook \<in> set (installedHooks d). ih_originalFunction hook = location then (False, d, s)
               else case HookFunction (decoder env) (remote env) location (hookImageBase d) definition s of
                      (None, s) \<Rightarrow> (False, d, s)
                    | (Some hook, s) \<Rightarrow>
                       (let hook = hook\<lparr>ih_sourceModuleBase := source, ih_targetModuleBase := targetModule\<rparr>
                        in TryInstallPendingHooks env definitions (d\<lparr>installedHooks := installedHooks d @ [hook]\<rparr>) s)))"

text \<open>The name of a module: from its file, else from its export directory.\<close>

definition module_identity :: "('s, 'h) launcher \<Rightarrow> 's \<Rightarrow> addr \<Rightarrow> u64 \<Rightarrow> string" where
  "module_identity env s base file_handle =
     (let name = NormalizeModuleName (NarrowAscii (GetModulePath (finalPath env) file_handle))
      in if name = [] then NormalizeModuleName (GetRemoteModuleName (remote env) s base) else name)"

definition RegisterModule :: "('s, 'h) launcher \<Rightarrow> addr \<Rightarrow> u64 \<Rightarrow> debug_session \<Rightarrow> 's \<Rightarrow> bool \<times> debug_session \<times> 's" where
  "RegisterModule env base file_handle d s =
     (let name = module_identity env s base file_handle
      in if name = [] then (True, d, s)
         else
          (let d = d\<lparr>moduleGeneration := moduleGeneration d + 1\<rparr>;
               d = d\<lparr>modules := set_module base \<lparr>mr_base = base, mr_path = GetModulePath (finalPath env) file_handle,
                 mr_name = name, mr_generation = moduleGeneration d\<rparr> (modules d)\<rparr>;
               (ok, d, s) = (if name = ''ntdll.dll'' \<and> \<not> transportConfigured d
                 then (let (ok, l, s) = ConfigureTransport (decoder env) (remote env) base (hookImageBase d) (link d) s
                       in (ok, d\<lparr>link := l, transportConfigured := ok\<rparr>, s))
                 else (True, d, s))
           in if \<not> ok then (False, d, s)
              else if \<not> transportConfigured d then (True, d, s)
              else TryInstallPendingHooks env (selected_hooks env) d s))"

definition HandleCreateProcess :: "('s, 'h) launcher \<Rightarrow> addr \<Rightarrow> u64 \<Rightarrow> debug_session \<Rightarrow> 's \<Rightarrow> (bool \<times> debug_session \<times> 's) option" where
  "HandleCreateProcess env base file_handle d s =
     (case (if hookImageBase d = 0 then InitializeDebuggee env d s else Some (True, d, s)) of
        None \<Rightarrow> None
      | Some (ok, d, s) \<Rightarrow> Some (if ok then RegisterModule env base file_handle d s else (False, d, s)))"

definition HandleLoadDll :: "('s, 'h) launcher \<Rightarrow> addr \<Rightarrow> u64 \<Rightarrow> debug_session \<Rightarrow> 's \<Rightarrow> bool \<times> debug_session \<times> 's" where
  "HandleLoadDll env base file_handle d s = RegisterModule env base file_handle d s"

text \<open>The hooks that stay and those whose removal failed.\<close>

fun unload_loop :: "'s os \<Rightarrow> addr \<Rightarrow> InstalledHook list \<Rightarrow> 's \<Rightarrow> InstalledHook list \<times> InstalledHook list \<times> 's" where
  "unload_loop os base [] s = ([], [], s)"
| "unload_loop os base (hook # rest) s =
     (if ih_targetModuleBase hook = base \<or> ih_sourceModuleBase hook = base
      then (let (removed, s) = (if ih_targetModuleBase hook = base then ReleaseUnloadedHook os hook s else UnhookFunction os hook s);
                (kept, failed, s) = unload_loop os base rest s
            in (kept, (if removed then failed else hook # failed), s))
      else (let (kept, failed, s) = unload_loop os base rest s in (hook # kept, failed, s)))"

definition HandleUnloadDll :: "('s, 'h) launcher \<Rightarrow> addr \<Rightarrow> debug_session \<Rightarrow> 's \<Rightarrow> debug_session \<times> 's" where
  "HandleUnloadDll env base d s =
     (let (kept, failed, s) = unload_loop (remote env) base (installedHooks d) s
      in (d\<lparr>installedHooks := kept, failedRemovals := failedRemovals d @ failed, modules := erase_module base (modules d)\<rparr>, s))"

subsection \<open>Cleanup\<close>

fun unhook_loop :: "'s os \<Rightarrow> InstalledHook list \<Rightarrow> bool \<Rightarrow> 's \<Rightarrow> bool \<times> 's" where
  "unhook_loop os [] cleaned s = (cleaned, s)"
| "unhook_loop os (hook # rest) cleaned s =
     (let (removed, s) = UnhookFunction os hook s in unhook_loop os rest (removed \<and> cleaned) s)"

definition CleanupDebuggee :: "('s, 'h) launcher \<Rightarrow> debug_session \<Rightarrow> 's \<Rightarrow> bool \<times> debug_session \<times> 's" where
  "CleanupDebuggee env d s =
     (let (cleaned, s) = unhook_loop (remote env) (rev (installedHooks d)) True s;
          d = d\<lparr>installedHooks := []\<rparr>
      in if hookImageBase d = 0 then (cleaned, stop_trace d, s)
         else (let (transport, l, s) = CleanupRemote (target env) (hookImageBase d) (link d) s;
                   cleaned = (transport \<and> cleaned);
                   d = stop_trace (d\<lparr>link := l\<rparr>);
                   (freed, s) = VirtualFreeEx (remote env) s (hookImageBase d)
               in (freed \<and> cleaned, d\<lparr>hookImageBase := 0\<rparr>, s)))"

subsection \<open>Is the target out of the instrumentation?\<close>

definition IsInstrumentationAddress :: "debug_session \<Rightarrow> u64 \<Rightarrow> bool" where
  "IsInstrumentationAddress d instructionPointer \<longleftrightarrow>
     hookImageBase d \<noteq> 0 \<and> hookImageBase d \<le> instructionPointer \<and> instructionPointer < hookImageBase d + of_nat (hookImageSize d) \<or>
     (\<exists>hook \<in> set (installedHooks d).
        ih_originalFunction hook \<le> instructionPointer \<and>
          instructionPointer < ih_originalFunction hook + of_nat (length (ih_originalBytes hook)) \<or>
        ih_trampolineAddress hook \<le> instructionPointer \<and> instructionPointer < ih_trampolineAddress hook + 1024)"

text \<open>A thread of the snapshot: its process, and what opening it and asking for its context gives.\<close>

datatype thread_context = ThreadGone | ThreadRefused | NoContext | Rip u64

fun thread_loop :: "debug_session \<Rightarrow> (u32 \<times> thread_context) list \<Rightarrow> bool" where
  "thread_loop d [] = True"
| "thread_loop d ((owner, context) # entries) =
     (if owner \<noteq> processId d then thread_loop d entries
      else case context of ThreadGone \<Rightarrow> thread_loop d entries
           | ThreadRefused \<Rightarrow> False
           | NoContext \<Rightarrow> False
           | Rip rip \<Rightarrow> if IsInstrumentationAddress d rip then False else thread_loop d entries)"

definition IsCleanupQuiescent :: "('s, 'h) launcher \<Rightarrow> (u32 \<times> thread_context) list option \<Rightarrow> debug_session \<Rightarrow> 's \<Rightarrow> bool" where
  "IsCleanupQuiescent env snapshot d s =
     (if hookImageBase d = 0 then True
      else case GetRemoteExport (remote env) s (hookImageBase d) ''ActiveHookCalls'' of None \<Rightarrow> False
      | Some counterExport \<Rightarrow>
         if address counterExport = 0 then False
         else case ReadProcessMemory (remote env) s (address counterExport) 4 of None \<Rightarrow> False
         | Some activeCalls \<Rightarrow>
            if (of_le activeCalls :: u32) \<noteq> 0 then False
            else case snapshot of None \<Rightarrow> False | Some entries \<Rightarrow> thread_loop d entries)"

end
