(* ===== verification/Debug_Ledger.thy ===== *)
theory Debug_Ledger
  imports Debug_Session
begin

section \<open>What the debug session holds in the target\<close>

text \<open>
  The ledger of \<open>Session_Remote\<close> through the handlers of \<open>Debug_Session\<close>: which region each handler adds
  or releases, and the invariant that ties the ledger to the state of the session.
\<close>

subsection \<open>One hook, one image\<close>

abbreviation hook_region :: "InstalledHook \<Rightarrow> addr \<times> nat" where
  "hook_region h \<equiv> (ih_trampolineAddress h, TRAMPOLINE_SIZE)"

lemma PatchFunction_same:
  assumes ok: "session_ok os v w" and run: "PatchFunction (process_os os) f n k s = (r, s')"
  shows "same_holdings v w s s'"
proof -
  let ?patch = "jump_code n @ replicate (k - PATCH_SIZE) 0x90"
  obtain old s1 where p1: "VirtualProtectEx (process_os os) s f k PAGE_EXECUTE_READWRITE = (old, s1)" by fastforce
  obtain wr s2 where w2: "WriteProcessMemory (process_os os) s1 f ?patch = (wr, s2)" by fastforce
  obtain re s3 where p3: "VirtualProtectEx (process_os os) s2 f k (the old) = (re, s3)" by fastforce
  obtain fl s4 where f4: "FlushInstructionCache (process_os os) s3 f k = (fl, s4)" by fastforce
  have "s' = s1 \<or> s' = s3 \<or> s' = s4" using run p1 w2 p3 f4
    by (cases old; cases wr; cases re) (simp_all add: PatchFunction_def Let_def)
  moreover note s1 = protect_same [OF ok p1]
  moreover note s3 = same_holdings_trans [OF same_holdings_trans [OF s1 write_same [OF ok w2]] protect_same [OF ok p3]]
  moreover note same_holdings_trans [OF s3 flush_same [OF ok f4]]
  ultimately show ?thesis by (elim disjE) simp_all
qed

lemma freed_holds:
  assumes "session_ok os v w" "releases_succeed os v w" "holds v w base ((a, n) # rs) vs hs s"
  shows "fst (VirtualFreeEx (process_os os) s a) \<and> holds v w base rs vs hs (snd (VirtualFreeEx (process_os os) s a))"
  using free_held [OF assms(1,2), of s a "fst (VirtualFreeEx (process_os os) s a)" "snd (VirtualFreeEx (process_os os) s a)" base "[]" n rs vs hs]
    assms(3) by simp

lemma install_hook_holds:
  assumes ok: "session_ok os v w" and works: "releases_succeed os v w"
    and run: "install_hook (process_os os) f handler slot name t s = (h, s')"
    and holds: "holds v w base ((trampoline_address t, TRAMPOLINE_SIZE) # rs) vs hs s"
  shows "case h of None \<Rightarrow> holds v w base rs vs hs s'
     | Some h \<Rightarrow> ih_trampolineAddress h = trampoline_address t \<and> ih_originalFunction h = f \<and> ih_canonicalName h = name \<and>
         holds v w base (hook_region h # rs) vs hs s'"
proof -
  let ?T = "trampoline_address t"
  have undone: "holds v w base rs vs hs (snd (VirtualFreeEx (process_os os) u ?T))" if "same_holdings v w s u" for u
    using freed_holds [OF ok works same_holdings_holds [OF that holds]] by simp
  obtain wr s1 where w1: "WriteProcessMemory (process_os os) s slot (le_bytes ?T) = (wr, s1)" by fastforce
  obtain pa s2 where p2: "PatchFunction (process_os os) f handler (patchSize t) s1 = (pa, s2)" by fastforce
  obtain wr3 s3 where w3: "WriteProcessMemory (process_os os) s2 slot null_bytes = (wr3, s3)" by fastforce
  note s1 = write_same [OF ok w1]
  note s2 = same_holdings_trans [OF s1 PatchFunction_same [OF ok p2]]
  note s3 = same_holdings_trans [OF s2 write_same [OF ok w3]]
  show ?thesis
  proof (cases "ReadProcessMemory (process_os os) s f (patchSize t)")
    case None
    then show ?thesis using run undone [OF same_holdings_refl] by (auto simp: install_hook_def)
  next
    case (Some bytes)
    then show ?thesis using run w1 p2 w3 undone [OF s1] undone [OF s3] same_holdings_holds [OF s2 holds]
      by (cases wr; cases pa) (auto simp: install_hook_def)
  qed
qed

lemma HookFunction_holds:
  assumes ok: "session_ok os v w" and works: "releases_succeed os v w"
    and run: "HookFunction zydis (process_os os) f ib definition s = (h, s')" and holds: "holds v w base rs vs hs s"
  shows "case h of None \<Rightarrow> holds v w base rs vs hs s'
     | Some h \<Rightarrow> ih_trampolineAddress h \<noteq> 0 \<and> ih_originalFunction h = f \<and> ih_canonicalName h = canonicalName definition \<and>
         holds v w base (hook_region h # rs) vs hs s'"
proof -
  consider "h = None" "s' = s"
    | s1 where "CreateBypassTrampoline zydis (process_os os) f s = (None, s1)" "h = None" "s' = s1"
    | t s1 handler slot where "CreateBypassTrampoline zydis (process_os os) f s = (Some t, s1)"
        "install_hook (process_os os) f handler slot (canonicalName definition) t s1 = (h, s')"
    using run by (auto simp: HookFunction_def split: if_splits option.splits prod.splits)
  then show ?thesis
  proof cases
    case 1
    then show ?thesis using holds by simp
  next
    case 2
    then show ?thesis using CreateBypassTrampoline_holds [OF ok works 2(1) holds] by simp
  next
    case 3
    from CreateBypassTrampoline_holds [OF ok works 3(1) holds]
    have "trampoline_address t \<noteq> 0" "holds v w base ((trampoline_address t, TRAMPOLINE_SIZE) # rs) vs hs s1" by simp_all
    from install_hook_holds [OF ok works 3(2) this(2)] this(1) show ?thesis by (auto split: option.splits)
  qed
qed

lemma UnhookFunction_holds:
  assumes ok: "session_ok os v w" and works: "releases_succeed os v w" and run: "UnhookFunction (process_os os) h s = (r, s')"
    and holds: "holds v w base (xs @ hook_region h # ys) vs hs s"
  shows "holds v w base (if r then xs @ ys else xs @ hook_region h # ys) vs hs s'"
proof -
  let ?f = "ih_originalFunction h" and ?k = "length (ih_originalBytes h)"
  obtain old s1 where p1: "VirtualProtectEx (process_os os) s ?f ?k PAGE_EXECUTE_READWRITE = (old, s1)" by fastforce
  obtain re s2 where w2: "WriteProcessMemory (process_os os) s1 ?f (ih_originalBytes h) = (re, s2)" by fastforce
  obtain pr s3 where p3: "VirtualProtectEx (process_os os) s2 ?f ?k (the old) = (pr, s3)" by fastforce
  obtain fl s4 where f4: "FlushInstructionCache (process_os os) s3 ?f ?k = (fl, s4)" by fastforce
  obtain cl s5 where w5: "WriteProcessMemory (process_os os) s4 (ih_trampolineSlot h) null_bytes = (cl, s5)" by fastforce
  obtain fr s6 where v6: "VirtualFreeEx (process_os os) s5 (ih_trampolineAddress h) = (fr, s6)" by fastforce
  note s1 = protect_same [OF ok p1]
  note s4 = same_holdings_trans [OF same_holdings_trans [OF same_holdings_trans [OF s1 write_same [OF ok w2]] protect_same [OF ok p3]] flush_same [OF ok f4]]
  note s5 = same_holdings_trans [OF s4 write_same [OF ok w5]]
  note freed = free_held [OF ok works v6 same_holdings_holds [OF s5 holds]]
  have "\<not> r \<and> (s' = s \<or> s' = s1 \<or> s' = s4 \<or> s' = s5) \<or> r = fr \<and> s' = s6"
    using run p1 w2 p3 f4 w5 v6 by (cases old) (auto simp: UnhookFunction_def Let_def split: if_splits)
  then show ?thesis using freed holds same_holdings_holds [OF s1 holds] same_holdings_holds [OF s4 holds] same_holdings_holds [OF s5 holds]
    by (elim disjE conjE) simp_all
qed

lemma ReleaseUnloadedHook_holds:
  assumes ok: "session_ok os v w" and works: "releases_succeed os v w" and run: "ReleaseUnloadedHook (process_os os) h s = (r, s')"
    and holds: "holds v w base (xs @ hook_region h # ys) vs hs s"
  shows "holds v w base (xs @ ys) vs hs s'"
proof -
  obtain cl s1 where w1: "WriteProcessMemory (process_os os) s (ih_trampolineSlot h) null_bytes = (cl, s1)" by fastforce
  obtain fr s2 where v2: "VirtualFreeEx (process_os os) s1 (ih_trampolineAddress h) = (fr, s2)" by fastforce
  have "s' = s2" using run w1 v2 by (auto simp: ReleaseUnloadedHook_def)
  then show ?thesis using free_held [OF ok works v2 same_holdings_holds [OF write_same [OF ok w1] holds]] by simp
qed

lemma protect_sections_same:
  assumes ok: "session_ok os v w"
  shows "protect_sections (process_os os) b n secs s = (r, s') \<Longrightarrow> same_holdings v w s s'"
proof (induction secs arbitrary: s)
  case (Cons sec secs)
  obtain old s1 where p: "VirtualProtectEx (process_os os) s (b + ucast (SectionAddress sec)) (unat (VirtualSize sec))
      (GetMemoryProtection (Characteristics sec)) = (old, s1)" by fastforce
  show ?case using Cons p protect_same [OF ok p] same_holdings_trans [OF protect_same [OF ok p]]
    by (auto split: if_splits)
qed simp

lemma map_image_same:
  assumes ok: "session_ok os v w" and run: "map_image (process_os os) b secs img s = (r, s')"
  shows "same_holdings v w s s'"
proof -
  obtain wr s1 where w1: "WriteProcessMemory (process_os os) s b img = (wr, s1)" by fastforce
  obtain pr s2 where p2: "protect_sections (process_os os) b (length img) secs s1 = (pr, s2)" by fastforce
  obtain fl s3 where f3: "FlushInstructionCache (process_os os) s2 b (length img) = (fl, s3)" by fastforce
  have "s' = s1 \<or> s' = s2 \<or> s' = s3" using run w1 p2 f3 by (auto simp: map_image_def split: if_splits)
  moreover note s1 = write_same [OF ok w1]
  moreover note s2 = same_holdings_trans [OF s1 protect_sections_same [OF ok p2]]
  moreover note same_holdings_trans [OF s2 flush_same [OF ok f3]]
  ultimately show ?thesis by (elim disjE) simp_all
qed

lemma release_holds:
  assumes ok: "session_ok os v w" and works: "releases_succeed os v w" and run: "release (process_os os) b s = (r, s')"
    and holds: "holds v w base ((b, n) # rs) vs hs s"
  shows "r = Rejected \<and> holds v w base rs vs hs s'"
  using run freed_holds [OF ok works holds] by (auto simp: release_def)

lemma fill_region_holds:
  assumes ok: "session_ok os v w" and works: "releases_succeed os v w" and run: "fill_region (process_os os) file nt b s = (r, s')"
    and holds: "holds v w base ((b, n) # rs) vs hs s"
  shows "(r = Rejected \<longrightarrow> holds v w base rs vs hs s') \<and> (\<forall>b'. r = Injected b' \<longrightarrow> b' = b \<and> holds v w base ((b, n) # rs) vs hs s')"
proof (cases "layout file nt")
  case None
  then show ?thesis using run release_holds [OF ok works _ holds] by (simp add: fill_region_def)
next
  case (Some laid)
  show ?thesis
  proof (cases "relocate nt b laid")
    case (Relocated img)
    obtain mapped s1 where m: "map_image (process_os os) b (section_headers file nt) img s = (mapped, s1)" by fastforce
    note held = same_holdings_holds [OF map_image_same [OF ok m] holds]
    show ?thesis using run Some Relocated m held release_holds [OF ok works _ held]
      by (cases mapped) (auto simp: fill_region_def)
  qed (use run Some release_holds [OF ok works _ holds] in \<open>auto simp: fill_region_def\<close>)
qed

lemma InjectDll_holds:
  assumes ok: "session_ok os v w" and works: "releases_succeed os v w" and run: "InjectDll (process_os os) fos path s = (r, s')"
    and holds: "holds v w base rs vs hs s"
  shows "(r = Rejected \<longrightarrow> holds v w base rs vs hs s') \<and> (\<forall>b. r = Injected b \<longrightarrow> b \<noteq> 0 \<and> (\<exists>n. holds v w base ((b, n) # rs) vs hs s'))"
proof -
  consider "r = Rejected" "s' = s"
    | content nt where "check_headers content = Some nt" "ReflectiveDLLInject (process_os os) (VirtualAlloc fos) content s = (r, s')"
    using run by (auto simp: InjectDll_def ReflectiveDLLInject_def Let_def split: option.splits if_splits)
  then show ?thesis
  proof cases
    case 1
    then show ?thesis using holds by simp
  next
    case 2
    let ?n = "unat (SizeOfImage nt)"
    obtain b s1 where a: "VirtualAllocEx (process_os os) s ?n PAGE_READWRITE = (b, s1)" by fastforce
    note alloc = alloc_holds [OF ok a holds]
    show ?thesis
    proof (cases "b = 0")
      case True
      then show ?thesis using 2 a alloc same_holdings_holds [OF _ holds] by (auto simp: ReflectiveDLLInject_def)
    next
      case False
      then have held: "holds v w base ((b, ?n) # rs) vs hs s1" using alloc by simp
      have "fill_region (process_os os) content nt b s1 = (r, s') \<or> release (process_os os) b s1 = (r, s')"
        using 2 a False by (auto simp: ReflectiveDLLInject_def split: if_splits)
      then show ?thesis using fill_region_holds [OF ok works _ held] release_holds [OF ok works _ held] False by blast
    qed
  qed
qed

subsection \<open>The hooks of a session\<close>

lemma UnhookFunction_first:
  assumes "session_ok os v w" "releases_succeed os v w" "UnhookFunction (process_os os) h s = (r, s')"
    "holds v w base (hook_region h # ys) vs hs s"
  shows "holds v w base (if r then ys else hook_region h # ys) vs hs s'"
  using UnhookFunction_holds [OF assms(1-3), of base "[]" ys vs hs] assms(4) by (cases r) simp_all

lemma ReleaseUnloadedHook_first:
  assumes "session_ok os v w" "releases_succeed os v w" "ReleaseUnloadedHook (process_os os) h s = (r, s')"
    "holds v w base (hook_region h # ys) vs hs s"
  shows "holds v w base ys vs hs s'"
  using ReleaseUnloadedHook_holds [OF assms(1-3), of base "[]" ys vs hs] assms(4) by simp

lemma unhook_loop_holds:
  assumes ok: "session_ok os v w" and works: "releases_succeed os v w"
  shows "unhook_loop (process_os os) hs c s = (r, s') \<Longrightarrow> holds v w base (map hook_region hs @ rs) vs hds s \<Longrightarrow>
     (r \<longrightarrow> c) \<and> (\<exists>lk. set lk \<subseteq> set hs \<and> (r \<longrightarrow> lk = []) \<and> holds v w base (map hook_region lk @ rs) vs hds s')"
proof (induction hs arbitrary: c s rs)
  case Nil
  then show ?case by (intro conjI exI [of _ "[]"]) simp_all
next
  case (Cons h hs)
  obtain r1 s1 where u: "UnhookFunction (process_os os) h s = (r1, s1)" by fastforce
  have rest: "unhook_loop (process_os os) hs (r1 \<and> c) s1 = (r, s')" using Cons.prems(1) u by simp
  have held: "holds v w base (if r1 then map hook_region hs @ rs else hook_region h # map hook_region hs @ rs) vs hds s1"
    using UnhookFunction_first [OF ok works u] Cons.prems(2) by simp
  show ?case
  proof (cases r1)
    case True
    then have "holds v w base (map hook_region hs @ rs) vs hds s1" using held by simp
    from Cons.IH [OF rest this] True obtain lk where "r \<longrightarrow> c" "set lk \<subseteq> set hs" "r \<longrightarrow> lk = []"
      "holds v w base (map hook_region lk @ rs) vs hds s'" by blast
    then show ?thesis by (intro conjI exI [of _ lk]) auto
  next
    case False
    have "holds v w base (map hook_region hs @ hook_region h # rs) vs hds s1"
      by (rule holds_perm [where rs = "hook_region h # map hook_region hs @ rs"]) (use held False in simp_all)
    from Cons.IH [OF rest this] False obtain lk where lk: "\<not> r" "set lk \<subseteq> set hs" "holds v w base (map hook_region lk @ hook_region h # rs) vs hds s'"
      by blast
    have "holds v w base (map hook_region (h # lk) @ rs) vs hds s'"
      by (rule holds_perm [OF lk(3)]) simp
    then show ?thesis using lk(1,2) by (intro conjI exI [of _ "h # lk"]) auto
  qed
qed

lemma unload_loop_holds:
  assumes ok: "session_ok os v w" and works: "releases_succeed os v w"
  shows "unload_loop (process_os os) b hs s = (kept, failed, s') \<Longrightarrow> holds v w base (map hook_region hs @ rs) vs hds s \<Longrightarrow>
     kept = filter (\<lambda>h. ih_targetModuleBase h \<noteq> b \<and> ih_sourceModuleBase h \<noteq> b) hs \<and> set failed \<subseteq> set hs \<and>
     (\<exists>lk. set lk \<subseteq> set failed \<and> holds v w base (map hook_region kept @ map hook_region lk @ rs) vs hds s')"
proof (induction hs arbitrary: s rs kept failed)
  case Nil
  then show ?case by (intro conjI exI [of _ "[]"]) simp_all
next
  case (Cons h hs)
  show ?case
  proof (cases "ih_targetModuleBase h = b \<or> ih_sourceModuleBase h = b")
    case False
    then obtain kept' where k: "unload_loop (process_os os) b hs s = (kept', failed, s')" "kept = h # kept'"
      using Cons.prems(1) by (auto split: prod.splits)
    have "holds v w base (map hook_region hs @ hook_region h # rs) vs hds s"
      by (rule holds_perm [OF Cons.prems(2)]) simp
    from Cons.IH [OF k(1) this] obtain lk where lk: "kept' = filter (\<lambda>h. ih_targetModuleBase h \<noteq> b \<and> ih_sourceModuleBase h \<noteq> b) hs"
      "set failed \<subseteq> set hs" "set lk \<subseteq> set failed" "holds v w base (map hook_region kept' @ map hook_region lk @ hook_region h # rs) vs hds s'"
      by blast
    have "holds v w base (map hook_region kept @ map hook_region lk @ rs) vs hds s'"
      by (rule holds_perm [OF lk(4)]) (simp add: k(2))
    then show ?thesis using lk(1-3) k(2) False by auto
  next
    case True
    obtain r1 s1 where u: "(if ih_targetModuleBase h = b then ReleaseUnloadedHook (process_os os) h s else UnhookFunction (process_os os) h s) = (r1, s1)"
      by fastforce
    obtain failed' where f: "unload_loop (process_os os) b hs s1 = (kept, failed', s')" "failed = (if r1 then failed' else h # failed')"
      using Cons.prems(1) True u by (auto split: prod.splits)
    have "holds v w base (map hook_region hs @ rs) vs hds s1 \<or> \<not> r1 \<and> holds v w base (hook_region h # map hook_region hs @ rs) vs hds s1"
    proof (cases "ih_targetModuleBase h = b")
      case True
      then have "ReleaseUnloadedHook (process_os os) h s = (r1, s1)" using u by simp
      from ReleaseUnloadedHook_first [OF ok works this] Cons.prems(2) show ?thesis by simp
    next
      case False
      then have "UnhookFunction (process_os os) h s = (r1, s1)" using u by simp
      from UnhookFunction_first [OF ok works this] Cons.prems(2) show ?thesis by (cases r1) simp_all
    qed
    then show ?thesis
    proof (elim disjE conjE)
      assume "holds v w base (map hook_region hs @ rs) vs hds s1"
      from Cons.IH [OF f(1) this] f(2) True show ?thesis by auto
    next
      assume no: "\<not> r1" and "holds v w base (hook_region h # map hook_region hs @ rs) vs hds s1"
      then have "holds v w base (map hook_region hs @ hook_region h # rs) vs hds s1" by (auto elim: holds_perm)
      from Cons.IH [OF f(1) this] obtain lk where lk: "kept = filter (\<lambda>h. ih_targetModuleBase h \<noteq> b \<and> ih_sourceModuleBase h \<noteq> b) hs"
        "set failed' \<subseteq> set hs" "set lk \<subseteq> set failed'" "holds v w base (map hook_region kept @ map hook_region lk @ hook_region h # rs) vs hds s'"
        by blast
      have "holds v w base (map hook_region kept @ map hook_region (h # lk) @ rs) vs hds s'"
        by (rule holds_perm [OF lk(4)]) simp
      then show ?thesis using lk(1-3) f(2) no True by (intro conjI exI [of _ "h # lk"]) auto
    qed
  qed
qed

subsection \<open>The invariant of the session\<close>

definition image_region :: "nat \<Rightarrow> addr \<Rightarrow> (addr \<times> nat) list" where
  "image_region n b = (if b = 0 then [] else [(b, n)])"

definition debug_regions :: "nat \<Rightarrow> InstalledHook list \<Rightarrow> debug_session \<Rightarrow> (addr \<times> nat) list" where
  "debug_regions n lk d = map hook_region (installedHooks d) @ map hook_region lk @ image_region n (hookImageBase d)"

text \<open>
  The ledger: the regions of the installed hooks, of some of the hooks whose removal failed, and
  of the image, beside what belongs to the link.
\<close>

definition debug_ledger :: "'s observed \<Rightarrow> 's resources \<Rightarrow> base_resources \<Rightarrow> debug_session \<Rightarrow> 's \<Rightarrow> bool" where
  "debug_ledger v w base d s \<longleftrightarrow>
     (\<exists>n lk. set lk \<subseteq> set (failedRemovals d) \<and> ledger v w base (debug_regions n lk d) (link d) s)"

definition no_bypasses :: "ring_link \<Rightarrow> bool" where
  "no_bypasses l \<longleftrightarrow> setEventBypass l = no_trampoline \<and> readMemoryBypass l = no_trampoline"

definition link_free :: "ring_link \<Rightarrow> bool" where
  "link_free l \<longleftrightarrow> remoteRing l = 0 \<and> remoteWakeEvent l = 0 \<and> no_bypasses l"

definition separate_hooks :: "InstalledHook list \<Rightarrow> bool" where
  "separate_hooks hs \<longleftrightarrow> distinct (map ih_canonicalName hs) \<and> distinct (map ih_originalFunction hs) \<and> 0 \<notin> ih_trampolineAddress ` set hs"

text \<open>\<open>live\<close>: no handler has failed yet.\<close>

definition debug_inv :: "'s observed \<Rightarrow> 's resources \<Rightarrow> base_resources \<Rightarrow> bool \<Rightarrow> debug_session \<Rightarrow> 's \<Rightarrow> bool" where
  "debug_inv v w base live d s \<longleftrightarrow> debug_ledger v w base d s \<and> separate_hooks (installedHooks d) \<and>
     (hookImageBase d = 0 \<longrightarrow> link_free (link d)) \<and> (live \<longrightarrow> transportConfigured d \<or> no_bypasses (link d))"

lemma debug_inv_dead: "debug_inv v w base live d s \<Longrightarrow> debug_inv v w base False d s"
  by (simp add: debug_inv_def)

lemma debug_ledger_step:
  assumes "debug_ledger v w base d s" "failedRemovals d' = failedRemovals d"
    "\<And>n lk. ledger v w base (debug_regions n lk d) (link d) s \<Longrightarrow> ledger v w base (debug_regions n lk d') (link d') s'"
  shows "debug_ledger v w base d' s'"
  using assms unfolding debug_ledger_def by metis

lemma debug_inv_ledger: "debug_inv v w base live d s \<Longrightarrow> debug_ledger v w base d s"
  by (simp add: debug_inv_def)

lemma debug_inv_target:
  assumes "debug_inv v w base live d s" "\<And>rs l. ledger v w base rs l s \<Longrightarrow> ledger v w base rs l s'"
  shows "debug_inv v w base live d s'"
  using assms(1) debug_ledger_step [OF debug_inv_ledger [OF assms(1)] refl assms(2)] by (simp add: debug_inv_def)

lemma debug_inv_same: "same_holdings v w s s' \<Longrightarrow> debug_inv v w base live d s \<Longrightarrow> debug_inv v w base live d s'"
  by (erule debug_inv_target) (rule ledger_same)

text \<open>Only these fields matter.\<close>

lemma debug_inv_fields:
  assumes "debug_inv v w base live d s" "hookImageBase d' = hookImageBase d" "installedHooks d' = installedHooks d"
    "link d' = link d" "failedRemovals d' = failedRemovals d" "transportConfigured d' = transportConfigured d"
  shows "debug_inv v w base live d' s"
  using assms unfolding debug_inv_def debug_ledger_def debug_regions_def by simp

lemma initial_debug_inv:
  "debug_inv v w \<lparr>base_regions = regions v s, base_views = views w s, base_handles = handles w s\<rparr> True initial_debug_session s"
  using initial_ledger [of v w s]
  by (auto simp: debug_inv_def debug_ledger_def debug_regions_def image_region_def initial_debug_session_def separate_hooks_def
      link_free_def no_bypasses_def initial_link_def no_trampoline_def intro: exI [of _ "[]"])

lemma refused_hook_inv:
  assumes ok: "session_ok (target env) v w" and works: "releases_succeed (target env) v w"
    and run: "HookFunction (decoder env) (remote env) f ib hd1 s = (None, s1)" and inv: "debug_inv v w base live d s"
  shows "debug_inv v w base live d s1"
proof (rule debug_inv_target [OF inv])
  show "ledger v w base rs l s1" if "ledger v w base rs l s" for rs l
    using HookFunction_holds [OF ok works run] that by (simp add: ledger_def)
qed

lemma add_hook_inv:
  assumes ok: "session_ok (target env) v w" and works: "releases_succeed (target env) v w"
    and run: "HookFunction (decoder env) (remote env) f ib hd1 s = (Some h, s1)" and inv: "debug_inv v w base live d s"
    and fresh: "canonicalName hd1 \<notin> ih_canonicalName ` set (installedHooks d)" "f \<notin> ih_originalFunction ` set (installedHooks d)"
    and h': "ih_canonicalName h' = ih_canonicalName h" "ih_originalFunction h' = ih_originalFunction h" "ih_trampolineAddress h' = ih_trampolineAddress h"
  shows "debug_inv v w base live (d\<lparr>installedHooks := installedHooks d @ [h']\<rparr>) s1"
proof -
  have h: "ih_trampolineAddress h \<noteq> 0" "ih_originalFunction h = f" "ih_canonicalName h = canonicalName hd1"
  proof -
    obtain rs vs hs where "holds v w base rs vs hs s" using inv unfolding debug_inv_def debug_ledger_def ledger_def by blast
    from HookFunction_holds [OF ok works run this]
    show "ih_trampolineAddress h \<noteq> 0" "ih_originalFunction h = f" "ih_canonicalName h = canonicalName hd1" by simp_all
  qed
  have "ledger v w base (debug_regions n lk (d\<lparr>installedHooks := installedHooks d @ [h']\<rparr>)) (link d) s1"
    if "ledger v w base (debug_regions n lk d) (link d) s" for n lk
  proof -
    have "holds v w base (hook_region h # debug_regions n lk d @ link_regions (link d)) (link_views (link d)) (link_handles (link d)) s1"
      using HookFunction_holds [OF ok works run] that by (simp add: ledger_def)
    then show ?thesis unfolding ledger_def by (rule holds_perm) (simp add: debug_regions_def h')
  qed
  then have "debug_ledger v w base (d\<lparr>installedHooks := installedHooks d @ [h']\<rparr>) s1"
    by (intro debug_ledger_step [OF debug_inv_ledger [OF inv]]) simp_all
  then show ?thesis using inv fresh h h' by (simp add: debug_inv_def separate_hooks_def)
qed

text \<open>What one definition comes to.\<close>

lemma TryInstallPendingHooks_skip:
  assumes "(\<exists>hook \<in> set (installedHooks d). ih_canonicalName hook = canonicalName x) \<or>
     snd (ResolveHookAddress (remote env) s (modules d) x) = Pending"
  shows "TryInstallPendingHooks env (x # defs) d s = TryInstallPendingHooks env defs d s"
  using assms by (cases "ResolveHookAddress (remote env) s (modules d) x") auto

lemma TryInstallPendingHooks_stop:
  assumes "\<not> (\<exists>hook \<in> set (installedHooks d). ih_canonicalName hook = canonicalName x)"
    "ResolveHookAddress (remote env) s (modules d) x = (src, res)" "res = ResolveResult.Error \<or>
       (\<exists>a m. res = Resolved a m \<and> (\<exists>hook \<in> set (installedHooks d). ih_originalFunction hook = a))"
  shows "TryInstallPendingHooks env (x # defs) d s = (False, d, s)"
  using assms(3) by (auto simp only: TryInstallPendingHooks.simps assms(1,2) split: prod.splits ResolveResult.splits if_splits)

lemma TryInstallPendingHooks_hook:
  assumes "\<not> (\<exists>hook \<in> set (installedHooks d). ih_canonicalName hook = canonicalName x)"
    "ResolveHookAddress (remote env) s (modules d) x = (src, Resolved a m)"
    "\<not> (\<exists>hook \<in> set (installedHooks d). ih_originalFunction hook = a)"
  shows "TryInstallPendingHooks env (x # defs) d s =
     (case HookFunction (decoder env) (remote env) a (hookImageBase d) x s of
        (None, s) \<Rightarrow> (False, d, s)
      | (Some h, s) \<Rightarrow> TryInstallPendingHooks env defs
          (d\<lparr>installedHooks := installedHooks d @ [h\<lparr>ih_sourceModuleBase := src, ih_targetModuleBase := m\<rparr>]\<rparr>) s)"
  using assms by (simp only: TryInstallPendingHooks.simps prod.case ResolveResult.case if_False Let_def)

lemma TryInstallPendingHooks_inv:
  assumes ok: "session_ok (target env) v w" and works: "releases_succeed (target env) v w"
  shows "TryInstallPendingHooks env defs d s = (r, d', s') \<Longrightarrow> debug_inv v w base live d s \<Longrightarrow>
     debug_inv v w base live d' s' \<and> (\<exists>new. d' = d\<lparr>installedHooks := installedHooks d @ new\<rparr>)"
proof (induction defs arbitrary: d s)
  case Nil
  then show ?case by (auto intro: exI [of _ "[]"])
next
  case (Cons x defs)
  have none: ?case if "d' = d" "debug_inv v w base live d s'"
    using that by (auto intro: exI [of _ "[]"])
  let ?named = "\<exists>hook \<in> set (installedHooks d). ih_canonicalName hook = canonicalName x"
  obtain src res where res: "ResolveHookAddress (remote env) s (modules d) x = (src, res)" by fastforce
  consider (skip) "?named \<or> res = Pending"
    | (stop) "\<not> ?named" "res = ResolveResult.Error \<or> (\<exists>a m. res = Resolved a m \<and> (\<exists>hook \<in> set (installedHooks d). ih_originalFunction hook = a))"
    | (hook) a m where "\<not> ?named" "res = Resolved a m" "\<not> (\<exists>hook \<in> set (installedHooks d). ih_originalFunction hook = a)"
    by (cases res) blast+
  then show ?case
  proof cases
    case skip
    then have "TryInstallPendingHooks env defs d s = (r, d', s')"
      using Cons.prems(1) TryInstallPendingHooks_skip [of d x env s defs] res by simp
    then show ?thesis by (rule Cons.IH) (rule Cons.prems(2))
  next
    case stop
    have "(r, d', s') = (False, d, s)" unfolding Cons.prems(1) [symmetric] by (rule TryInstallPendingHooks_stop [OF stop(1) res stop(2)])
    then have "d' = d" "s' = s" by simp_all
    then show ?thesis by (intro none) (simp_all add: Cons.prems(2))
  next
    case hook
    obtain h s1 where h: "HookFunction (decoder env) (remote env) a (hookImageBase d) x s = (h, s1)" by fastforce
    note step = TryInstallPendingHooks_hook [OF hook(1) res [unfolded hook(2)] hook(3), of defs] Cons.prems(1)
    show ?thesis
    proof (cases h)
      case None
      then have "d' = d" "s' = s1" using step h by simp_all
      then show ?thesis by (intro none) (simp_all add: refused_hook_inv [OF ok works h [unfolded None] Cons.prems(2)])
    next
      case (Some ih)
      let ?h = "ih\<lparr>ih_sourceModuleBase := src, ih_targetModuleBase := m\<rparr>"
      let ?d = "d\<lparr>installedHooks := installedHooks d @ [?h]\<rparr>"
      have inv: "debug_inv v w base live ?d s1"
        by (rule add_hook_inv [OF ok works h [unfolded Some] Cons.prems(2)]) (use hook in auto)
      have "TryInstallPendingHooks env defs ?d s1 = (r, d', s')" using step h Some by simp
      from Cons.IH [OF this inv] show ?thesis by auto
    qed
  qed
qed

lemma ConfigureTransport_inv:
  assumes ok: "session_ok (target env) v w" and works: "releases_succeed (target env) v w"
    and run: "ConfigureTransport (decoder env) (remote env) nt (hookImageBase d) (link d) s = (r, l, s')"
    and inv: "debug_inv v w base True d s" and off: "\<not> transportConfigured d" and image: "hookImageBase d \<noteq> 0"
  shows "debug_inv v w base r (d\<lparr>link := l, transportConfigured := r\<rparr>) s'"
proof -
  have none: "setEventBypass (link d) = no_trampoline" "readMemoryBypass (link d) = no_trampoline"
    using inv off by (simp_all add: debug_inv_def no_bypasses_def)
  have "ledger v w base rs l s'" if "ledger v w base rs (link d) s" for rs
    using ConfigureTransport_ledger [OF ok works run that none] by simp
  then have "debug_ledger v w base (d\<lparr>link := l, transportConfigured := r\<rparr>) s'"
    by (intro debug_ledger_step [OF debug_inv_ledger [OF inv]]) (simp_all add: debug_regions_def)
  then show ?thesis using inv image by (simp add: debug_inv_def)
qed

lemma RegisterModule_inv:
  assumes ok: "session_ok (target env) v w" and works: "releases_succeed (target env) v w"
    and run: "RegisterModule env b f d s = (r, d', s')" and inv: "debug_inv v w base True d s" and image: "hookImageBase d \<noteq> 0"
  shows "debug_inv v w base r d' s' \<and> hookImageBase d' = hookImageBase d"
proof -
  let ?name = "module_identity env s b f"
  let ?m = "\<lparr>mr_base = b, mr_path = GetModulePath (finalPath env) f, mr_name = ?name, mr_generation = moduleGeneration d + 1\<rparr>"
  let ?d = "d\<lparr>moduleGeneration := moduleGeneration d + 1, modules := set_module b ?m (modules d)\<rparr>"
  have inv1: "debug_inv v w base True ?d s" by (rule debug_inv_fields [OF inv]) simp_all
  have image1: "hookImageBase ?d \<noteq> 0" using image by simp
  obtain c l s1 where c: "ConfigureTransport (decoder env) (remote env) b (hookImageBase ?d) (link ?d) s = (c, l, s1)"
    by (metis prod_cases3)
  have install: "debug_inv v w base r d' s' \<and> hookImageBase d' = hookImageBase d"
    if "TryInstallPendingHooks env (selected_hooks env) d1 t = (r, d', s')" "debug_inv v w base True d1 t" "hookImageBase d1 = hookImageBase d" for d1 t
  proof -
    from TryInstallPendingHooks_inv [OF ok works that(1,2)] have "debug_inv v w base True d' s'" "hookImageBase d' = hookImageBase d"
      using that(3) by auto
    then show ?thesis using debug_inv_dead [of v w base True d' s'] by (cases r) simp_all
  qed
  consider (nameless) "?name = []" | (configure) "?name = ''ntdll.dll''" "\<not> transportConfigured d"
    | (plain) "?name \<noteq> []" "\<not> (?name = ''ntdll.dll'' \<and> \<not> transportConfigured d)" by auto
  then show ?thesis
  proof cases
    case nameless
    then show ?thesis using run inv by (simp add: RegisterModule_def)
  next
    case configure
    let ?d1 = "?d\<lparr>link := l, transportConfigured := c\<rparr>"
    have inv2: "debug_inv v w base c ?d1 s1"
      by (rule ConfigureTransport_inv [OF ok works c inv1 _ image1]) (use configure in simp)
    show ?thesis
    proof (cases c)
      case True
      then have "TryInstallPendingHooks env (selected_hooks env) ?d1 s1 = (r, d', s')"
        using run configure c by (simp add: RegisterModule_def Let_def)
      then show ?thesis by (rule install) (use inv2 True in simp_all)
    next
      case False
      then have "\<not> r \<and> d' = ?d1 \<and> s' = s1" using run configure c by (simp add: RegisterModule_def Let_def)
      then show ?thesis using inv2 False by simp
    qed
  next
    case plain
    then have "r \<and> d' = ?d \<and> s' = s \<or> TryInstallPendingHooks env (selected_hooks env) ?d s = (r, d', s')"
      using run by (auto simp: RegisterModule_def Let_def split: if_splits)
    then show ?thesis using install [OF _ inv1] inv1 by auto
  qed
qed

subsection \<open>The handlers\<close>

definition launcher_ok :: "('s, 'h) launcher \<Rightarrow> 's observed \<Rightarrow> 's resources \<Rightarrow> bool" where
  "launcher_ok env v w \<longleftrightarrow> session_ok (target env) v w \<and> releases_succeed (target env) v w \<and>
     (\<forall>s r s'. DebugSetProcessKillOnExit env s = (r, s') \<longrightarrow> idle v w s s')"

lemma launcher_okD:
  assumes "launcher_ok env v w"
  shows "session_ok (target env) v w" "releases_succeed (target env) v w"
    "DebugSetProcessKillOnExit env s = (r, s') \<Longrightarrow> same_holdings v w s s'"
  using assms by (auto simp: launcher_ok_def intro: idle_same)

lemma start_trace_inv:
  assumes ok: "launcher_ok env v w" and run: "start_trace env d s = (r, d', s')"
    and inv: "debug_inv v w base True d s" and free: "link_free (link d)" and image: "hookImageBase d \<noteq> 0"
  shows "debug_inv v w base True d' s' \<and> hookImageBase d' = hookImageBase d"
proof (cases "stop_event env \<and> fst (OpenOutput (output_options env) (output_opens env) initial_session)")
  case False
  then show ?thesis using run inv by (simp add: start_trace_def)
next
  case True
  obtain o1 l s1 where l: "start_remote (target env) (hookImageBase d) (link d) s = (o1, l, s1)" by (metis prod_cases3)
  then have d': "s' = s1" "link d' = l" "hookImageBase d' = hookImageBase d" "installedHooks d' = installedHooks d"
    "failedRemovals d' = failedRemovals d" "transportConfigured d' = transportConfigured d"
    using run True by (auto simp: start_trace_def Let_def)
  have "ledger v w base rs l s1" if "ledger v w base rs (link d) s" for rs
    by (rule start_remote_ledger [OF launcher_okD(1,2) [OF ok] l that]) (use free in \<open>simp_all add: link_free_def\<close>)
  then have "debug_ledger v w base d' s'"
    by (intro debug_ledger_step [OF debug_inv_ledger [OF inv]]) (simp_all add: debug_regions_def d')
  moreover have "no_bypasses l" using start_remote_bypasses [OF l] free by (simp add: link_free_def no_bypasses_def)
  ultimately show ?thesis using inv image d' by (simp add: debug_inv_def)
qed

lemma InitializeDebuggee_inv:
  assumes ok: "launcher_ok env v w" and run: "InitializeDebuggee env d s = Some (r, d', s')"
    and inv: "debug_inv v w base True d s" and none: "hookImageBase d = 0"
  shows "debug_inv v w base True d' s' \<and> (r \<longrightarrow> hookImageBase d' \<noteq> 0)"
proof -
  obtain kept s1 where k: "DebugSetProcessKillOnExit env s = (kept, s1)" by fastforce
  obtain inj s2 where i: "InjectDll (remote env) (files env) (hookDllPath env) s1 = (inj, s2)" by fastforce
  have inv1: "debug_inv v w base True (d\<lparr>debugActive := True\<rparr>) s1" "debug_inv v w base True d s1"
    using debug_inv_fields [OF debug_inv_same [OF launcher_okD(3) [OF ok k] inv]] debug_inv_same [OF launcher_okD(3) [OF ok k] inv]
    by simp_all
  have free: "link_free (link d)" using inv none by (simp add: debug_inv_def)
  consider (refused) "\<not> r" "d' = d" "s' = s1"
    | (rejected) "\<not> r" "inj = Rejected" "d' = d\<lparr>debugActive := True, hookImageBase := 0\<rparr>" "s' = s2"
    | (injected) b where "inj = Injected b"
        "let d2 = d\<lparr>debugActive := True, hookImageBase := b, hookImageSize := GetRemoteImageSize (remote env) s2 b\<rparr>
         in \<not> r \<and> d' = d2 \<and> s' = s2 \<or> start_trace env d2 s2 = (r, d', s')"
    using run k i by (cases inj) (auto simp: InitializeDebuggee_def Let_def split: if_splits)
  then show ?thesis
  proof cases
    case refused
    then show ?thesis using inv1(2) by simp
  next
    case rejected
    have "debug_inv v w base True (d\<lparr>debugActive := True\<rparr>) s2"
    proof (rule debug_inv_target [OF inv1(1)])
      show "ledger v w base rs l s2" if "ledger v w base rs l s1" for rs l
        using InjectDll_holds [OF launcher_okD(1,2) [OF ok] i] that rejected(2) by (simp add: ledger_def)
    qed
    then have "debug_inv v w base True d' s2" by (rule debug_inv_fields) (use rejected(3) none in simp_all)
    then show ?thesis using rejected by simp
  next
    case (injected b)
    let ?d2 = "d\<lparr>debugActive := True, hookImageBase := b, hookImageSize := GetRemoteImageSize (remote env) s2 b\<rparr>"
    obtain n0 lk where led: "set lk \<subseteq> set (failedRemovals d)" "ledger v w base (debug_regions n0 lk d) (link d) s1"
      using inv1(2) by (auto simp: debug_inv_def debug_ledger_def)
    then have "holds v w base (debug_regions n0 lk d @ link_regions (link d)) (link_views (link d)) (link_handles (link d)) s1"
      by (simp add: ledger_def)
    from InjectDll_holds [OF launcher_okD(1,2) [OF ok] i this] injected(1) obtain n where
      held: "b \<noteq> 0" "holds v w base ((b, n) # debug_regions n0 lk d @ link_regions (link d)) (link_views (link d)) (link_handles (link d)) s2"
      by blast
    have "holds v w base (debug_regions n lk ?d2 @ link_regions (link d)) (link_views (link d)) (link_handles (link d)) s2"
      by (rule holds_perm [OF held(2)]) (simp add: debug_regions_def image_region_def none held(1))
    then have "debug_ledger v w base ?d2 s2" using led(1) by (auto simp: debug_ledger_def ledger_def)
    then have inv2: "debug_inv v w base True ?d2 s2" using inv held(1) by (simp add: debug_inv_def)
    from start_trace_inv [OF ok _ inv2] free held(1) injected(2) inv2 show ?thesis by (auto simp: Let_def)
  qed
qed

lemma HandleCreateProcess_inv:
  assumes ok: "launcher_ok env v w" and run: "HandleCreateProcess env b f d s = Some (r, d', s')"
    and inv: "debug_inv v w base True d s"
  shows "debug_inv v w base r d' s' \<and> (r \<longrightarrow> hookImageBase d' \<noteq> 0)"
proof -
  obtain r1 d1 s1 where i: "(if hookImageBase d = 0 then InitializeDebuggee env d s else Some (True, d, s)) = Some (r1, d1, s1)"
    "(r, d', s') = (if r1 then RegisterModule env b f d1 s1 else (False, d1, s1))"
    using run by (auto simp: HandleCreateProcess_def split: option.splits)
  have 1: "debug_inv v w base True d1 s1 \<and> (r1 \<longrightarrow> hookImageBase d1 \<noteq> 0)"
  proof (cases "hookImageBase d = 0")
    case True
    then show ?thesis using InitializeDebuggee_inv [OF ok _ inv True] i(1) by simp
  next
    case False
    then show ?thesis using inv i(1) by auto
  qed
  show ?thesis
  proof (cases r1)
    case True
    then have "RegisterModule env b f d1 s1 = (r, d', s')" using i(2) by simp
    then have "debug_inv v w base r d' s' \<and> hookImageBase d' = hookImageBase d1"
      by (rule RegisterModule_inv [OF launcher_okD(1,2) [OF ok]]) (use 1 True in simp_all)
    then show ?thesis using 1 True by simp
  next
    case False
    then show ?thesis using i(2) 1 debug_inv_dead [of v w base True d1 s1] by simp
  qed
qed

lemma HandleUnloadDll_inv:
  assumes ok: "launcher_ok env v w" and run: "HandleUnloadDll env b d s = (d', s')" and inv: "debug_inv v w base live d s"
  shows "debug_inv v w base live d' s' \<and> hookImageBase d' = hookImageBase d"
proof -
  obtain kept failed where u: "unload_loop (remote env) b (installedHooks d) s = (kept, failed, s')"
    "d' = d\<lparr>installedHooks := kept, failedRemovals := failedRemovals d @ failed, modules := erase_module b (modules d)\<rparr>"
    using run by (auto simp: HandleUnloadDll_def split: prod.splits)
  obtain n lk where led: "set lk \<subseteq> set (failedRemovals d)" "ledger v w base (debug_regions n lk d) (link d) s"
    using inv by (auto simp: debug_inv_def debug_ledger_def)
  let ?rs = "map hook_region lk @ image_region n (hookImageBase d) @ link_regions (link d)"
  have "holds v w base (map hook_region (installedHooks d) @ ?rs) (link_views (link d)) (link_handles (link d)) s"
    using led(2) by (simp add: ledger_def debug_regions_def)
  from unload_loop_holds [OF launcher_okD(1,2) [OF ok] u(1) this] obtain lk2 where lk2:
    "kept = filter (\<lambda>h. ih_targetModuleBase h \<noteq> b \<and> ih_sourceModuleBase h \<noteq> b) (installedHooks d)" "set lk2 \<subseteq> set failed"
    "holds v w base (map hook_region kept @ map hook_region lk2 @ ?rs) (link_views (link d)) (link_handles (link d)) s'" by blast
  have "holds v w base (debug_regions n (lk2 @ lk) d' @ link_regions (link d)) (link_views (link d)) (link_handles (link d)) s'"
    using lk2(3) u(2) by (simp add: debug_regions_def)
  then have "debug_ledger v w base d' s'"
    unfolding debug_ledger_def ledger_def using led(1) lk2(2) u(2) by (intro exI [of _ n] exI [of _ "lk2 @ lk"]) auto
  moreover have "separate_hooks kept" using inv lk2(1) by (auto simp: debug_inv_def separate_hooks_def distinct_map_filter)
  ultimately show ?thesis using inv u(2) by (simp add: debug_inv_def)
qed

text \<open>After the cleanup only the trampolines of hooks that could not be removed are left.\<close>

lemma CleanupDebuggee_holds:
  assumes ok: "launcher_ok env v w" and run: "CleanupDebuggee env d s = (cleaned, d', s')" and inv: "debug_inv v w base live d s"
  shows "hookImageBase d' = 0 \<and> installedHooks d' = [] \<and> link_free (link d') \<and> failedRemovals d' = failedRemovals d \<and>
     (\<exists>lk. set lk \<subseteq> set (failedRemovals d) \<union> (if cleaned then {} else set (installedHooks d)) \<and>
        holds v w base (map hook_region lk) [] [] s')"
proof -
  obtain c1 s1 where c1: "unhook_loop (remote env) (rev (installedHooks d)) True s = (c1, s1)" by fastforce
  obtain n lk where led: "set lk \<subseteq> set (failedRemovals d)" "ledger v w base (debug_regions n lk d) (link d) s"
    using inv by (auto simp: debug_inv_def debug_ledger_def)
  let ?rs = "map hook_region lk @ image_region n (hookImageBase d)"
  have "holds v w base (map hook_region (rev (installedHooks d)) @ ?rs @ link_regions (link d)) (link_views (link d)) (link_handles (link d)) s"
    by (rule holds_perm [OF led(2) [unfolded ledger_def]]) (simp add: debug_regions_def rev_map [symmetric])
  from unhook_loop_holds [OF launcher_okD(1,2) [OF ok] c1 this] obtain lk2 where lk2: "set lk2 \<subseteq> set (installedHooks d)" "c1 \<longrightarrow> lk2 = []"
    "holds v w base (map hook_region lk2 @ ?rs @ link_regions (link d)) (link_views (link d)) (link_handles (link d)) s1" by auto
  show ?thesis
  proof (cases "hookImageBase d = 0")
    case True
    then have "link_free (link d)" using inv by (simp add: debug_inv_def)
    moreover have "cleaned = c1" "d' = stop_trace (d\<lparr>installedHooks := []\<rparr>)" "s' = s1"
      using run c1 True by (simp_all add: CleanupDebuggee_def Let_def)
    ultimately show ?thesis using True led(1) lk2
      by (auto simp: stop_trace_def ReleaseLocalRing_def link_free_def no_bypasses_def image_region_def link_regions_def
          bypass_region_def no_trampoline_def link_views_def link_handles_def intro!: exI [of _ "lk2 @ lk"])
  next
    case False
    obtain t l s2 where t: "CleanupRemote (target env) (hookImageBase d) (link d) s1 = (t, l, s2)" by (metis prod_cases3)
    obtain fr s3 where f: "VirtualFreeEx (remote env) s2 (hookImageBase d) = (fr, s3)" by fastforce
    have "ledger v w base (map hook_region lk2 @ ?rs) (link d) s1" using lk2(3) by (simp add: ledger_def)
    from CleanupRemote_ledger [OF launcher_okD(1,2) [OF ok] t this]
    have l: "holds v w base ((map hook_region lk2 @ map hook_region lk) @ (hookImageBase d, n) # []) [] [] s2" "link_free l"
      using False by (simp_all add: image_region_def link_free_def no_bypasses_def)
    from free_held [OF launcher_okD(1,2) [OF ok] f l(1)] have fr: "fr" "holds v w base (map hook_region (lk2 @ lk)) [] [] s3" by simp_all
    have "cleaned = (fr \<and> t \<and> c1)" "d' = (stop_trace (d\<lparr>installedHooks := [], link := l\<rparr>))\<lparr>hookImageBase := 0\<rparr>" "s' = s3"
      using run c1 False t f by (simp_all add: CleanupDebuggee_def Let_def stop_trace_def)
    then show ?thesis using fr l(2) lk2 led(1)
      by (auto simp: stop_trace_def ReleaseLocalRing_def link_free_def no_bypasses_def intro!: exI [of _ "lk2 @ lk"])
  qed
qed

end
