(* ===== verification/Debug_Loop.thy ===== *)
theory Debug_Loop
  imports Debug_Ledger Windows_Arguments
begin

section \<open>The event loop of the debug session\<close>

text \<open>
  \<open>EventLoop\<close>, \<open>Run\<close> and \<open>Attach\<close> of \<open>src/apiscope/debug_session.cpp\<close>. A turn of the loop holds what Windows
  answers in it: the console control events that came, what the wait returned, the thread
  snapshot, and whether the calls of the debugger API work. \<open>progress\<close> is what the target did since the last
  turn. The loop runs over the turns given; it may still be running behind the last one.
\<close>

datatype debug_event =
    CreateProcessEvent addr u64 u64 u64
  | CreateThreadEvent u64
  | LoadDllEvent addr u64
  | UnloadDllEvent addr
  | ExceptionEvent u32
  | ExitProcessEvent u32
  | OtherEvent

datatype wait_result = TimedOut | WaitFailed | Arrived debug_event

record 's turn =
  controls :: "u32 list"
  break_works :: bool
  progress :: "'s \<Rightarrow> 's"
  waited :: wait_result
  snapshot :: "(u32 \<times> thread_context) list option"
  continue_works :: bool
  retry_works :: bool

definition EXCEPTION_BREAKPOINT :: u32 where "EXCEPTION_BREAKPOINT = 0x80000003"
definition DBG_CONTINUE :: u32 where "DBG_CONTINUE = 0x00010002"
definition DBG_EXCEPTION_NOT_HANDLED :: u32 where "DBG_EXCEPTION_NOT_HANDLED = 0x80010001"

text \<open>The handles closed after an event, and the status each event was continued with, in order.\<close>

record 's event_loop =
  dsession :: debug_session
  process_state :: 's
  loop_result :: nat
  loop_finished :: bool
  naturalExit :: bool
  retryCleanStop :: bool
  targetExitCode :: u32
  closedHandles :: "u64 list"
  continueStatuses :: "u32 list"
  incompleteCleanups :: nat
  detached :: bool
  StopRequested :: bool

definition CTRL_C_EVENT :: u32 where "CTRL_C_EVENT = 0"
definition CTRL_BREAK_EVENT :: u32 where "CTRL_BREAK_EVENT = 1"

text \<open>Whether the event is handled, and the flag.\<close>

definition ConsoleControlHandler :: "u32 \<Rightarrow> bool \<Rightarrow> bool \<times> bool" where
  "ConsoleControlHandler controlType flag =
     (if controlType = CTRL_C_EVENT \<or> controlType = CTRL_BREAK_EVENT then (True, True) else (False, flag))"

definition stop_flag :: "u32 list \<Rightarrow> bool \<Rightarrow> bool" where
  "stop_flag events flag = fold (\<lambda>controlType flag. snd (ConsoleControlHandler controlType flag)) events flag"

definition start_loop :: "debug_session \<Rightarrow> 's \<Rightarrow> 's event_loop" where
  "start_loop d s = \<lparr>dsession = d, process_state = s, loop_result = 1, loop_finished = False, naturalExit = False,
     retryCleanStop = False, targetExitCode = 0, closedHandles = [], continueStatuses = [], incompleteCleanups = 0,
     detached = False, StopRequested = False\<rparr>"

definition CloseDebugEventHandles :: "debug_event \<Rightarrow> u64 list" where
  "CloseDebugEventHandles event =
     (case event of
        CreateProcessEvent base hFile hThread hProcess \<Rightarrow> filter (\<lambda>h. h \<noteq> 0) [hFile, hThread, hProcess]
      | CreateThreadEvent hThread \<Rightarrow> filter (\<lambda>h. h \<noteq> 0) [hThread]
      | LoadDllEvent base hFile \<Rightarrow> filter (\<lambda>h. h \<noteq> 0) [hFile]
      | _ \<Rightarrow> [])"

text \<open>The \<open>switch\<close>: whether the event went well, whether it is a clean stop, and how to continue.\<close>

definition dispatch_event ::
    "('s, 'h) launcher \<Rightarrow> (u32 \<times> thread_context) list option \<Rightarrow> debug_event \<Rightarrow> 's event_loop \<Rightarrow> (bool \<times> bool \<times> u32 \<times> 's event_loop) option" where
  "dispatch_event env threads event l =
     (let d = dsession l; s = process_state l
      in case event of
           CreateProcessEvent base hFile hThread hProcess \<Rightarrow>
             (case HandleCreateProcess env base hFile d s of None \<Rightarrow> None
              | Some (ok, d, s) \<Rightarrow> Some (ok, False, DBG_CONTINUE, l\<lparr>dsession := d, process_state := s\<rparr>))
         | LoadDllEvent base hFile \<Rightarrow>
             (let (ok, d, s) = HandleLoadDll env base hFile d s
              in Some (ok, False, DBG_CONTINUE, l\<lparr>dsession := d, process_state := s\<rparr>))
         | UnloadDllEvent base \<Rightarrow>
             (let (d, s) = HandleUnloadDll env base d s
              in Some (True, False, DBG_CONTINUE, l\<lparr>dsession := d, process_state := s\<rparr>))
         | ExceptionEvent code \<Rightarrow> Some
             (if code = EXCEPTION_BREAKPOINT
              then if stopBreakRequested d
                then if IsCleanupQuiescent env threads d s then (True, True, DBG_CONTINUE, l)
                  else (True, False, DBG_CONTINUE, l\<lparr>retryCleanStop := True\<rparr>)
                else if \<not> initialBreakpointSeen d
                  then (True, False, DBG_CONTINUE, l\<lparr>dsession := d\<lparr>initialBreakpointSeen := True\<rparr>\<rparr>)
                  else (True, False, DBG_EXCEPTION_NOT_HANDLED, l)
              else (True, False, DBG_EXCEPTION_NOT_HANDLED, l))
         | ExitProcessEvent code \<Rightarrow> Some (True, False, DBG_CONTINUE,
             l\<lparr>targetExitCode := code, loop_result := (if code = 0 then 0 else 1), naturalExit := True,
               dsession := stop_trace d, loop_finished := True\<rparr>)
         | CreateThreadEvent hThread \<Rightarrow> Some (True, False, DBG_CONTINUE, l)
         | OtherEvent \<Rightarrow> Some (True, False, DBG_CONTINUE, l))"

definition cleanup_loop :: "('s, 'h) launcher \<Rightarrow> 's event_loop \<Rightarrow> 's event_loop" where
  "cleanup_loop env l =
     (let (cleaned, d, s) = CleanupDebuggee env (dsession l) (process_state l)
      in l\<lparr>dsession := d, process_state := s, incompleteCleanups := incompleteCleanups l + (if cleaned then 0 else 1)\<rparr>)"

text \<open>What follows the \<open>switch\<close>. The first component says whether the loop is left by \<open>break\<close>.\<close>

definition after_event :: "('s, 'h) launcher \<Rightarrow> 's turn \<Rightarrow> debug_event \<Rightarrow> bool \<Rightarrow> bool \<Rightarrow> u32 \<Rightarrow> 's event_loop \<Rightarrow> bool \<times> 's event_loop" where
  "after_event env t event eventOk cleanStop status l =
     (let l = (if \<not> eventOk \<or> cleanStop then cleanup_loop env l else l);
          l = l\<lparr>closedHandles := closedHandles l @ CloseDebugEventHandles event, continueStatuses := continueStatuses l @ [status]\<rparr>
      in if \<not> continue_works t then (True, l)
         else if retryCleanStop l \<and> \<not> retry_works t then (True, l\<lparr>retryCleanStop := False\<rparr>)
         else (let l = l\<lparr>retryCleanStop := False\<rparr>
               in if \<not> eventOk \<or> cleanStop
                  then (False, l\<lparr>dsession := (dsession l)\<lparr>debugActive := False\<rparr>, detached := True,
                    loop_result := (if cleanStop then 0 else 1), loop_finished := True\<rparr>)
                  else (False, l)))"

definition loop_turn :: "('s, 'h) launcher \<Rightarrow> 's turn \<Rightarrow> 's event_loop \<Rightarrow> (bool \<times> 's event_loop) option" where
  "loop_turn env t l =
     (let l = l\<lparr>process_state := progress t (process_state l), StopRequested := stop_flag (controls t) (StopRequested l)\<rparr>;
          stopping = (StopRequested l \<and> \<not> stopBreakRequested (dsession l))
      in if stopping \<and> \<not> break_works t then Some (True, l)
         else (let l = (if stopping then l\<lparr>dsession := (dsession l)\<lparr>stopBreakRequested := True\<rparr>\<rparr> else l)
               in case waited t of TimedOut \<Rightarrow> Some (False, l) | WaitFailed \<Rightarrow> Some (True, l)
                  | Arrived event \<Rightarrow>
                     (case dispatch_event env (snapshot t) event l of None \<Rightarrow> None
                      | Some (eventOk, cleanStop, status, l) \<Rightarrow> Some (after_event env t event eventOk cleanStop status l))))"

lemma stop_flag_simps [simp]:
  "stop_flag [] flag = flag" "stop_flag (controlType # events) flag = stop_flag events (snd (ConsoleControlHandler controlType flag))"
  by (simp_all add: stop_flag_def)

text \<open>The state in which the loop waits, and the ways a turn can go.\<close>

definition stop_requested :: "'s turn \<Rightarrow> bool" where
  "stop_requested t \<longleftrightarrow> CTRL_C_EVENT \<in> set (controls t) \<or> CTRL_BREAK_EVENT \<in> set (controls t)"

lemma stop_flag_iff: "stop_flag (controls t) flag \<longleftrightarrow> flag \<or> stop_requested t"
proof -
  have "stop_flag cs flag \<longleftrightarrow> flag \<or> CTRL_C_EVENT \<in> set cs \<or> CTRL_BREAK_EVENT \<in> set cs" for cs
    by (induction cs arbitrary: flag) (auto simp: stop_flag_def ConsoleControlHandler_def)
  then show ?thesis by (simp add: stop_requested_def)
qed

definition waiting :: "'s turn \<Rightarrow> 's event_loop \<Rightarrow> 's event_loop" where
  "waiting t l =
     (let l = l\<lparr>process_state := progress t (process_state l), StopRequested := StopRequested l \<or> stop_requested t\<rparr>
      in if StopRequested l \<and> \<not> stopBreakRequested (dsession l) then l\<lparr>dsession := (dsession l)\<lparr>stopBreakRequested := True\<rparr>\<rparr> else l)"

lemma waiting_fields [simp]:
  "process_state (waiting t l) = progress t (process_state l)" "loop_finished (waiting t l) = loop_finished l"
  "loop_result (waiting t l) = loop_result l" "naturalExit (waiting t l) = naturalExit l"
  "continueStatuses (waiting t l) = continueStatuses l" "closedHandles (waiting t l) = closedHandles l"
  "StopRequested (waiting t l) \<longleftrightarrow> StopRequested l \<or> stop_requested t"
  "stopBreakRequested (dsession (waiting t l)) \<longleftrightarrow> stopBreakRequested (dsession l) \<or> StopRequested l \<or> stop_requested t"
  "initialBreakpointSeen (dsession (waiting t l)) = initialBreakpointSeen (dsession l)"
  "hookImageBase (dsession (waiting t l)) = hookImageBase (dsession l)"
  by (auto simp: waiting_def Let_def)

lemma loop_turn_cases:
  assumes "loop_turn env t l = Some (left, l')"
  obtains (broken) "left" "loop_finished l' = loop_finished l" "loop_result l' = loop_result l" "naturalExit l' = naturalExit l"
      "continueStatuses l' = continueStatuses l" "closedHandles l' = closedHandles l"
    | (idle) "waited t = TimedOut" "\<not> left" "l' = waiting t l"
    | (event) e r stop st l2 where "waited t = Arrived e" "dispatch_event env (snapshot t) e (waiting t l) = Some (r, stop, st, l2)"
        "after_event env t e r stop st l2 = (left, l')"
  using assms
  by (auto simp: loop_turn_def waiting_def stop_flag_iff Let_def split: if_splits wait_result.splits option.splits)

text \<open>The loop over the turns: whether it was left, and its state.\<close>

fun loop_turns :: "('s, 'h) launcher \<Rightarrow> 's turn list \<Rightarrow> 's event_loop \<Rightarrow> (bool \<times> 's event_loop) option" where
  "loop_turns env [] l = Some (loop_finished l, l)"
| "loop_turns env (t # ts) l =
     (if loop_finished l then Some (True, l)
      else case loop_turn env t l of None \<Rightarrow> None
           | Some (left, l) \<Rightarrow> if left then Some (True, l) else loop_turns env ts l)"

lemma loop_turns_finished: "loop_finished l \<Longrightarrow> loop_turns env ts l = Some (True, l)"
  by (cases ts) simp_all

text \<open>
  The contract of a turn towards the loop: from a state and the turns ahead that satisfy \<open>Inv\<close> it
  goes on with \<open>Inv\<close>, or it ends the loop in a state of \<open>Post\<close>.
\<close>

locale loop_rule =
  fixes env :: "('s, 'h) launcher" and Inv :: "'s turn list \<Rightarrow> 's event_loop \<Rightarrow> bool" and Post :: "'s event_loop \<Rightarrow> bool"
  assumes turn: "loop_turn env t l = Some (left, l') \<Longrightarrow> \<not> loop_finished l \<Longrightarrow> Inv (t # ts) l \<Longrightarrow>
    if left \<or> loop_finished l' then Post l' else Inv ts l'"
begin

lemma turns: "loop_turns env ts l = Some (left, l') \<Longrightarrow> \<not> loop_finished l \<Longrightarrow> Inv ts l \<Longrightarrow> if left then Post l' else Inv [] l'"
proof (induction ts arbitrary: l)
  case (Cons t ts)
  then obtain left1 l1 where t: "loop_turn env t l = Some (left1, l1)"
    "if left1 then left \<and> l' = l1 else loop_turns env ts l1 = Some (left, l')"
    by (auto split: option.splits if_splits)
  note step = turn [OF t(1) Cons.prems(2,3)]
  show ?case
  proof (cases "left1 \<or> loop_finished l1")
    case True
    then have "left \<and> l' = l1" using t(2) loop_turns_finished [of l1 env ts] by (auto split: if_splits)
    then show ?thesis using step True by simp
  next
    case False
    then show ?thesis using Cons.IH [of l1] t(2) step by simp
  qed
qed simp

end

text \<open>Behind the loop.\<close>

definition finish_loop :: "'s event_loop \<Rightarrow> 's event_loop" where
  "finish_loop l =
     (let l = (if debugActive (dsession l) \<and> \<not> loop_finished l then l\<lparr>detached := True\<rparr> else l);
          l = (if naturalExit l then l else l\<lparr>dsession := stop_trace (dsession l)\<rparr>)
      in l\<lparr>dsession := (dsession l)\<lparr>process_open := False\<rparr>\<rparr>)"

datatype 's loop_end = StillRunning "'s event_loop" | Returned nat "'s event_loop"

definition EventLoop :: "('s, 'h) launcher \<Rightarrow> 's turn list \<Rightarrow> debug_session \<Rightarrow> 's \<Rightarrow> 's loop_end option" where
  "EventLoop env turns d s =
     (case loop_turns env turns (start_loop d s) of None \<Rightarrow> None
      | Some (left, l) \<Rightarrow> Some (if left then Returned (loop_result l) (finish_loop l) else StillRunning l))"

definition RunSession :: "('s, 'h) launcher \<Rightarrow> (wstring \<Rightarrow> wstring \<Rightarrow> u32 option) \<Rightarrow> wstring list \<Rightarrow> 's turn list \<Rightarrow> debug_session \<Rightarrow> 's \<Rightarrow> 's loop_end option" where
  "RunSession env createProcess targetArgs turns d s =
     (case createProcess (targetArgs ! 0) (BuildWindowsCommandLine targetArgs @ [0]) of
        None \<Rightarrow> Some (Returned 1 (start_loop d s))
      | Some pid \<Rightarrow> EventLoop env turns (d\<lparr>process_open := True, processId := pid\<rparr>) s)"

definition AttachSession :: "('s, 'h) launcher \<Rightarrow> (u32 \<Rightarrow> bool) \<Rightarrow> (u32 \<Rightarrow> bool) \<Rightarrow> u32 \<Rightarrow> 's turn list \<Rightarrow> debug_session \<Rightarrow> 's \<Rightarrow> 's loop_end option" where
  "AttachSession env openProcess debugActiveProcess pid turns d s =
     (if \<not> openProcess pid then Some (Returned 1 (start_loop d s))
      else (let d = d\<lparr>process_open := True, processId := pid, attached := True\<rparr>
            in if \<not> debugActiveProcess pid then Some (Returned 1 (start_loop (d\<lparr>process_open := False\<rparr>) s))
               else EventLoop env turns d s))"

subsection \<open>What a session leaves in the target\<close>

text \<open>The documented order of debug events: the process event comes before the module events.\<close>

fun process_first :: "'s turn list \<Rightarrow> bool" where
  "process_first [] = True"
| "process_first (t # ts) = (case waited t of Arrived (CreateProcessEvent b f h p) \<Rightarrow> True
     | Arrived (LoadDllEvent b f) \<Rightarrow> False | _ \<Rightarrow> process_first ts)"

lemma ReleaseLocalRing_link:
  "link_regions (ReleaseLocalRing l) = link_regions l" "link_views (ReleaseLocalRing l) = link_views l"
  "link_handles (ReleaseLocalRing l) = link_handles l" "link_free (ReleaseLocalRing l) = link_free l"
  "no_bypasses (ReleaseLocalRing l) = no_bypasses l"
  by (simp_all add: ReleaseLocalRing_def link_regions_def link_views_def link_handles_def link_free_def no_bypasses_def)

lemma stop_trace_inv: "debug_inv v w base live d s \<Longrightarrow> debug_inv v w base live (stop_trace d) s"
  by (simp add: debug_inv_def debug_ledger_def debug_regions_def ledger_def stop_trace_def ReleaseLocalRing_link)

lemma dispatch_event_inv:
  assumes ok: "launcher_ok env v w" and run: "dispatch_event env th e l = Some (r, stop, st, l')"
    and inv: "debug_inv v w base True (dsession l) (process_state l)" and going: "\<not> loop_finished l"
    and image: "hookImageBase (dsession l) \<noteq> 0 \<or> process_first (t # ts)" and e: "waited t = Arrived e"
  shows "debug_inv v w base r (dsession l') (process_state l') \<and> incompleteCleanups l' = incompleteCleanups l \<and>
     (loop_finished l' \<longrightarrow> naturalExit l' \<and> r \<and> \<not> stop) \<and> (\<not> loop_finished l' \<longrightarrow> naturalExit l' = naturalExit l) \<and>
     (r \<longrightarrow> hookImageBase (dsession l') \<noteq> 0 \<or> process_first ts)"
proof (cases e)
  case (CreateProcessEvent b f h p)
  then obtain d s where "HandleCreateProcess env b f (dsession l) (process_state l) = Some (r, d, s)"
    "l' = l\<lparr>dsession := d, process_state := s\<rparr>" using run by (auto simp: dispatch_event_def Let_def split: option.splits)
  then show ?thesis using HandleCreateProcess_inv [OF ok _ inv] going by simp
next
  case (LoadDllEvent b f)
  then have "hookImageBase (dsession l) \<noteq> 0" using image e by simp
  moreover obtain d s where "HandleLoadDll env b f (dsession l) (process_state l) = (r, d, s)"
    "l' = l\<lparr>dsession := d, process_state := s\<rparr>" using run LoadDllEvent by (auto simp: dispatch_event_def Let_def split: prod.splits)
  ultimately show ?thesis using RegisterModule_inv [OF launcher_okD(1,2) [OF ok] _ inv, of b f r d s] going
    by (simp add: HandleLoadDll_def)
next
  case (UnloadDllEvent b)
  then obtain d s where "HandleUnloadDll env b (dsession l) (process_state l) = (d, s)" "r"
    "l' = l\<lparr>dsession := d, process_state := s\<rparr>" using run by (auto simp: dispatch_event_def Let_def split: prod.splits)
  then show ?thesis using HandleUnloadDll_inv [OF ok _ inv, of b d s] going image e UnloadDllEvent by simp
next
  case (ExceptionEvent c)
  have "debug_inv v w base True ((dsession l)\<lparr>initialBreakpointSeen := True\<rparr>) (process_state l)"
    by (rule debug_inv_fields [OF inv]) simp_all
  then show ?thesis using run inv going image e ExceptionEvent by (auto simp: dispatch_event_def Let_def split: if_splits)
next
  case (ExitProcessEvent c)
  then show ?thesis using run stop_trace_inv [OF inv] image e by (auto simp: dispatch_event_def Let_def stop_trace_def)
qed (use run inv going image e in \<open>auto simp: dispatch_event_def Let_def\<close>)

definition taken_back :: "'s observed \<Rightarrow> 's resources \<Rightarrow> base_resources \<Rightarrow> 's event_loop \<Rightarrow> bool" where
  "taken_back v w base l \<longleftrightarrow> hookImageBase (dsession l) = 0 \<and> installedHooks (dsession l) = [] \<and> link_free (link (dsession l)) \<and>
     (\<exists>lk. (incompleteCleanups l = 0 \<longrightarrow> set lk \<subseteq> set (failedRemovals (dsession l))) \<and>
        holds v w base (map hook_region lk) [] [] (process_state l))"

lemma cleanup_loop_taken_back:
  assumes "launcher_ok env v w" "debug_inv v w base live (dsession l) (process_state l)"
  shows "taken_back v w base (cleanup_loop env l)"
proof -
  obtain c d s where c: "CleanupDebuggee env (dsession l) (process_state l) = (c, d, s)" by (metis prod_cases3)
  from CleanupDebuggee_holds [OF assms(1) c assms(2)] show ?thesis
    by (cases c) (auto simp: taken_back_def cleanup_loop_def c)
qed

text \<open>A turn of the loop: it goes on with the invariant, or it ends the loop.\<close>

definition loop_inv :: "'s observed \<Rightarrow> 's resources \<Rightarrow> base_resources \<Rightarrow> 's turn list \<Rightarrow> 's event_loop \<Rightarrow> bool" where
  "loop_inv v w base ts l \<longleftrightarrow>
     (loop_finished l \<longrightarrow> naturalExit l \<or> taken_back v w base l) \<and>
     (\<not> loop_finished l \<longrightarrow> debug_inv v w base True (dsession l) (process_state l) \<and>
        (hookImageBase (dsession l) \<noteq> 0 \<or> process_first ts))"

lemma after_event_inv:
  assumes ok: "launcher_ok env v w" and run: "after_event env t e r stop st l = (left, l')"
    and inv: "debug_inv v w base r (dsession l) (process_state l)"
    and ended: "loop_finished l \<longrightarrow> naturalExit l \<and> r \<and> \<not> stop" and image: "r \<longrightarrow> hookImageBase (dsession l) \<noteq> 0 \<or> process_first ts"
  shows "(\<not> left \<longrightarrow> loop_inv v w base ts l') \<and> (loop_finished l' \<longrightarrow> naturalExit l' \<or> taken_back v w base l')"
proof (cases "r \<and> \<not> stop")
  case True
  then have "(left \<longrightarrow> loop_finished l' = loop_finished l \<and> naturalExit l' = naturalExit l) \<and>
      (\<not> left \<longrightarrow> loop_finished l' = loop_finished l \<and> naturalExit l' = naturalExit l \<and> dsession l' = dsession l \<and> process_state l' = process_state l)"
    using run by (auto simp: after_event_def Let_def split: if_splits)
  then show ?thesis using ended inv image True by (auto simp: loop_inv_def)
next
  case False
  let ?c = "cleanup_loop env l"
  have c: "taken_back v w base ?c" by (rule cleanup_loop_taken_back [OF ok inv])
  have live: "loop_finished ?c = loop_finished l" by (simp add: cleanup_loop_def split: prod.splits)
  have "\<not> loop_finished l" using ended False by blast
  then have "left \<and> \<not> loop_finished l' \<or> \<not> left \<and> loop_finished l' \<and> dsession l' = (dsession ?c)\<lparr>debugActive := False\<rparr> \<and>
      process_state l' = process_state ?c \<and> incompleteCleanups l' = incompleteCleanups ?c"
    using run False live by (auto simp: after_event_def Let_def split: if_splits)
  moreover have "taken_back v w base l'" if "dsession l' = (dsession ?c)\<lparr>debugActive := False\<rparr>" "process_state l' = process_state ?c"
    "incompleteCleanups l' = incompleteCleanups ?c"
    using c that by (simp add: taken_back_def)
  ultimately show ?thesis unfolding loop_inv_def by blast
qed

lemma loop_turn_inv:
  assumes ok: "launcher_ok env v w" and run: "loop_turn env t l = Some (left, l')" and inv: "loop_inv v w base (t # ts) l"
    and going: "\<not> loop_finished l" and keeps: "\<And>s. same_holdings v w s (progress t s)"
  shows "(\<not> left \<longrightarrow> loop_inv v w base ts l') \<and> (loop_finished l' \<longrightarrow> naturalExit l' \<or> taken_back v w base l')"
proof -
  have "debug_inv v w base True (dsession l) (progress t (process_state l))"
    using debug_inv_same [OF keeps] inv going by (simp add: loop_inv_def)
  then have "debug_inv v w base True (dsession (waiting t l)) (progress t (process_state l))"
    by (rule debug_inv_fields) (simp_all add: waiting_def Let_def)
  then have inv1: "debug_inv v w base True (dsession (waiting t l)) (process_state (waiting t l))" by simp
  have image: "hookImageBase (dsession (waiting t l)) \<noteq> 0 \<or> process_first (t # ts)" using inv going by (simp add: loop_inv_def)
  from run show ?thesis
  proof (cases rule: loop_turn_cases)
    case broken
    then show ?thesis using going by simp
  next
    case idle
    then show ?thesis using inv1 image going by (simp add: loop_inv_def)
  next
    case (event e r stop st l2)
    have "\<not> loop_finished (waiting t l)" using going by simp
    from dispatch_event_inv [OF ok event(2) inv1 this image event(1)] after_event_inv [OF ok event(3)]
    show ?thesis by blast
  qed
qed

interpretation taken: loop_rule env
  "\<lambda>ts l. launcher_ok env v w \<and> (\<forall>t \<in> set ts. \<forall>s. same_holdings v w s (progress t s)) \<and> loop_inv v w base ts l"
  "\<lambda>l. loop_finished l \<longrightarrow> naturalExit l \<or> taken_back v w base l" for env v w base
proof (unfold_locales, elim conjE)
  fix t l left l' ts
  assume a: "loop_turn env t l = Some (left, l')" "\<not> loop_finished l" "launcher_ok env v w"
    "\<forall>t \<in> set (t # ts). \<forall>s. same_holdings v w s (progress t s)" "loop_inv v w base (t # ts) l"
  have "(\<not> left \<longrightarrow> loop_inv v w base ts l') \<and> (loop_finished l' \<longrightarrow> naturalExit l' \<or> taken_back v w base l')"
    by (rule loop_turn_inv [OF a(3,1,5,2)]) (use a(4) in simp)
  then show "if left \<or> loop_finished l' then loop_finished l' \<longrightarrow> naturalExit l' \<or> taken_back v w base l'
     else launcher_ok env v w \<and> (\<forall>t \<in> set ts. \<forall>s. same_holdings v w s (progress t s)) \<and> loop_inv v w base ts l'"
    using a(3,4) by simp
qed

lemma EventLoop_taken_back:
  assumes ok: "launcher_ok env v w" and run: "EventLoop env turns d s = Some (Returned r l)"
    and inv: "debug_inv v w base True d s" and first: "process_first turns"
    and keeps: "\<forall>t \<in> set turns. \<forall>s. same_holdings v w s (progress t s)" and over: "loop_finished l" "\<not> naturalExit l"
  shows "taken_back v w base l"
proof -
  obtain l1 where l1: "loop_turns env turns (start_loop d s) = Some (True, l1)" "l = finish_loop l1"
    using run by (auto simp: EventLoop_def split: option.splits if_splits)
  have "loop_inv v w base turns (start_loop d s)" using inv first by (simp add: loop_inv_def start_loop_def)
  moreover have "loop_finished l1" "\<not> naturalExit l1" using over l1(2) by (auto simp: finish_loop_def Let_def split: if_splits)
  moreover have "\<not> loop_finished (start_loop d s)" by (simp add: start_loop_def)
  ultimately have "taken_back v w base l1" using taken.turns [OF l1(1)] ok keeps by auto
  then show ?thesis using l1(2) \<open>\<not> naturalExit l1\<close>
    by (simp add: taken_back_def finish_loop_def Let_def stop_trace_def ReleaseLocalRing_link)
qed


subsection \<open>Handles and statuses\<close>

definition arrived :: "'s turn list \<Rightarrow> debug_event list" where
  "arrived turns = concat (map (\<lambda>t. case waited t of Arrived e \<Rightarrow> [e] | _ \<Rightarrow> []) turns)"

text \<open>
  How an event is to be continued: every exception goes back to the target but the first
  breakpoint, the one of the debugger, and the breakpoints after a stop request.
\<close>

definition expected_status :: "bool \<Rightarrow> bool \<Rightarrow> debug_event \<Rightarrow> u32" where
  "expected_status seen stopping e =
     (case e of ExceptionEvent c \<Rightarrow>
        if c = EXCEPTION_BREAKPOINT \<and> (stopping \<or> \<not> seen) then DBG_CONTINUE else DBG_EXCEPTION_NOT_HANDLED
      | _ \<Rightarrow> DBG_CONTINUE)"

fun expected_statuses :: "bool \<Rightarrow> bool \<Rightarrow> 's turn list \<Rightarrow> u32 list" where
  "expected_statuses seen stopping [] = []"
| "expected_statuses seen stopping (t # ts) =
     (let stopping = (stopping \<or> stop_requested t)
      in case waited t of
           Arrived e \<Rightarrow> expected_status seen stopping e #
             expected_statuses (seen \<or> e = ExceptionEvent EXCEPTION_BREAKPOINT \<and> \<not> stopping) stopping ts
         | _ \<Rightarrow> expected_statuses seen stopping ts)"

lemma TryInstallPendingHooks_fields: "\<exists>hs. fst (snd (TryInstallPendingHooks env defs d s)) = d\<lparr>installedHooks := hs\<rparr>"
proof (induction env defs d s rule: TryInstallPendingHooks.induct)
  case (1 env d s)
  then show ?case by (auto intro: exI [of _ "installedHooks d"])
next
  case (2 env x defs d s)
  have stay: "\<exists>hs. d = d\<lparr>installedHooks := hs\<rparr>" by (rule exI [of _ "installedHooks d"]) simp
  show ?case
    using 2 stay by (auto simp: Let_def split: prod.splits ResolveResult.splits option.splits)
qed

definition same_flags :: "debug_session \<Rightarrow> debug_session \<Rightarrow> bool" where
  "same_flags d d' \<longleftrightarrow> initialBreakpointSeen d' = initialBreakpointSeen d \<and> stopBreakRequested d' = stopBreakRequested d"

lemma RegisterModule_flags:
  assumes "RegisterModule env b f d s = (r, d', s')"
  shows "same_flags d d'"
proof -
  have install: "same_flags d1 d'" if "TryInstallPendingHooks env defs d1 t = (r, d', s')" for defs d1 t
    using TryInstallPendingHooks_fields [of env defs d1 t] that by (auto simp: same_flags_def)
  show ?thesis using assms
    by (auto simp: RegisterModule_def Let_def split: if_splits prod.splits dest!: install) (simp_all add: same_flags_def)
qed

lemma InitializeDebuggee_flags: "InitializeDebuggee env d s = Some (r, d', s') \<Longrightarrow> same_flags d d'"
  by (auto simp: InitializeDebuggee_def start_trace_def same_flags_def Let_def split: if_splits prod.splits injection.splits)

lemma HandleCreateProcess_flags: "HandleCreateProcess env b f d s = Some (r, d', s') \<Longrightarrow> same_flags d d'"
  by (auto simp: HandleCreateProcess_def same_flags_def split: if_splits option.splits
      dest!: InitializeDebuggee_flags RegisterModule_flags)

lemma HandleUnloadDll_flags: "HandleUnloadDll env b d s = (d', s') \<Longrightarrow> same_flags d d'"
  by (auto simp: HandleUnloadDll_def same_flags_def split: prod.splits)

lemma dispatch_event_flags:
  assumes "dispatch_event env th e l = Some (r, stop, st, l')"
  shows "st = expected_status (initialBreakpointSeen (dsession l)) (stopBreakRequested (dsession l)) e \<and>
     initialBreakpointSeen (dsession l') =
       (initialBreakpointSeen (dsession l) \<or> e = ExceptionEvent EXCEPTION_BREAKPOINT \<and> \<not> stopBreakRequested (dsession l)) \<and>
     stopBreakRequested (dsession l') = stopBreakRequested (dsession l) \<and>
     continueStatuses l' = continueStatuses l \<and> closedHandles l' = closedHandles l \<and> StopRequested l' = StopRequested l"
  using assms
  by (cases e) (auto simp: dispatch_event_def HandleLoadDll_def expected_status_def same_flags_def stop_trace_def Let_def
      split: if_splits option.splits prod.splits dest!: HandleCreateProcess_flags HandleUnloadDll_flags RegisterModule_flags)

lemma after_event_lists:
  assumes "after_event env t e r stop st l = (left, l')"
  shows "continueStatuses l' = continueStatuses l @ [st] \<and> closedHandles l' = closedHandles l @ CloseDebugEventHandles e \<and>
     (\<not> left \<and> \<not> loop_finished l' \<longrightarrow> dsession l' = dsession l \<and> StopRequested l' = StopRequested l)"
proof -
  have "continueStatuses (cleanup_loop env l) = continueStatuses l" "closedHandles (cleanup_loop env l) = closedHandles l"
    by (simp_all add: cleanup_loop_def split: prod.splits)
  then show ?thesis using assms by (auto simp: after_event_def Let_def split: if_splits)
qed

text \<open>The events before \<open>ts\<close> have been answered; when the loop ends, those of a part of the turns.\<close>

definition answered :: "'s turn list \<Rightarrow> 's turn list \<Rightarrow> 's event_loop \<Rightarrow> bool" where
  "answered turns ts l \<longleftrightarrow> (StopRequested l \<longrightarrow> stopBreakRequested (dsession l)) \<and>
     expected_statuses False False turns =
       continueStatuses l @ expected_statuses (initialBreakpointSeen (dsession l)) (stopBreakRequested (dsession l)) ts \<and>
     (\<exists>es. arrived turns = es @ arrived ts \<and> closedHandles l = concat (map CloseDebugEventHandles es) \<and>
        length es = length (continueStatuses l))"

definition answered_part :: "'s turn list \<Rightarrow> 's event_loop \<Rightarrow> bool" where
  "answered_part turns l \<longleftrightarrow> (\<exists>n \<le> length (arrived turns). continueStatuses l = take n (expected_statuses False False turns) \<and>
     closedHandles l = concat (map CloseDebugEventHandles (take n (arrived turns))))"

lemma answered_partI:
  assumes "expected_statuses False False turns = continueStatuses l @ rest" "arrived turns = es @ rest'"
    "closedHandles l = concat (map CloseDebugEventHandles es)" "length es = length (continueStatuses l)"
  shows "answered_part turns l"
  unfolding answered_part_def using assms by (intro exI [of _ "length es"]) simp

lemma answered_turn:
  assumes run: "loop_turn env t l = Some (left, l')" and going: "\<not> loop_finished l" and inv: "answered turns (t # ts) l"
  shows "if left \<or> loop_finished l' then answered_part turns l' else answered turns ts l'"
proof -
  let ?stopping = "stopBreakRequested (dsession l) \<or> stop_requested t"
  obtain es where es: "arrived turns = es @ arrived (t # ts)" "closedHandles l = concat (map CloseDebugEventHandles es)"
    "length es = length (continueStatuses l)" using inv by (auto simp: answered_def)
  note exp = inv [unfolded answered_def, THEN conjunct2, THEN conjunct1]
  have w: "stopBreakRequested (dsession (waiting t l)) = ?stopping"
    "StopRequested (waiting t l) \<longrightarrow> stopBreakRequested (dsession (waiting t l))" using inv by (auto simp: answered_def)
  from run show ?thesis
  proof (cases rule: loop_turn_cases)
    case broken
    have "answered_part turns l'" by (rule answered_partI [where es = es]) (simp_all add: broken es exp)
    then show ?thesis using broken by simp
  next
    case idle
    then show ?thesis using going es exp w by (simp add: answered_def arrived_def Let_def)
  next
    case (event e r stop st m)
    note d = dispatch_event_flags [OF event(2)] and a = after_event_lists [OF event(3)]
    have lists: "continueStatuses l' = continueStatuses l @ [expected_status (initialBreakpointSeen (dsession l)) ?stopping e]"
      "closedHandles l' = concat (map CloseDebugEventHandles (es @ [e]))" using d a w(1) es(2) by simp_all
    have more: "expected_statuses False False turns = continueStatuses l' @ expected_statuses
        (initialBreakpointSeen (dsession l) \<or> e = ExceptionEvent EXCEPTION_BREAKPOINT \<and> \<not> ?stopping) ?stopping ts"
      "arrived turns = (es @ [e]) @ arrived ts" "length (es @ [e]) = length (continueStatuses l')"
      using event(1) lists(1) exp es by (simp_all add: arrived_def Let_def)
    show ?thesis
    proof (cases "left \<or> loop_finished l'")
      case True
      then show ?thesis using answered_partI [OF more(1,2) lists(2) more(3)] by simp
    next
      case False
      then have flags: "initialBreakpointSeen (dsession l') =
          (initialBreakpointSeen (dsession l) \<or> e = ExceptionEvent EXCEPTION_BREAKPOINT \<and> \<not> ?stopping)"
        "stopBreakRequested (dsession l') = ?stopping" "StopRequested l' \<longrightarrow> stopBreakRequested (dsession l')"
        using a d w by auto
      have "answered turns ts l'" unfolding answered_def flags(1,2) using flags(2,3) more lists(2) by blast
      then show ?thesis using False by simp
    qed
  qed
qed

interpretation answering: loop_rule env "answered turns" "answered_part turns" for env turns
  by unfold_locales (rule answered_turn)

fun end_loop :: "'s loop_end \<Rightarrow> 's event_loop" where
  "end_loop (StillRunning l) = l"
| "end_loop (Returned r l) = l"


subsection \<open>Runs on the sample process\<close>

text \<open>A launcher whose output options are refused after the image was mapped.\<close>

definition sample_launcher :: "(session_sim, unit) launcher" where
  "sample_launcher = \<lparr>target = session_sim_os, DebugSetProcessKillOnExit = (\<lambda>s. (True, s)), decoder = nop_decoder,
     files = sample_files (sample_dll sample_block), hookDllPath = [], finalPath = (\<lambda>f n. (0, [])), selected_hooks = [],
     output_options = \<lparr>output_format = Jsonl, outputPath = [], quiet = False, color_mode = Never, status_mode = Never\<rparr>,
     output_opens = True, stop_event = True\<rparr>"

definition sample_turn :: "debug_event \<Rightarrow> session_sim turn" where
  "sample_turn e = \<lparr>controls = [], break_works = True, progress = id, waited = Arrived e, snapshot = None,
     continue_works = True, retry_works = True\<rparr>"

lemma sample_launcher_ok: "launcher_ok sample_launcher sim_observed sim_resources"
  using session_sim_ok session_sim_works
  by (simp add: launcher_ok_def sample_launcher_def idle_def unchanged_def same_resources_def)

lemma sample_launcher_injects:
  "\<exists>s'. InjectDll (remote sample_launcher) (files sample_launcher) (hookDllPath sample_launcher) (sample_process, x) = (Injected 0x5000, s')"
proof -
  have "length sample_block = 10" by (simp add: sample_block_def)
  moreover have "VirtualAllocEx (remote sample_launcher) (sample_process, x) (unat (SizeOfImage sample_headers)) PAGE_READWRITE = (0x5000, (sample_allocated, x))"
    by (simp add: sample_launcher_def session_sim_os_def lift_call_def sim_os_def sample_process_def sample_headers_def sample_allocated_def)
  moreover have "\<exists>s'. map_image (remote sample_launcher) b (section_headers content sample_headers) img s = (True, s')" for b content img s
    by (simp add: map_image_def section_headers_def sample_headers_def sample_launcher_def session_sim_os_def lift_call_def sim_os_def)
  then obtain s' where "map_image (remote sample_launcher) 0x5000 (section_headers (sample_dll sample_block) sample_headers)
      (add_at 0x5000 8 (sample_dll sample_block @ [0, 0])) (sample_allocated, x) = (True, s')" by blast
  moreover have "files sample_launcher = sample_files (sample_dll sample_block)" "hookDllPath sample_launcher = []"
    by (simp_all add: sample_launcher_def)
  ultimately have "InjectDll (remote sample_launcher) (files sample_launcher) (hookDllPath sample_launcher) (sample_process, x) = (Injected 0x5000, s')"
    by (simp add: InjectDll_def sample_files_def INVALID_FILE_SIZE_def sample_length ReflectiveDLLInject_def sample_checked
        fill_region_def sample_laid sample_relocated)
  then show ?thesis by blast
qed

lemma sample_create_refused:
  assumes "hookImageBase d = 0"
  shows "\<exists>d' s'. HandleCreateProcess sample_launcher b f d (sample_process, x) = Some (False, d', s')"
proof -
  obtain s' where "InjectDll (remote sample_launcher) (files sample_launcher) (hookDllPath sample_launcher) (sample_process, x) = (Injected 0x5000, s')"
    using sample_launcher_injects by blast
  moreover have "DebugSetProcessKillOnExit sample_launcher s = (True, s)" for s by (simp add: sample_launcher_def)
  moreover have "start_trace sample_launcher d s = (False, d, s)" for d s
    by (simp add: start_trace_def sample_launcher_def OpenOutput_def initial_session_def)
  ultimately have "\<exists>d'. HandleCreateProcess sample_launcher b f d (sample_process, x) = Some (False, d', s')"
    using assms by (simp add: HandleCreateProcess_def InitializeDebuggee_def Let_def)
  then show ?thesis by blast
qed



end
