(* ===== verification/Debug_Stop.thy ===== *)
theory Debug_Stop
  imports Debug_Loop
begin

section \<open>Stopping and unhooking\<close>

text \<open>
  When the loop of \<open>Debug_Loop\<close> ends with success, and what the removal of all hooks leaves in the
  memory of the target.
\<close>

subsection \<open>Successful ends\<close>

definition stops_at :: "('s, 'h) launcher \<Rightarrow> 's turn \<Rightarrow> debug_session \<Rightarrow> 's \<Rightarrow> bool" where
  "stops_at env t d s \<longleftrightarrow> waited t = Arrived (ExceptionEvent EXCEPTION_BREAKPOINT) \<and> stopBreakRequested d \<and>
     IsCleanupQuiescent env (snapshot t) d s"

text \<open>The loop has not ended, or the target exited, or a handler failed, or the stop was clean.\<close>

definition loop_ended :: "('s, 'h) launcher \<Rightarrow> 's turn list \<Rightarrow> 's event_loop \<Rightarrow> bool" where
  "loop_ended env ts l \<longleftrightarrow>
     \<not> loop_finished l \<and> loop_result l = 1 \<and> \<not> naturalExit l \<or>
     naturalExit l \<and> loop_result l = (if targetExitCode l = 0 then 0 else 1) \<or>
     \<not> naturalExit l \<and> loop_finished l \<and> loop_result l = 1 \<or>
     \<not> naturalExit l \<and> loop_finished l \<and> loop_result l = 0 \<and>
       (\<exists>t \<in> set ts. \<exists>d s. stops_at env t d s \<and> process_state l = snd (snd (CleanupDebuggee env d s)))"

lemma dispatch_event_end:
  assumes "dispatch_event env th e l = Some (r, stop, st, l')" "\<not> loop_finished l" "loop_result l = 1" "\<not> naturalExit l"
  shows "\<not> loop_finished l' \<and> loop_result l' = 1 \<and> \<not> naturalExit l' \<and>
       (stop \<longrightarrow> l' = l \<and> e = ExceptionEvent EXCEPTION_BREAKPOINT \<and> stopBreakRequested (dsession l) \<and>
         IsCleanupQuiescent env th (dsession l) (process_state l)) \<or>
     loop_finished l' \<and> naturalExit l' \<and> r \<and> \<not> stop \<and> loop_result l' = (if targetExitCode l' = 0 then 0 else 1)"
  using assms by (cases e) (auto simp: dispatch_event_def Let_def split: if_splits option.splits prod.splits)

lemma cleanup_loop_fields:
  "loop_finished (cleanup_loop env l) = loop_finished l" "loop_result (cleanup_loop env l) = loop_result l"
  "naturalExit (cleanup_loop env l) = naturalExit l" "retryCleanStop (cleanup_loop env l) = retryCleanStop l"
  "process_state (cleanup_loop env l) = snd (snd (CleanupDebuggee env (dsession l) (process_state l)))"
  by (simp_all add: cleanup_loop_def split: prod.splits)

lemma after_event_end:
  assumes "after_event env t e r stop st l = (left, l')"
  shows "naturalExit l' = naturalExit l \<and> targetExitCode l' = targetExitCode (if \<not> r \<or> stop then cleanup_loop env l else l) \<and>
     (r \<and> \<not> stop \<longrightarrow> loop_finished l' = loop_finished l \<and> loop_result l' = loop_result l) \<and>
     (\<not> r \<or> stop \<longrightarrow> process_state l' = snd (snd (CleanupDebuggee env (dsession l) (process_state l))) \<and>
        (loop_finished l' = loop_finished l \<and> loop_result l' = loop_result l \<or> loop_finished l' \<and> loop_result l' = (if stop then 0 else 1)))"
  using assms by (auto simp: after_event_def Let_def cleanup_loop_fields split: if_splits)

lemma loop_turn_end:
  assumes "loop_turn env t l = Some (left, l')" "\<not> loop_finished l" "loop_result l = 1" "\<not> naturalExit l"
  shows "loop_ended env [t] l' \<and> (\<not> left \<and> \<not> loop_finished l' \<longrightarrow> loop_result l' = 1 \<and> \<not> naturalExit l')"
proof -
  have l1: "\<not> loop_finished (waiting t l)" "loop_result (waiting t l) = 1" "\<not> naturalExit (waiting t l)" using assms(2-4) by simp_all
  from assms(1) show ?thesis
  proof (cases rule: loop_turn_cases)
    case broken
    then show ?thesis using assms(2-4) by (simp add: loop_ended_def)
  next
    case idle
    then show ?thesis using l1 by (simp add: loop_ended_def)
  next
    case (event e r stop st l2)
    note d = dispatch_event_end [OF event(2) l1] and a = after_event_end [OF event(3)]
    show ?thesis
    proof (cases "r \<and> \<not> stop")
      case True
      then have a': "naturalExit l' = naturalExit l2" "targetExitCode l' = targetExitCode l2" "loop_finished l' = loop_finished l2"
        "loop_result l' = loop_result l2" using a by simp_all
      have "\<not> loop_finished l2 \<and> loop_result l2 = 1 \<and> \<not> naturalExit l2 \<or>
          loop_finished l2 \<and> naturalExit l2 \<and> loop_result l2 = (if targetExitCode l2 = 0 then 0 else 1)" using d by blast
      then show ?thesis unfolding loop_ended_def a' by blast
    next
      case False
      then have l2: "\<not> loop_finished l2" "loop_result l2 = 1" "\<not> naturalExit l2" using d by blast+
      have l': "\<not> naturalExit l'" "process_state l' = snd (snd (CleanupDebuggee env (dsession l2) (process_state l2)))"
        using a l2(3) False by blast+
      have ends: "\<not> loop_finished l' \<and> loop_result l' = 1 \<or> loop_finished l' \<and> (stop \<longrightarrow> loop_result l' = 0) \<and> (\<not> stop \<longrightarrow> loop_result l' = 1)"
        using a l2 False by (cases stop) auto
      have "\<exists>u \<in> set [t]. \<exists>d s. stops_at env u d s \<and> process_state l' = snd (snd (CleanupDebuggee env d s))" if stop
      proof -
        have "stops_at env t (dsession l2) (process_state l2)" using d that event(1) by (auto simp: stops_at_def)
        then show ?thesis using l'(2) by auto
      qed
      then have "loop_ended env [t] l'" unfolding loop_ended_def using ends l'(1) by blast
      then show ?thesis using ends l'(1) by auto
    qed
  qed
qed

lemma loop_ended_more: "loop_ended env ts l \<Longrightarrow> set ts \<subseteq> set ts' \<Longrightarrow> loop_ended env ts' l"
  unfolding loop_ended_def by blast

interpretation stopping: loop_rule env "\<lambda>ts l. set ts \<subseteq> set turns \<and> loop_result l = 1 \<and> \<not> naturalExit l" "loop_ended env turns"
  for env turns
proof (unfold_locales, elim conjE)
  fix t l left l' ts
  assume a: "loop_turn env t l = Some (left, l')" "\<not> loop_finished l" "set (t # ts) \<subseteq> set turns" "loop_result l = 1" "\<not> naturalExit l"
  have "loop_ended env turns l'" using loop_turn_end [OF a(1,2,4,5)] loop_ended_more [of env "[t]" l' turns] a(3) by simp
  then show "if left \<or> loop_finished l' then loop_ended env turns l'
     else set ts \<subseteq> set turns \<and> loop_result l' = 1 \<and> \<not> naturalExit l'"
    using loop_turn_end [OF a(1,2,4,5)] a(3) by simp
qed

subsection \<open>Outside the instrumentation\<close>

lemma outside_range:
  assumes "unat b + n < 2 ^ 64" "\<not> (b \<le> x \<and> x < b + of_nat n)"
  shows "outside (x :: addr) b n"
proof -
  have n: "unat (b + of_nat n) = unat b + n" using assms(1) by (simp add: unat_word_ariths unat_of_nat)
  show ?thesis
  proof (cases "b \<le> x")
    case True
    then have "unat b + n \<le> unat x" using assms(2) n by (simp add: not_less word_le_nat_alt)
    then show ?thesis using True by (simp add: outside_def unat_sub)
  next
    case False
    then have "unat x < unat b" by (simp add: not_le word_less_nat_alt)
    have "unat (x - b) = 2 ^ 64 + unat x - unat b" using False
      by (simp add: unat_sub_if_size word_size word_le_nat_alt)
    then show ?thesis using assms(1) by (simp add: outside_def)
  qed
qed

definition outside_instrumentation :: "debug_session \<Rightarrow> u64 \<Rightarrow> bool" where
  "outside_instrumentation d rip \<longleftrightarrow>
     (unat (hookImageBase d) + hookImageSize d < 2 ^ 64 \<longrightarrow> outside rip (hookImageBase d) (hookImageSize d)) \<and>
     (\<forall>h \<in> set (installedHooks d).
        (unat (ih_originalFunction h) + length (ih_originalBytes h) < 2 ^ 64 \<longrightarrow>
           outside rip (ih_originalFunction h) (length (ih_originalBytes h))) \<and>
        (unat (ih_trampolineAddress h) + TRAMPOLINE_SIZE < 2 ^ 64 \<longrightarrow> outside rip (ih_trampolineAddress h) TRAMPOLINE_SIZE))"

lemma IsInstrumentationAddress_outside:
  assumes "\<not> IsInstrumentationAddress d rip" "hookImageBase d \<noteq> 0"
  shows "outside_instrumentation d rip"
proof -
  have "\<not> (hookImageBase d \<le> rip \<and> rip < hookImageBase d + of_nat (hookImageSize d))"
    using assms by (auto simp: IsInstrumentationAddress_def)
  moreover have "\<not> (ih_originalFunction h \<le> rip \<and> rip < ih_originalFunction h + of_nat (length (ih_originalBytes h)))"
    "\<not> (ih_trampolineAddress h \<le> rip \<and> rip < ih_trampolineAddress h + of_nat TRAMPOLINE_SIZE)" if "h \<in> set (installedHooks d)" for h
    using assms that by (auto simp: IsInstrumentationAddress_def TRAMPOLINE_SIZE_def)
  ultimately show ?thesis unfolding outside_instrumentation_def using outside_range by blast
qed

lemma thread_loop_iff:
  "thread_loop d entries \<longleftrightarrow> (\<forall>context. (processId d, context) \<in> set entries \<longrightarrow>
     context = ThreadGone \<or> (\<exists>rip. context = Rip rip \<and> \<not> IsInstrumentationAddress d rip))"
  by (induction d entries rule: thread_loop.induct) (auto split: thread_context.splits if_splits)

text \<open>No call is inside a handler, and no thread that can be seen runs in instrumented code.\<close>

definition quiescent :: "('s, 'h) launcher \<Rightarrow> (u32 \<times> thread_context) list option \<Rightarrow> debug_session \<Rightarrow> 's \<Rightarrow> bool" where
  "quiescent env threads d s \<longleftrightarrow>
     (\<exists>counter bytes entries. GetRemoteExport (remote env) s (hookImageBase d) ''ActiveHookCalls'' = Some counter \<and>
        ReadProcessMemory (remote env) s (address counter) 4 = Some bytes \<and> of_le bytes = (0 :: u32) \<and> threads = Some entries \<and>
        (\<forall>context. (processId d, context) \<in> set entries \<longrightarrow>
           context = ThreadGone \<or> (\<exists>rip. context = Rip rip \<and> outside_instrumentation d rip)))"

lemma IsCleanupQuiescent_quiescent:
  "IsCleanupQuiescent env threads d s \<Longrightarrow> hookImageBase d \<noteq> 0 \<Longrightarrow> quiescent env threads d s"
  using IsInstrumentationAddress_outside [of d]
  by (fastforce simp: IsCleanupQuiescent_def quiescent_def thread_loop_iff split: option.splits if_splits)


subsection \<open>The functions after all hooks were removed\<close>

text \<open>The memory a hook occupies: the patched bytes, the trampoline, the slot.\<close>

definition hook_pieces :: "InstalledHook \<Rightarrow> (addr \<times> nat) list" where
  "hook_pieces h = [(ih_originalFunction h, length (ih_originalBytes h)), (ih_trampolineAddress h, TRAMPOLINE_SIZE), (ih_trampolineSlot h, 8)]"

fun all_apart :: "(addr \<times> nat) list \<Rightarrow> bool" where
  "all_apart [] \<longleftrightarrow> True"
| "all_apart (p # ps) \<longleftrightarrow> (\<forall>q \<in> set ps. apart (fst p) (snd p) (fst q) (snd q)) \<and> all_apart ps"

definition outside_all :: "addr \<Rightarrow> (addr \<times> nat) list \<Rightarrow> bool" where
  "outside_all x ps \<longleftrightarrow> (\<forall>p \<in> set ps. outside x (fst p) (snd p))"

lemma all_apart_append:
  "all_apart (ps @ qs) \<longleftrightarrow> all_apart ps \<and> all_apart qs \<and> (\<forall>p \<in> set ps. \<forall>q \<in> set qs. apart (fst p) (snd p) (fst q) (snd q))"
  by (induction ps) auto

lemma mem_bytes_outside_all:
  assumes "\<forall>q \<in> set ps. apart b k (fst q) (snd q)" "\<And>x. outside_all x ps \<Longrightarrow> m' x = m x"
  shows "mem_bytes m' b k = mem_bytes m b k"
  using assms by (intro nth_equalityI) (auto simp: apart_def outside_all_def)

lemma all_apart_rev: "all_apart (concat (map f (rev xs))) \<longleftrightarrow> all_apart (concat (map f xs))"
proof (induction xs)
  case (Cons x xs)
  then show ?case using apart_sym by (simp add: all_apart_append) blast
qed simp

lemma apart_trampolines:
  assumes "\<forall>p \<in> set (hook_pieces h). \<forall>q \<in> set (concat (map hook_pieces hs)). apart (fst p) (snd p) (fst q) (snd q)" "h' \<in> set hs"
  shows "ih_trampolineAddress h' \<noteq> ih_trampolineAddress h"
proof -
  have "apart (ih_trampolineAddress h) TRAMPOLINE_SIZE (ih_trampolineAddress h') TRAMPOLINE_SIZE"
    using assms by (auto simp: hook_pieces_def)
  then have "outside (ih_trampolineAddress h) (ih_trampolineAddress h') TRAMPOLINE_SIZE"
    unfolding apart_def by (auto simp: TRAMPOLINE_SIZE_def dest: spec [of _ 0])
  then show ?thesis by (auto simp: outside_def TRAMPOLINE_SIZE_def)
qed

definition restored :: "memory \<Rightarrow> InstalledHook \<Rightarrow> bool" where
  "restored m h \<longleftrightarrow> mem_bytes m (ih_originalFunction h) (length (ih_originalBytes h)) = ih_originalBytes h \<and>
     mem_bytes m (ih_trampolineSlot h) 8 = null_bytes"

lemma unhook_loop_cleaned: "unhook_loop os hs c s = (True, s') \<Longrightarrow> c"
  by (induction os hs c s rule: unhook_loop.induct) (auto split: prod.splits)

lemma unhook_loop_restores:
  assumes ok: "os_ok os v"
  shows "unhook_loop os hs c s = (True, s') \<Longrightarrow> all_apart (concat (map hook_pieces hs)) \<Longrightarrow>
     \<forall>h \<in> set hs. length (ih_originalBytes h) \<le> 2 ^ 64 \<and> regions v s (ih_trampolineAddress h) = Some TRAMPOLINE_SIZE \<Longrightarrow>
     (\<forall>h \<in> set hs. restored (rmem v s') h \<and> regions v s' (ih_trampolineAddress h) = None) \<and>
     (\<forall>x. outside_all x (concat (map hook_pieces hs)) \<longrightarrow> rmem v s' x = rmem v s x) \<and>
     (\<forall>a. a \<notin> ih_trampolineAddress ` set hs \<longrightarrow> regions v s' a = regions v s a)"
proof (induction hs arbitrary: c s)
  case Nil
  then show ?case by simp
next
  case (Cons h hs)
  let ?f = "ih_originalFunction h" and ?k = "length (ih_originalBytes h)" and ?T = "ih_trampolineAddress h" and ?slot = "ih_trampolineSlot h"
  let ?rest = "concat (map hook_pieces hs)"
  obtain r s1 where u: "UnhookFunction os h s = (r, s1)" by fastforce
  then have rest: "unhook_loop os hs (r \<and> c) s1 = (True, s')" using Cons.prems(1) by simp
  have r using unhook_loop_cleaned [OF rest] by simp
  have ap: "all_apart (hook_pieces h)" "all_apart ?rest"
    "\<forall>p \<in> set (hook_pieces h). \<forall>q \<in> set ?rest. apart (fst p) (snd p) (fst q) (snd q)"
    using Cons.prems(2) by (simp_all add: all_apart_append)
  then have own: "apart ?f ?k ?T TRAMPOLINE_SIZE" "apart ?slot 8 ?T TRAMPOLINE_SIZE" "apart ?slot 8 ?f ?k"
    by (simp_all add: hook_pieces_def apart_sym)
  have one: "mem_bytes (rmem v s1) ?f ?k = ih_originalBytes h \<and> mem_bytes (rmem v s1) ?slot 8 = null_bytes \<and>
      regions v s1 = (regions v s)(?T := None) \<and>
      (\<forall>x. outside x ?f ?k \<longrightarrow> outside x ?T TRAMPOLINE_SIZE \<longrightarrow> outside x ?slot 8 \<longrightarrow> rmem v s1 x = rmem v s x)"
    using UnhookFunction_result [OF ok _ refl refl refl refl _ _ own, of s s1] u \<open>r\<close> Cons.prems(3) by simp
  note other = apart_trampolines [OF ap(3)]
  have "\<forall>h' \<in> set hs. length (ih_originalBytes h') \<le> 2 ^ 64 \<and> regions v s1 (ih_trampolineAddress h') = Some TRAMPOLINE_SIZE"
    using one other Cons.prems(3) by simp
  from Cons.IH [OF rest ap(2) this] have IH:
    "\<forall>h \<in> set hs. restored (rmem v s') h \<and> regions v s' (ih_trampolineAddress h) = None"
    "\<And>x. outside_all x ?rest \<Longrightarrow> rmem v s' x = rmem v s1 x"
    "\<And>a. a \<notin> ih_trampolineAddress ` set hs \<Longrightarrow> regions v s' a = regions v s1 a" by blast+
  have keep: "mem_bytes (rmem v s') b n = mem_bytes (rmem v s1) b n" if "(b, n) \<in> set (hook_pieces h)" for b n
    using bspec [OF ap(3) that] IH(2) by (intro mem_bytes_outside_all [of ?rest]) simp_all
  have "restored (rmem v s') h" using one keep by (simp add: restored_def hook_pieces_def)
  moreover have "?T \<notin> ih_trampolineAddress ` set hs" using other by fastforce
  then have "regions v s' ?T = None" using IH(3) [of ?T] one by simp
  moreover have "rmem v s' x = rmem v s x" if "outside_all x (concat (map hook_pieces (h # hs)))" for x
    using that IH(2) [of x] one by (simp add: outside_all_def hook_pieces_def)
  moreover have "regions v s' a = regions v s a" if "a \<notin> ih_trampolineAddress ` set (h # hs)" for a
    using that IH(3) [of a] one by simp
  ultimately show ?case using IH(1) by simp
qed

text \<open>A hook in place: the function jumps away and the slot leads to the trampoline.\<close>

definition in_place :: "memory \<Rightarrow> InstalledHook \<Rightarrow> bool" where
  "in_place m h \<longleftrightarrow> jump_target (mem_bytes m (ih_originalFunction h) (length (ih_originalBytes h))) \<noteq> None \<and>
     mem_bytes m (ih_trampolineSlot h) 8 = le_bytes (ih_trampolineAddress h)"

lemma HookFunction_memory:
  assumes ok: "os_ok os v" and run: "HookFunction zydis os f b x s = (Some h, s1)" and ap: "all_apart (hook_pieces h)"
  shows "in_place (rmem v s1) h \<and> length (ih_originalBytes h) \<le> 2 ^ 64 \<and> regions v s1 = (regions v s)(ih_trampolineAddress h \<mapsto> TRAMPOLINE_SIZE) \<and>
     ih_originalBytes h = mem_bytes (rmem v s) (ih_originalFunction h) (length (ih_originalBytes h)) \<and>
     (\<forall>x. outside_all x (hook_pieces h) \<longrightarrow> rmem v s1 x = rmem v s x)"
proof -
  let ?k = "length (ih_originalBytes h)" and ?T = "ih_trampolineAddress h" and ?slot = "ih_trampolineSlot h"
  have f: "ih_originalFunction h = f" by (rule HookFunction_steps [OF run])
  have own: "apart f ?k ?T TRAMPOLINE_SIZE" "apart ?slot 8 ?T TRAMPOLINE_SIZE" "apart ?slot 8 f ?k"
    using ap by (simp_all add: hook_pieces_def apart_sym f)
  obtain handler :: RemoteExport where r: "mem_bytes (rmem v s1) f ?k = jump_code (address handler) @ replicate (?k - PATCH_SIZE) 0x90"
    "mem_bytes (rmem v s1) ?slot 8 = le_bytes ?T" "ih_originalBytes h = mem_bytes (rmem v s) f ?k"
    "regions v s1 = (regions v s)(?T \<mapsto> TRAMPOLINE_SIZE)"
    "\<forall>x. outside x f ?k \<longrightarrow> outside x ?T TRAMPOLINE_SIZE \<longrightarrow> outside x ?slot 8 \<longrightarrow> rmem v s1 x = rmem v s x"
    using HookFunction_result [OF ok run refl refl refl own] by (elim exE conjE) (rule that; assumption)
  have "?k \<le> 269"
    using HookFunction_steps [OF run] CreateBypassTrampoline_result [OF ok] os_read [OF ok] by (metis length_mem_bytes)
  then have "?k \<le> 2 ^ 64" by simp
  then show ?thesis using r f jump_code_target [of "address handler" "replicate (?k - PATCH_SIZE) 0x90"]
    by (simp add: in_place_def outside_all_def hook_pieces_def)
qed

text \<open>What the hooks in \<open>hs\<close> changed from one state to another.\<close>

definition hooks_added :: "'s observed \<Rightarrow> InstalledHook list \<Rightarrow> 's \<Rightarrow> 's \<Rightarrow> bool" where
  "hooks_added v hs s s' \<longleftrightarrow>
     (\<forall>h \<in> set hs. in_place (rmem v s') h \<and> length (ih_originalBytes h) \<le> 2 ^ 64 \<and>
        regions v s' (ih_trampolineAddress h) = Some TRAMPOLINE_SIZE \<and>
        ih_originalBytes h = mem_bytes (rmem v s) (ih_originalFunction h) (length (ih_originalBytes h))) \<and>
     (\<forall>x. outside_all x (concat (map hook_pieces hs)) \<longrightarrow> rmem v s' x = rmem v s x) \<and>
     (\<forall>a. a \<notin> ih_trampolineAddress ` set hs \<longrightarrow> regions v s' a = regions v s a)"

lemma hooks_added_Cons:
  assumes first: "in_place (rmem v s1) h \<and> length (ih_originalBytes h) \<le> 2 ^ 64 \<and>
       regions v s1 = (regions v s)(ih_trampolineAddress h \<mapsto> TRAMPOLINE_SIZE) \<and>
       ih_originalBytes h = mem_bytes (rmem v s) (ih_originalFunction h) (length (ih_originalBytes h)) \<and>
       (\<forall>x. outside_all x (hook_pieces h) \<longrightarrow> rmem v s1 x = rmem v s x)"
    and rest: "hooks_added v hs s1 s'"
    and ap: "\<forall>p \<in> set (hook_pieces h). \<forall>q \<in> set (concat (map hook_pieces hs)). apart (fst p) (snd p) (fst q) (snd q)"
  shows "hooks_added v (h # hs) s s'"
proof -
  let ?rest = "concat (map hook_pieces hs)"
  note other = apart_trampolines [OF ap]
  have frame: "\<And>x. outside_all x ?rest \<Longrightarrow> rmem v s' x = rmem v s1 x" using rest by (simp add: hooks_added_def)
  have keep: "mem_bytes (rmem v s') b n = mem_bytes (rmem v s1) b n" if "(b, n) \<in> set (hook_pieces h)" for b n
    using bspec [OF ap that] frame by (intro mem_bytes_outside_all [of ?rest]) simp_all
  have before: "mem_bytes (rmem v s1) b n = mem_bytes (rmem v s) b n" if "(b, n) \<in> set ?rest" for b n
  proof (rule mem_bytes_outside_all [of "hook_pieces h"])
    show "\<forall>q \<in> set (hook_pieces h). apart b n (fst q) (snd q)" using ap that apart_sym by fastforce
  qed (use first in simp)
  have "ih_trampolineAddress h \<notin> ih_trampolineAddress ` set hs" using other by fastforce
  then have "regions v s' (ih_trampolineAddress h) = Some TRAMPOLINE_SIZE" using rest first by (simp add: hooks_added_def)
  moreover have "in_place (rmem v s') h" using first keep by (simp add: in_place_def hook_pieces_def)
  moreover have "ih_originalBytes h' = mem_bytes (rmem v s) (ih_originalFunction h') (length (ih_originalBytes h'))" if "h' \<in> set hs" for h'
  proof -
    have "(ih_originalFunction h', length (ih_originalBytes h')) \<in> set ?rest" using that by (auto simp: hook_pieces_def)
    from before [OF this] show ?thesis using rest that by (simp add: hooks_added_def)
  qed
  moreover have "rmem v s' x = rmem v s x" if "outside_all x (concat (map hook_pieces (h # hs)))" for x
    using that frame [of x] first by (simp add: outside_all_def)
  ultimately show ?thesis using first rest by (simp add: hooks_added_def)
qed

lemma TryInstallPendingHooks_memory:
  assumes ok: "os_ok (remote env) v"
  shows "TryInstallPendingHooks env defs d s = (True, d', s') \<Longrightarrow>
     \<exists>new. d' = d\<lparr>installedHooks := installedHooks d @ new\<rparr> \<and> (all_apart (concat (map hook_pieces new)) \<longrightarrow> hooks_added v new s s')"
proof (induction defs arbitrary: d s)
  case Nil
  then show ?case by (auto simp: hooks_added_def intro: exI [of _ "[]"])
next
  case (Cons x defs)
  let ?named = "\<exists>hook \<in> set (installedHooks d). ih_canonicalName hook = canonicalName x"
  obtain src res where res: "ResolveHookAddress (remote env) s (modules d) x = (src, res)" by fastforce
  consider (skip) "?named \<or> res = Pending"
    | (stop) "\<not> ?named" "res = ResolveResult.Error \<or> (\<exists>a m. res = Resolved a m \<and> (\<exists>hook \<in> set (installedHooks d). ih_originalFunction hook = a))"
    | (hook) a m where "\<not> ?named" "res = Resolved a m" "\<not> (\<exists>hook \<in> set (installedHooks d). ih_originalFunction hook = a)"
    by (cases res) blast+
  then show ?case
  proof cases
    case skip
    then have "TryInstallPendingHooks env defs d s = (True, d', s')"
      using Cons.prems(1) TryInstallPendingHooks_skip [of d x env s defs] res by simp
    then show ?thesis by (rule Cons.IH)
  next
    case stop
    then show ?thesis using Cons.prems(1) TryInstallPendingHooks_stop [OF stop(1) res stop(2), of defs] by simp
  next
    case hook
    note step = TryInstallPendingHooks_hook [OF hook(1) res [unfolded hook(2)] hook(3), of defs] Cons.prems(1)
    obtain ih s1 where h: "HookFunction (decoder env) (remote env) a (hookImageBase d) x s = (Some ih, s1)"
      using step by (cases "HookFunction (decoder env) (remote env) a (hookImageBase d) x s") (auto split: option.splits)
    let ?h = "ih\<lparr>ih_sourceModuleBase := src, ih_targetModuleBase := m\<rparr>"
    let ?d = "d\<lparr>installedHooks := installedHooks d @ [?h]\<rparr>"
    have "TryInstallPendingHooks env defs ?d s1 = (True, d', s')" using step h by simp
    from Cons.IH [OF this] obtain new where new: "d' = ?d\<lparr>installedHooks := installedHooks ?d @ new\<rparr>"
      "all_apart (concat (map hook_pieces new)) \<longrightarrow> hooks_added v new s1 s'" by blast
    have "hooks_added v (?h # new) s s'" if "all_apart (concat (map hook_pieces (?h # new)))"
    proof (rule hooks_added_Cons)
      have same: "hook_pieces ?h = hook_pieces ih" "in_place m ?h = in_place m ih" for m
        by (simp_all add: hook_pieces_def in_place_def)
      have ap: "all_apart (hook_pieces ih)" "all_apart (concat (map hook_pieces new))"
        "\<forall>p \<in> set (hook_pieces ?h). \<forall>q \<in> set (concat (map hook_pieces new)). apart (fst p) (snd p) (fst q) (snd q)"
        using that by (simp_all add: all_apart_append same)
      show "in_place (rmem v s1) ?h \<and> length (ih_originalBytes ?h) \<le> 2 ^ 64 \<and>
         regions v s1 = (regions v s)(ih_trampolineAddress ?h \<mapsto> TRAMPOLINE_SIZE) \<and>
         ih_originalBytes ?h = mem_bytes (rmem v s) (ih_originalFunction ?h) (length (ih_originalBytes ?h)) \<and>
         (\<forall>x. outside_all x (hook_pieces ?h) \<longrightarrow> rmem v s1 x = rmem v s x)"
        using HookFunction_memory [OF ok h ap(1)] by (simp add: same)
      show "hooks_added v new s1 s'" using new(2) ap(2) by blast
    qed (use that in \<open>simp add: all_apart_append\<close>)
    then show ?thesis using new(1) by (intro exI [of _ "?h # new"]) simp
  qed
qed

text \<open>C8: Hooks are installed and removed as a whole. When the installation of the pending hooks goes
  through, every hooked function jumps away and its slot leads to its trampoline; whatever the
  target does afterwards, as long as the trampolines are allocated, a removal of all hooks, last
  first, that reports success gives every function the bytes it had before the first hook was
  installed, clears the slots, releases the trampolines and changes nothing else. The patched bytes,
  the trampolines and the slots of the hooks must not overlap.\<close>

theorem hooks_roundtrip:
  assumes "os_ok (remote env) v" "TryInstallPendingHooks env defs d s = (True, d', s1)" "installedHooks d = []"
    and "all_apart (concat (map hook_pieces (installedHooks d')))"
    and "\<forall>h \<in> set (installedHooks d'). regions v s2 (ih_trampolineAddress h) = Some TRAMPOLINE_SIZE"
    and "unhook_loop (remote env) (rev (installedHooks d')) True s2 = (True, s3)"
  shows "(\<forall>h \<in> set (installedHooks d'). in_place (rmem v s1) h \<and>
       mem_bytes (rmem v s3) (ih_originalFunction h) (length (ih_originalBytes h)) =
         mem_bytes (rmem v s) (ih_originalFunction h) (length (ih_originalBytes h)) \<and>
       mem_bytes (rmem v s3) (ih_trampolineSlot h) 8 = null_bytes \<and> regions v s3 (ih_trampolineAddress h) = None) \<and>
     (\<forall>x. outside_all x (concat (map hook_pieces (installedHooks d'))) \<longrightarrow> rmem v s1 x = rmem v s x \<and> rmem v s3 x = rmem v s2 x)"
proof -
  have added: "hooks_added v (installedHooks d') s s1"
    using TryInstallPendingHooks_memory [OF assms(1,2)] assms(3,4) by auto
  have "(\<forall>h \<in> set (rev (installedHooks d')). restored (rmem v s3) h \<and> regions v s3 (ih_trampolineAddress h) = None) \<and>
      (\<forall>x. outside_all x (concat (map hook_pieces (rev (installedHooks d')))) \<longrightarrow> rmem v s3 x = rmem v s2 x)"
    using unhook_loop_restores [OF assms(1,6)] assms(4,5) added by (simp add: all_apart_rev hooks_added_def)
  then show ?thesis using added by (simp add: hooks_added_def restored_def outside_all_def)
qed

subsection \<open>A run of the round trip\<close>

definition plain_target :: "sim session_os" where
  "plain_target = \<lparr>process_os = sim_os {}, CreateFileMappingW = (\<lambda>s. (False, s)), MapViewOfFile = (\<lambda>s. (False, s)),
     NtMapViewOfSection = (\<lambda>s. (None, s)), NtUnmapViewOfSection = (\<lambda>s a. (False, s)), CreateEventW = (\<lambda>s. (False, s)),
     DuplicateHandle = (\<lambda>s. (None, s)), DuplicateCloseSource = (\<lambda>s h. (False, s))\<rparr>"

definition hook_H :: HookDefinition where
  "hook_H = sample_definition\<lparr>moduleName := ''m.dll'', exportName := ''H''\<rparr>"

definition plain_launcher :: "(sim, unit) launcher" where
  "plain_launcher = \<lparr>target = plain_target, DebugSetProcessKillOnExit = (\<lambda>s. (True, s)), decoder = nop_decoder,
     files = sample_files [], hookDllPath = [], finalPath = (\<lambda>f n. (0, [])), selected_hooks = [hook_H],
     output_options = \<lparr>output_format = Text, outputPath = [], quiet = False, color_mode = Never, status_mode = Never\<rparr>,
     output_opens = True, stop_event = True\<rparr>"

definition plain_session :: debug_session where
  "plain_session = initial_debug_session\<lparr>modules := [(0, \<lparr>mr_base = 0, mr_path = [], mr_name = ''m.dll'', mr_generation = 1\<rparr>)]\<rparr>"

lemma plain_remote [simp]: "remote plain_launcher = sim_os {}" "decoder plain_launcher = nop_decoder"
  by (simp_all add: plain_launcher_def plain_target_def)

lemma hook_H_resolves: "ResolveHookAddress (sim_os {}) sample_process (modules plain_session) hook_H = (0, Resolved 0x1000 0)"
proof -
  have "module_file ''m.dll'' = ''m.dll''" by code_simp
  then show ?thesis
    by (simp add: ResolveHookAddress_def hook_H_def plain_session_def FindModule_def ResolveExportAddress.simps sample_exports)
qed

lemma hook_H_installs:
  "\<exists>h s1. HookFunction nop_decoder (sim_os {}) 0x1000 0 hook_H sample_process = (Some h, s1) \<and> ih_originalFunction h = 0x1000 \<and>
     ih_trampolineAddress h = 0x5000 \<and> ih_trampolineSlot h = 0x2000 \<and> length (ih_originalBytes h) = 14"
  unfolding HookFunction_def hook_H_def sample_definition_def
  by (simp add: sample_exports CreateBypassTrampoline_def nop_patch_size)
     (simp add: sim_os_def ticked_def sample_process_def CreateTrampoline_def install_hook_def PatchFunction_def Let_def)

lemma hook_H_placed:
  "\<exists>h s1. HookFunction nop_decoder (sim_os {}) 0x1000 0 hook_H sample_process = (Some h, s1) \<and> ih_originalFunction h = 0x1000 \<and>
     length (ih_originalBytes h) = 14 \<and> ih_trampolineAddress h \<noteq> 0 \<and> ih_trampolineSlot h \<noteq> 0 \<and> all_apart (hook_pieces h) \<and>
     in_place (sim_mem s1) h \<and> sim_regions s1 (ih_trampolineAddress h) = Some TRAMPOLINE_SIZE"
proof -
  obtain h s1 where h: "HookFunction nop_decoder (sim_os {}) 0x1000 0 hook_H sample_process = (Some h, s1)" "ih_originalFunction h = 0x1000"
    "ih_trampolineAddress h = 0x5000" "ih_trampolineSlot h = 0x2000" "length (ih_originalBytes h) = 14"
    using hook_H_installs by blast
  have "apart 0x1000 14 0x5000 TRAMPOLINE_SIZE" "apart (0x1000 :: addr) 14 0x2000 8" "apart 0x2000 8 0x5000 TRAMPOLINE_SIZE"
    by (rule apart_below; simp add: TRAMPOLINE_SIZE_def)+
  then have "all_apart (hook_pieces h)" using h by (simp add: hook_pieces_def apart_sym [of "0x5000"])
  then show ?thesis using HookFunction_memory [OF sim_os_ok h(1)] h by auto
qed

lemma sim_unhooks:
  "ih_originalFunction h \<noteq> 0 \<Longrightarrow> ih_trampolineAddress h \<noteq> 0 \<Longrightarrow> ih_trampolineSlot h \<noteq> 0 \<Longrightarrow> ih_originalBytes h \<noteq> [] \<Longrightarrow>
     sim_regions s (ih_trampolineAddress h) \<noteq> None \<Longrightarrow> \<exists>s'. UnhookFunction (sim_os {}) h s = (True, s')"
  by (simp add: UnhookFunction_def sim_os_def ticked_def Let_def)

lemma hooks_roundtrip_witness:
  "\<exists>d' s1 s3. TryInstallPendingHooks plain_launcher [hook_H] plain_session sample_process = (True, d', s1) \<and>
     unhook_loop (sim_os {}) (rev (installedHooks d')) True s1 = (True, s3) \<and>
     jump_target (mem_bytes (sim_mem s1) 0x1000 14) \<noteq> None \<and>
     mem_bytes (sim_mem s3) 0x1000 14 = mem_bytes (sim_mem sample_process) 0x1000 14"
proof -
  obtain h s1 where h: "HookFunction nop_decoder (sim_os {}) 0x1000 0 hook_H sample_process = (Some h, s1)" "ih_originalFunction h = 0x1000"
    "length (ih_originalBytes h) = 14" "ih_trampolineAddress h \<noteq> 0" "ih_trampolineSlot h \<noteq> 0" "all_apart (hook_pieces h)"
    "sim_regions s1 (ih_trampolineAddress h) = Some TRAMPOLINE_SIZE"
    using hook_H_placed by blast
  let ?h = "h\<lparr>ih_sourceModuleBase := 0, ih_targetModuleBase := 0\<rparr>"
  let ?d = "plain_session\<lparr>installedHooks := [?h]\<rparr>"
  have run: "TryInstallPendingHooks plain_launcher [hook_H] plain_session sample_process = (True, ?d, s1)"
    using hook_H_resolves h(1) by (simp add: plain_session_def initial_debug_session_def)
  have none: "installedHooks plain_session = []" by (simp add: plain_session_def initial_debug_session_def)
  have apart: "all_apart (concat (map hook_pieces (installedHooks ?d)))" using h(6) by (simp add: hook_pieces_def)
  have regions: "\<forall>h \<in> set (installedHooks ?d). regions (sim_mem, sim_regions) s1 (ih_trampolineAddress h) = Some TRAMPOLINE_SIZE"
    using h(7) by simp
  obtain s3 where u: "UnhookFunction (sim_os {}) ?h s1 = (True, s3)"
    using sim_unhooks [of ?h s1] h by (auto simp flip: length_0_conv)
  then have "unhook_loop (remote plain_launcher) (rev (installedHooks ?d)) True s1 = (True, s3)" by simp
  from hooks_roundtrip [OF _ run none apart regions this] sim_os_ok h(2,3) have
    "in_place (sim_mem s1) ?h" "mem_bytes (sim_mem s3) 0x1000 14 = mem_bytes (sim_mem sample_process) 0x1000 14" by simp_all
  then show ?thesis using run u h(2,3) by (auto simp: in_place_def)
qed


end
